(* ===== verification/Prelude.thy ===== *)
theory Prelude
  imports Main "HOL-Library.Word" "HOL-Library.Code_Target_Nat"
begin

text \<open>
  Shared vocabulary of the hvnetpp development: the types of bytes, descriptors and error
  numbers, the result type of operations that can end the process (a failed \<open>assert\<close>, a call of
  \<open>abort\<close>, an exception of the standard library, an access to freed memory), its sequencing
  operator with a weakest-precondition reading, and generic lemmas on lists and maps.

  The build files set no build type, so \<open>assert\<close> is live: a failing assertion is a fault here,
  and the theorems that an operation does not fault also cover builds without assertions.
\<close>

named_theorems hv_defs \<open>small definitions that the component proofs unfold\<close>
named_theorems wp_rules \<open>weakest-precondition equations of the model's operations\<close>

unbundle bit_operations_syntax

type_synonym byte = "8 word"
type_synonym fd = int
type_synonym errno = int
type_synonym ptr = nat
type_synonym thread_id = nat

subsection \<open>Faults and results\<close>

datatype fault =
    AssertFailed   \<comment> \<open>an \<open>assert\<close> of the source does not hold\<close>
  | Aborted        \<comment> \<open>the source calls \<open>abort\<close>\<close>
  | LengthError    \<comment> \<open>\<open>std::length_error\<close> of \<open>std::vector::resize\<close>\<close>
  | OutOfMemory    \<comment> \<open>\<open>new\<close> has no address to return: \<open>std::bad_alloc\<close>\<close>
  | IntOverflow    \<comment> \<open>a signed integer leaves its range\<close>
  | UseAfterFree   \<comment> \<open>a pointer to an object that was deleted is dereferenced\<close>

type_synonym 'a res = "fault + 'a"

definition bindR :: "'a res \<Rightarrow> ('a \<Rightarrow> 'b res) \<Rightarrow> 'b res" where
  "bindR m f = (case m of Inl e \<Rightarrow> Inl e | Inr x \<Rightarrow> f x)"

definition checkR :: "fault \<Rightarrow> bool \<Rightarrow> 'a res \<Rightarrow> 'a res" where
  "checkR e b m = (if b then m else Inl e)"

abbreviation assertR :: "bool \<Rightarrow> 'a res \<Rightarrow> 'a res" where
  "assertR \<equiv> checkR AssertFailed"

definition derefR :: "'a option \<Rightarrow> ('a \<Rightarrow> 'b res) \<Rightarrow> 'b res" where
  "derefR p f = (case p of None \<Rightarrow> Inl UseAfterFree | Some x \<Rightarrow> f x)"

text \<open>
  \<open>wpF A m P\<close>: the operation ends with a result that satisfies \<open>P\<close>, or with a fault in \<open>A\<close>. With
  \<open>A\<close> empty (\<open>wpR\<close>) this is total correctness; \<open>wpM\<close> allows running out of memory and nothing
  else. The equations turn a goal about a composed operation into goals about its parts.
\<close>

definition wpF :: "fault set \<Rightarrow> 'a res \<Rightarrow> ('a \<Rightarrow> bool) \<Rightarrow> bool" where
  "wpF A m P = (case m of Inl e \<Rightarrow> e \<in> A | Inr x \<Rightarrow> P x)"

abbreviation wpR :: "'a res \<Rightarrow> ('a \<Rightarrow> bool) \<Rightarrow> bool" where
  "wpR \<equiv> wpF {}"

abbreviation wpM :: "'a res \<Rightarrow> ('a \<Rightarrow> bool) \<Rightarrow> bool" where
  "wpM \<equiv> wpF {OutOfMemory}"

lemma bindR_simps [simp]:
  "bindR (Inr x) f = f x"
  "bindR (Inl e) f = Inl e"
  by (simp_all add: bindR_def)

lemma bindR_assoc: "bindR (bindR m f) g = bindR m (\<lambda>x. bindR (f x) g)"
  by (simp add: bindR_def split: sum.splits)

lemma bindR_eq_Inr: "bindR m f = Inr y \<longleftrightarrow> (\<exists>x. m = Inr x \<and> f x = Inr y)"
  by (simp add: bindR_def split: sum.splits)

lemma bindR_InrE:
  assumes "bindR m f = Inr y"
  obtains x where "m = Inr x" and "f x = Inr y"
  using assms by (auto simp: bindR_eq_Inr)

lemma checkR_simps [simp]:
  "checkR e True m = m"
  "checkR e False m = Inl e"
  by (simp_all add: checkR_def)

lemma checkR_eq_Inr: "checkR e b m = Inr y \<longleftrightarrow> b \<and> m = Inr y"
  by (simp add: checkR_def)

lemma derefR_simps [simp]:
  "derefR (Some x) f = f x"
  "derefR None f = Inl UseAfterFree"
  by (simp_all add: derefR_def)

lemma derefR_eq_Inr: "derefR p f = Inr y \<longleftrightarrow> (\<exists>x. p = Some x \<and> f x = Inr y)"
  by (simp add: derefR_def split: option.splits)

lemma wpF_simps [simp, wp_rules]:
  "wpF A (Inr x) P \<longleftrightarrow> P x"
  "wpF A (Inl e) P \<longleftrightarrow> e \<in> A"
  by (simp_all add: wpF_def)

lemma wpF_bind [simp, wp_rules]: "wpF A (bindR m f) P \<longleftrightarrow> wpF A m (\<lambda>x. wpF A (f x) P)"
  by (simp add: wpF_def bindR_def split: sum.splits)

lemma wpF_check [simp, wp_rules]: "wpF A (checkR e b m) P \<longleftrightarrow> (\<not> b \<longrightarrow> e \<in> A) \<and> (b \<longrightarrow> wpF A m P)"
  by (simp add: checkR_def)

lemma wpF_deref [simp, wp_rules]:
  "wpF A (derefR p f) P \<longleftrightarrow> (case p of None \<Rightarrow> UseAfterFree \<in> A | Some x \<Rightarrow> wpF A (f x) P)"
  by (simp add: derefR_def split: option.splits)

lemma wpF_if [wp_rules]:
  "wpF A (if b then m else n) P \<longleftrightarrow> (b \<longrightarrow> wpF A m P) \<and> (\<not> b \<longrightarrow> wpF A n P)"
  by simp

lemma wpF_mono: "wpF A m P \<Longrightarrow> (\<And>x. P x \<Longrightarrow> Q x) \<Longrightarrow> wpF A m Q"
  by (simp add: wpF_def split: sum.splits)

lemma wpF_mono_eq: "wpF A m P \<Longrightarrow> (\<And>x. m = Inr x \<Longrightarrow> P x \<Longrightarrow> Q x) \<Longrightarrow> wpF A m Q"
  by (simp add: wpF_def split: sum.splits)

lemma wpF_faults: "wpF A m P \<Longrightarrow> A \<subseteq> B \<Longrightarrow> wpF B m P"
  by (auto simp: wpF_def split: sum.splits)

lemma wpF_weaken: "wpF A m P \<Longrightarrow> A \<subseteq> B \<Longrightarrow> (\<And>x. P x \<Longrightarrow> Q x) \<Longrightarrow> wpF B m Q"
  by (rule wpF_mono [OF wpF_faults])

lemma wpF_conj: "wpF A m (\<lambda>x. P x \<and> Q x) \<longleftrightarrow> wpF A m P \<and> wpF A m Q"
  by (auto simp: wpF_def split: sum.splits)

lemma wpR_iff_Inr: "wpR m P \<longleftrightarrow> (\<exists>x. m = Inr x \<and> P x)"
  by (auto simp: wpF_def split: sum.splits)

lemmas wpR_mono = wpF_mono [where A = "{}"]

text \<open>A sequence of operations on one state, stopping at the first fault.\<close>

fun foldR :: "('x \<Rightarrow> 's \<Rightarrow> 's res) \<Rightarrow> 'x list \<Rightarrow> 's \<Rightarrow> 's res" where
  "foldR f [] s = Inr s"
| "foldR f (x # xs) s = bindR (f x s) (foldR f xs)"

lemma wpF_foldR_inv:
  assumes "I s" and "\<And>x s. x \<in> set xs \<Longrightarrow> I s \<Longrightarrow> wpF A (f x s) I"
  shows "wpF A (foldR f xs s) I"
  using assms
proof (induction xs arbitrary: s)
  case Nil
  then show ?case by simp
next
  case (Cons x xs)
  have "wpF A (f x s) I" using Cons.prems by simp
  moreover have "wpF A (foldR f xs t) I" if "I t" for t
    using Cons.IH [OF that] Cons.prems(2) by simp
  ultimately show ?case by (auto elim: wpF_mono)
qed

lemma foldR_append: "foldR f (xs @ ys) s = bindR (foldR f xs s) (foldR f ys)"
  by (induction xs arbitrary: s) (auto simp: bindR_def split: sum.splits)

subsection \<open>Lists as memory\<close>

text \<open>
  \<open>blit p d xs\<close> overwrites the cells of \<open>xs\<close> from index \<open>p\<close> on with the list \<open>d\<close>: what
  \<open>std::copy\<close>, \<open>memcpy\<close> and \<open>memmove\<close> do to the destination array.
\<close>

definition blit :: "nat \<Rightarrow> 'a list \<Rightarrow> 'a list \<Rightarrow> 'a list" where
  "blit p d xs = take p xs @ d @ drop (p + length d) xs"

definition seg :: "nat \<Rightarrow> nat \<Rightarrow> 'a list \<Rightarrow> 'a list" where
  "seg i j xs = take (j - i) (drop i xs)"

lemma length_blit [simp]: "p + length d \<le> length xs \<Longrightarrow> length (blit p d xs) = length xs"
  by (simp add: blit_def)

lemma length_seg [simp]: "j \<le> length xs \<Longrightarrow> length (seg i j xs) = j - i"
  by (simp add: seg_def)

lemma seg_empty [simp]: "seg i i xs = []"
  by (simp add: seg_def)

lemma seg_append: "i \<le> j \<Longrightarrow> j \<le> k \<Longrightarrow> seg i j xs @ seg j k xs = seg i k xs"
proof -
  assume "i \<le> j" and "j \<le> k"
  then have "take (k - i) (drop i xs) = take (j - i) (drop i xs) @ take (k - j) (drop (j - i) (drop i xs))"
    by (metis Nat.add_diff_assoc2 add_diff_inverse_nat diff_diff_left le_add_diff_inverse2 not_less
        ordered_cancel_comm_monoid_diff_class.add_diff_assoc2 take_add)
  with \<open>i \<le> j\<close> show ?thesis by (simp add: seg_def)
qed

lemma seg_blit_same: "p + length d \<le> length xs \<Longrightarrow> seg p (p + length d) (blit p d xs) = d"
  by (simp add: seg_def blit_def)

lemma seg_blit_before: "j \<le> p \<Longrightarrow> p + length d \<le> length xs \<Longrightarrow> seg i j (blit p d xs) = seg i j xs"
  by (cases "i \<le> j") (simp_all add: seg_def blit_def take_drop min_def)

lemma seg_blit_after:
  "p + length d \<le> i \<Longrightarrow> p + length d \<le> length xs \<Longrightarrow> seg i j (blit p d xs) = seg i j xs"
  by (simp add: seg_def blit_def)

lemma seg_append_left: "j \<le> length xs \<Longrightarrow> seg i j (xs @ ys) = seg i j xs"
  by (simp add: seg_def) 

lemma seg_take: "j \<le> n \<Longrightarrow> seg i j (take n xs) = seg i j xs"
  by (cases "i \<le> j") (simp_all add: seg_def take_drop min_def)

lemma drop_seg: "drop n (seg i j xs) = seg (i + n) j xs"
  by (simp add: seg_def drop_take add.commute)

lemma take_seg: "i + n \<le> j \<Longrightarrow> take n (seg i j xs) = seg i (i + n) xs"
  by (simp add: seg_def min_def)

subsection \<open>Sorted lists as ordered sets\<close>

lemma sorted_split_filter:
  assumes "sorted xs" and "\<And>x y. x \<le> y \<Longrightarrow> P y \<Longrightarrow> P x"
  shows "takeWhile P xs = filter P xs" and "dropWhile P xs = filter (\<lambda>x. \<not> P x) xs"
proof -
  have none: "filter P ys = [] \<and> filter (\<lambda>x. \<not> P x) ys = ys" if "\<not> P y" "\<forall>z\<in>set ys. y \<le> z" for y ys
    using that assms(2) by (auto simp: filter_empty_conv filter_id_conv)
  have "takeWhile P xs = filter P xs \<and> dropWhile P xs = filter (\<lambda>x. \<not> P x) xs"
    using assms(1)
  proof (induction xs)
    case Nil
    then show ?case by simp
  next
    case (Cons x xs)
    then show ?case using none [of x xs] by (cases "P x") auto
  qed
  then show "takeWhile P xs = filter P xs" and "dropWhile P xs = filter (\<lambda>x. \<not> P x) xs" by auto
qed

subsection \<open>Error numbers of Linux\<close>

definition EPERM :: errno where "EPERM = 1"
definition EINTR :: errno where "EINTR = 4"
definition EBADF :: errno where "EBADF = 9"
definition EAGAIN :: errno where "EAGAIN = 11"
definition EWOULDBLOCK :: errno where "EWOULDBLOCK = EAGAIN"
definition ENOMEM :: errno where "ENOMEM = 12"
definition EFAULT :: errno where "EFAULT = 14"
definition EINVAL :: errno where "EINVAL = 22"
definition ENFILE :: errno where "ENFILE = 23"
definition EMFILE :: errno where "EMFILE = 24"
definition EPIPE :: errno where "EPIPE = 32"
definition EPROTO :: errno where "EPROTO = 71"
definition ENOTSOCK :: errno where "ENOTSOCK = 88"
definition EOPNOTSUPP :: errno where "EOPNOTSUPP = 95"
definition EAFNOSUPPORT :: errno where "EAFNOSUPPORT = 97"
definition ECONNABORTED :: errno where "ECONNABORTED = 103"
definition ENOBUFS :: errno where "ENOBUFS = 105"

lemmas errno_defs = EPERM_def EINTR_def EBADF_def EWOULDBLOCK_def EAGAIN_def ENOMEM_def EFAULT_def
  EINVAL_def ENFILE_def EMFILE_def EPIPE_def EPROTO_def ENOTSOCK_def EOPNOTSUPP_def
  EAFNOSUPPORT_def ECONNABORTED_def ENOBUFS_def

end
