(* ===== verification/Channel.thy ===== *)
theory Channel
  imports Prelude
begin

text \<open>
  \<open>include/hvnetpp/Channel.h\<close>, \<open>src/Channel.cpp\<close>, \<open>include/hvnetpp/Poller.h\<close> and \<open>src/Poller.cpp\<close>.

  The \<open>Channel\<close> objects live in a store \<open>chans\<close> from addresses to records, since the poller and the
  event loop hold plain pointers to them: every access goes through the store, and an access to a
  channel that was destroyed is a fault. The poller's state is part of the same record: its map
  from descriptors to channels, the length of its event array and, as a ghost, the trace of the
  \<open>epoll_ctl\<close> calls. Whether such a call succeeds is decided by the parameter \<open>ctl\<close>. Running a
  user's callback is the parameter \<open>run\<close>; \<open>lock\<close> and \<open>unlock\<close> take and drop a reference to the tied object.
  The record is extended by the components that own channels, so the operations are typed over
  its extensions.

  The lemmas show that under any sequence of these operations the calls of \<open>epoll_ctl\<close> are well
  formed (a descriptor is added only when it is not registered, modified or deleted only when it
  is) and that the interest list they build is exactly the set of events the channels ask for.
\<close>

subsection \<open>Event masks\<close>

type_synonym events = "32 word"

definition EPOLLIN :: events where "EPOLLIN = 0x001"
definition EPOLLPRI :: events where "EPOLLPRI = 0x002"
definition EPOLLOUT :: events where "EPOLLOUT = 0x004"
definition EPOLLERR :: events where "EPOLLERR = 0x008"
definition EPOLLHUP :: events where "EPOLLHUP = 0x010"
definition EPOLLRDHUP :: events where "EPOLLRDHUP = 0x2000"

definition kNoneEvent :: events where "kNoneEvent = 0"
definition kReadEvent :: events where "kReadEvent = EPOLLIN OR EPOLLPRI"
definition kWriteEvent :: events where "kWriteEvent = EPOLLOUT"

lemmas event_defs = EPOLLIN_def EPOLLPRI_def EPOLLOUT_def EPOLLERR_def EPOLLHUP_def EPOLLRDHUP_def
  kNoneEvent_def kReadEvent_def kWriteEvent_def

subsection \<open>State\<close>

datatype cb_kind = CloseCb | ErrorCb | ReadCb | WriteCb

record channel =
  ch_fd :: fd
  ch_events :: events
  ch_revents :: events
  ch_index :: int
  ch_eventHandling :: bool
  ch_addedToLoop :: bool
  ch_tie :: "ptr option"
  ch_callbacks :: "cb_kind \<Rightarrow> bool"

definition Channel_new :: "fd \<Rightarrow> channel" where
  "Channel_new f = \<lparr>ch_fd = f, ch_events = 0, ch_revents = 0, ch_index = -1, ch_eventHandling = False,
     ch_addedToLoop = False, ch_tie = None, ch_callbacks = (\<lambda>_. False)\<rparr>"

datatype ctl_op = CTL_ADD | CTL_MOD | CTL_DEL

record ctl_call =
  ctl_op :: ctl_op
  ctl_fd :: fd
  ctl_events :: events
  ctl_ptr :: ptr

definition kInitEventListSize :: nat where "kInitEventListSize = 16"

record reactor =
  chans :: "ptr \<rightharpoonup> channel"
  pl_channels :: "fd \<rightharpoonup> ptr"
  pl_size :: nat
  ctl_trace :: "ctl_call list"

definition Poller_new :: "int \<Rightarrow> reactor res" where
  "Poller_new epollfd = checkR Aborted (0 \<le> epollfd)
     (Inr \<lparr>chans = Map.empty, pl_channels = Map.empty, pl_size = kInitEventListSize, ctl_trace = []\<rparr>)"

subsection \<open>Poller\<close>

definition isNoneEvent :: "channel \<Rightarrow> bool" where "isNoneEvent c \<longleftrightarrow> ch_events c = kNoneEvent"
definition isWriting :: "channel \<Rightarrow> bool" where "isWriting c \<longleftrightarrow> ch_events c AND kWriteEvent \<noteq> 0"
definition isReading :: "channel \<Rightarrow> bool" where "isReading c \<longleftrightarrow> ch_events c AND kReadEvent \<noteq> 0"

definition upd_chan :: "ptr \<Rightarrow> (channel \<Rightarrow> channel) \<Rightarrow> 'r reactor_scheme \<Rightarrow> 'r reactor_scheme res" where
  "upd_chan p f w = derefR (chans w p) (\<lambda>c. Inr (w\<lparr>chans := (chans w)(p \<mapsto> f c)\<rparr>))"

definition Poller_update ::
  "(ctl_call \<Rightarrow> bool) \<Rightarrow> ctl_op \<Rightarrow> ptr \<Rightarrow> 'r reactor_scheme \<Rightarrow> 'r reactor_scheme res" where
  "Poller_update ctl op p w = derefR (chans w p) (\<lambda>c.
     let call = \<lparr>ctl_op = op, ctl_fd = ch_fd c, ctl_events = ch_events c, ctl_ptr = p\<rparr>;
         w' = w\<lparr>ctl_trace := ctl_trace w @ [call]\<rparr>
     in if \<not> ctl call \<and> op \<noteq> CTL_DEL then Inl Aborted else Inr w')"

definition Poller_updateChannel ::
  "(ctl_call \<Rightarrow> bool) \<Rightarrow> ptr \<Rightarrow> 'r reactor_scheme \<Rightarrow> 'r reactor_scheme res" where
  "Poller_updateChannel ctl p w = derefR (chans w p) (\<lambda>c.
     if ch_index c = -1 \<or> ch_index c = 2 then
       if isNoneEvent c then Inr w
       else bindR (Poller_update ctl CTL_ADD p w) (\<lambda>w1.
            bindR (upd_chan p (\<lambda>c. c\<lparr>ch_index := 1\<rparr>) w1) (\<lambda>w2.
              Inr (w2\<lparr>pl_channels := (pl_channels w2)(ch_fd c \<mapsto> p)\<rparr>)))
     else if isNoneEvent c then
       bindR (Poller_update ctl CTL_DEL p w) (upd_chan p (\<lambda>c. c\<lparr>ch_index := 2\<rparr>))
     else Poller_update ctl CTL_MOD p w)"

definition Poller_removeChannel ::
  "(ctl_call \<Rightarrow> bool) \<Rightarrow> ptr \<Rightarrow> 'r reactor_scheme \<Rightarrow> 'r reactor_scheme res" where
  "Poller_removeChannel ctl p w = derefR (chans w p) (\<lambda>c.
     assertR (pl_channels w (ch_fd c) \<noteq> None)
       (assertR (pl_channels w (ch_fd c) = Some p)
         (assertR (isNoneEvent c)
           (assertR (ch_index c = 1 \<or> ch_index c = 2)
             (let w1 = w\<lparr>pl_channels := (pl_channels w)(ch_fd c := None)\<rparr>
              in bindR (if ch_index c = 1 then Poller_update ctl CTL_DEL p w1 else Inr w1)
                   (upd_chan p (\<lambda>c. c\<lparr>ch_index := -1\<rparr>)))))))"

definition Poller_hasChannel :: "ptr \<Rightarrow> 'r reactor_scheme \<Rightarrow> bool res" where
  "Poller_hasChannel p w = derefR (chans w p) (\<lambda>c. Inr (pl_channels w (ch_fd c) = Some p))"

text \<open>
  \<open>poll\<close>: \<open>n\<close> is the result of \<open>epoll_wait\<close> and \<open>evs\<close> the events it stored, each with the pointer
  that was registered. The result lists the active channels.
\<close>

definition fillActive :: "ptr \<times> events \<Rightarrow> 'r reactor_scheme \<Rightarrow> 'r reactor_scheme res" where
  "fillActive = (\<lambda>(p, ev). upd_chan p (\<lambda>c. c\<lparr>ch_revents := ev\<rparr>))"

definition fillActiveChannels ::
  "(ptr \<times> events) list \<Rightarrow> 'r reactor_scheme \<Rightarrow> (ptr list \<times> 'r reactor_scheme) res" where
  "fillActiveChannels evs w = bindR (foldR fillActive evs w) (\<lambda>w'. Inr (map fst evs, w'))"

definition Poller_poll ::
  "int \<Rightarrow> (ptr \<times> events) list \<Rightarrow> 'r reactor_scheme \<Rightarrow> (ptr list \<times> 'r reactor_scheme) res" where
  "Poller_poll n evs w =
     (if 0 < n then
        bindR (fillActiveChannels (take (nat n) evs) w) (\<lambda>(act, w').
          Inr (act, if nat n = pl_size w' then w'\<lparr>pl_size := pl_size w' * 2\<rparr> else w'))
      else Inr ([], w))"

subsection \<open>Channel\<close>

text \<open>\<open>EventLoop::updateChannel\<close> and \<open>EventLoop::removeChannel\<close> check the thread (\<open>il\<close>) first.\<close>

definition loop_updateChannel ::
  "(ctl_call \<Rightarrow> bool) \<Rightarrow> bool \<Rightarrow> ptr \<Rightarrow> 'r reactor_scheme \<Rightarrow> 'r reactor_scheme res" where
  "loop_updateChannel ctl il p w = checkR Aborted il (Poller_updateChannel ctl p w)"

definition loop_removeChannel ::
  "(ctl_call \<Rightarrow> bool) \<Rightarrow> bool \<Rightarrow> ptr \<Rightarrow> 'r reactor_scheme \<Rightarrow> 'r reactor_scheme res" where
  "loop_removeChannel ctl il p w = checkR Aborted il (Poller_removeChannel ctl p w)"

definition loop_hasChannel :: "bool \<Rightarrow> ptr \<Rightarrow> 'r reactor_scheme \<Rightarrow> bool res" where
  "loop_hasChannel il p w = checkR Aborted il (Poller_hasChannel p w)"

definition Channel_update ::
  "(ctl_call \<Rightarrow> bool) \<Rightarrow> bool \<Rightarrow> ptr \<Rightarrow> 'r reactor_scheme \<Rightarrow> 'r reactor_scheme res" where
  "Channel_update ctl il p w = derefR (chans w p) (\<lambda>c.
     if \<not> ch_addedToLoop c \<and> isNoneEvent c then Inr w
     else bindR (upd_chan p (\<lambda>c. c\<lparr>ch_addedToLoop := True\<rparr>) w) (loop_updateChannel ctl il p))"

definition set_events ::
  "(events \<Rightarrow> events) \<Rightarrow> (ctl_call \<Rightarrow> bool) \<Rightarrow> bool \<Rightarrow> ptr \<Rightarrow> 'r reactor_scheme \<Rightarrow> 'r reactor_scheme res" where
  "set_events f ctl il p w =
     bindR (upd_chan p (\<lambda>c. c\<lparr>ch_events := f (ch_events c)\<rparr>) w) (Channel_update ctl il p)"

definition enableReading where "enableReading = set_events (\<lambda>e. e OR kReadEvent)"
definition disableReading where "disableReading = set_events (\<lambda>e. e AND NOT kReadEvent)"
definition enableWriting where "enableWriting = set_events (\<lambda>e. e OR kWriteEvent)"
definition disableWriting where "disableWriting = set_events (\<lambda>e. e AND NOT kWriteEvent)"
definition disableAll where "disableAll = set_events (\<lambda>_. kNoneEvent)"

definition Channel_remove ::
  "(ctl_call \<Rightarrow> bool) \<Rightarrow> bool \<Rightarrow> ptr \<Rightarrow> 'r reactor_scheme \<Rightarrow> 'r reactor_scheme res" where
  "Channel_remove ctl il p w = derefR (chans w p) (\<lambda>c.
     if \<not> ch_addedToLoop c then Inr w
     else bindR (upd_chan p (\<lambda>c. c\<lparr>ch_addedToLoop := False\<rparr>) w) (loop_removeChannel ctl il p))"

definition Channel_tie :: "ptr \<Rightarrow> ptr \<Rightarrow> 'r reactor_scheme \<Rightarrow> 'r reactor_scheme res" where
  "Channel_tie obj p = upd_chan p (\<lambda>c. c\<lparr>ch_tie := Some obj\<rparr>)"

definition setCallback :: "cb_kind \<Rightarrow> ptr \<Rightarrow> 'r reactor_scheme \<Rightarrow> 'r reactor_scheme res" where
  "setCallback k p = upd_chan p (\<lambda>c. c\<lparr>ch_callbacks := (ch_callbacks c)(k := True)\<rparr>)"

text \<open>Each of the four tests of \<open>handleEventWithGuard\<close> reads the channel again.\<close>

fun event_due :: "cb_kind \<Rightarrow> events \<Rightarrow> bool" where
  "event_due CloseCb r = (r AND EPOLLHUP \<noteq> 0 \<and> \<not> r AND EPOLLIN \<noteq> 0)"
| "event_due ErrorCb r = (r AND EPOLLERR \<noteq> 0)"
| "event_due ReadCb r = (r AND (EPOLLIN OR EPOLLPRI OR EPOLLRDHUP) \<noteq> 0)"
| "event_due WriteCb r = (r AND EPOLLOUT \<noteq> 0)"

definition handle_kind ::
  "(cb_kind \<Rightarrow> ptr \<Rightarrow> 'r reactor_scheme \<Rightarrow> 'r reactor_scheme res) \<Rightarrow> ptr \<Rightarrow> cb_kind \<Rightarrow> 'r reactor_scheme \<Rightarrow> 'r reactor_scheme res"
where
  "handle_kind run p k w = derefR (chans w p) (\<lambda>c.
     if event_due k (ch_revents c) \<and> ch_callbacks c k then run k p w else Inr w)"

definition handleEventWithGuard ::
  "(cb_kind \<Rightarrow> ptr \<Rightarrow> 'r reactor_scheme \<Rightarrow> 'r reactor_scheme res) \<Rightarrow> ptr \<Rightarrow> 'r reactor_scheme \<Rightarrow> 'r reactor_scheme res"
where
  "handleEventWithGuard run p w =
     bindR (upd_chan p (\<lambda>c. c\<lparr>ch_eventHandling := True\<rparr>) w) (\<lambda>w1.
       bindR (foldR (handle_kind run p) [CloseCb, ErrorCb, ReadCb, WriteCb] w1)
         (upd_chan p (\<lambda>c. c\<lparr>ch_eventHandling := False\<rparr>)))"

text \<open>
  \<open>tie_.lock()\<close> fails when the tied object is gone and otherwise adds a reference to it, which is dropped
  when \<open>handleEvent\<close> returns: \<open>lock\<close> and \<open>unlock\<close>.
\<close>

definition handleEvent ::
  "(ptr \<Rightarrow> 'r reactor_scheme \<Rightarrow> 'r reactor_scheme option) \<Rightarrow> (ptr \<Rightarrow> 'r reactor_scheme \<Rightarrow> 'r reactor_scheme res) \<Rightarrow>
   (cb_kind \<Rightarrow> ptr \<Rightarrow> 'r reactor_scheme \<Rightarrow> 'r reactor_scheme res) \<Rightarrow> ptr \<Rightarrow> 'r reactor_scheme \<Rightarrow> 'r reactor_scheme res"
where
  "handleEvent lock unlock run p w = derefR (chans w p) (\<lambda>c.
     case ch_tie c of None \<Rightarrow> handleEventWithGuard run p w
     | Some obj \<Rightarrow> (case lock obj w of None \<Rightarrow> Inr w
         | Some w1 \<Rightarrow> bindR (handleEventWithGuard run p w1) (unlock obj)))"

subsection \<open>The interest list\<close>

text \<open>The registrations that a trace of \<open>epoll_ctl\<close> calls leaves in the kernel, and its well-formedness.\<close>

type_synonym interest = "fd \<rightharpoonup> events \<times> ptr"

fun ctl_apply :: "ctl_call \<Rightarrow> interest \<Rightarrow> interest" where
  "ctl_apply call m = (case ctl_op call of
     CTL_DEL \<Rightarrow> m(ctl_fd call := None)
   | _ \<Rightarrow> m(ctl_fd call \<mapsto> (ctl_events call, ctl_ptr call)))"

definition ctl_valid :: "ctl_call \<Rightarrow> interest \<Rightarrow> bool" where
  "ctl_valid call m = (case ctl_op call of
     CTL_ADD \<Rightarrow> m (ctl_fd call) = None | _ \<Rightarrow> m (ctl_fd call) \<noteq> None)"

fun interest_of :: "ctl_call list \<Rightarrow> interest" where
  "interest_of calls = fold ctl_apply calls Map.empty"

fun ctl_wf :: "ctl_call list \<Rightarrow> interest \<Rightarrow> bool" where
  "ctl_wf [] m = True"
| "ctl_wf (c # cs) m = (ctl_valid c m \<and> ctl_wf cs (ctl_apply c m))"

lemma ctl_wf_append: "ctl_wf (xs @ ys) m \<longleftrightarrow> ctl_wf xs m \<and> ctl_wf ys (fold ctl_apply xs m)"
  by (induction xs arbitrary: m) auto

lemma interest_snoc [simp]: "interest_of (cs @ [c]) = ctl_apply c (interest_of cs)"
  by simp

declare interest_of.simps [simp del]
declare ctl_apply.simps [simp del]

text \<open>
  The invariant: a channel's index says whether it is registered, the registration carries the
  events the channel asks for, and neither the poller's map nor the kernel refers to a channel
  that does not exist.
\<close>

definition chan_ok :: "'r reactor_scheme \<Rightarrow> ptr \<Rightarrow> channel \<Rightarrow> bool" where
  "chan_ok w p c \<longleftrightarrow> ch_index c \<in> {-1, 1, 2} \<and> ch_addedToLoop c = (ch_index c \<noteq> -1)
     \<and> isNoneEvent c = (ch_index c \<noteq> 1)
     \<and> (ch_index c \<noteq> -1 \<longrightarrow> pl_channels w (ch_fd c) = Some p)
     \<and> (ch_index c = 1 \<longrightarrow> interest_of (ctl_trace w) (ch_fd c) = Some (ch_events c, p))"

definition reactor_inv :: "'r reactor_scheme \<Rightarrow> bool" where
  "reactor_inv w \<longleftrightarrow> ctl_wf (ctl_trace w) Map.empty
     \<and> (\<forall>p c. chans w p = Some c \<longrightarrow> chan_ok w p c)
     \<and> (\<forall>f p. pl_channels w f = Some p \<longrightarrow> (\<exists>c. chans w p = Some c \<and> ch_fd c = f \<and> ch_index c \<noteq> -1))
     \<and> (\<forall>f e p. interest_of (ctl_trace w) f = Some (e, p) \<longrightarrow>
          (\<exists>c. chans w p = Some c \<and> ch_fd c = f \<and> ch_index c = 1))"

text \<open>What a channel operation may change: one channel, and in it only the registration.\<close>

definition same_chan :: "channel \<Rightarrow> channel \<Rightarrow> bool" where
  "same_chan c c' \<longleftrightarrow> ch_fd c' = ch_fd c \<and> ch_revents c' = ch_revents c
     \<and> ch_eventHandling c' = ch_eventHandling c \<and> ch_tie c' = ch_tie c \<and> ch_callbacks c' = ch_callbacks c"

definition chan_effect :: "ptr \<Rightarrow> channel \<Rightarrow> 'r reactor_scheme \<Rightarrow> 'r reactor_scheme \<Rightarrow> channel \<Rightarrow> bool" where
  "chan_effect p c w w' c' \<longleftrightarrow> same_chan c c' \<and> chans w' = (chans w)(p \<mapsto> c')
     \<and> pl_size w' = pl_size w \<and> reactor.more w' = reactor.more w
     \<and> (\<forall>f. f \<noteq> ch_fd c \<longrightarrow> pl_channels w' f = pl_channels w f)"

text \<open>The faults a channel operation may end in: none when every addition and modification succeeds.\<close>

definition ctl_faults :: "(ctl_call \<Rightarrow> bool) \<Rightarrow> fault set" where
  "ctl_faults ctl = (if \<forall>call. ctl_op call \<noteq> CTL_DEL \<longrightarrow> ctl call then {} else {Aborted})"

definition fd_free :: "ptr \<Rightarrow> 'r reactor_scheme \<Rightarrow> bool" where
  "fd_free p w = (case chans w p of None \<Rightarrow> False
     | Some c \<Rightarrow> pl_channels w (ch_fd c) = None \<or> pl_channels w (ch_fd c) = Some p)"

lemma reactor_inv_new: "wpF {Aborted} (Poller_new e) reactor_inv"
  by (simp add: Poller_new_def reactor_inv_def interest_of.simps)

lemma reactor_invD:
  assumes "reactor_inv w"
  shows "ctl_wf (ctl_trace w) Map.empty"
    and "chans w p = Some c \<Longrightarrow> chan_ok w p c"
    and "pl_channels w f = Some p \<Longrightarrow> \<exists>c. chans w p = Some c \<and> ch_fd c = f \<and> ch_index c \<noteq> -1"
    and "interest_of (ctl_trace w) f = Some (e, p) \<Longrightarrow> \<exists>c. chans w p = Some c \<and> ch_fd c = f \<and> ch_index c = 1"
  using assms unfolding reactor_inv_def by blast+

lemma interest_unregistered:
  assumes "reactor_inv w" and "chans w p = Some c" and "ch_index c \<noteq> 1" and "fd_free p w"
  shows "interest_of (ctl_trace w) (ch_fd c) = None"
proof (rule ccontr)
  assume "interest_of (ctl_trace w) (ch_fd c) \<noteq> None"
  then obtain e p' c' where c': "chans w p' = Some c'" "ch_fd c' = ch_fd c" "ch_index c' = 1"
    using reactor_invD(4) [OF assms(1)] by (metis not_Some_eq prod.exhaust)
  then have "pl_channels w (ch_fd c) = Some p'"
    using reactor_invD(2) [OF assms(1)] by (metis chan_ok_def one_neq_neg_one)
  with assms(2,4) have "p' = p" by (simp add: fd_free_def)
  with c' assms(2,3) show False by simp
qed

text \<open>
  One lemma for all three kinds of registration change: the channel at \<open>p\<close> becomes \<open>c'\<close>, the kernel and
  the map are changed at its descriptor only.
\<close>

lemma reactor_inv_step:
  assumes inv: "reactor_inv w" and p: "chans w p = Some c" and free: "fd_free p w"
    and same: "ch_fd c' = ch_fd c"
    and w': "chans w' = (chans w)(p \<mapsto> c')"
      "\<And>f. f \<noteq> ch_fd c \<Longrightarrow> pl_channels w' f = pl_channels w f"
      "\<And>f. f \<noteq> ch_fd c \<Longrightarrow> interest_of (ctl_trace w') f = interest_of (ctl_trace w) f"
    and wf: "ctl_wf (ctl_trace w') Map.empty" and ok: "chan_ok w' p c'"
    and map: "pl_channels w' (ch_fd c) = (if ch_index c' = -1 then None else Some p)"
    and reg: "ch_index c' \<noteq> 1 \<Longrightarrow> interest_of (ctl_trace w') (ch_fd c) = None"
  shows "reactor_inv w'"
  unfolding reactor_inv_def
proof (intro conjI allI impI)
  fix p' c'' assume c'': "chans w' p' = Some c''"
  show "chan_ok w' p' c''"
  proof (cases "p' = p")
    case True
    then show ?thesis using c'' w'(1) ok by simp
  next
    case False
    then have old: "chans w p' = Some c''" using c'' w'(1) by simp
    have "ch_index c'' = -1 \<or> ch_fd c'' \<noteq> ch_fd c"
      using reactor_invD(2) [OF inv old] free p False by (auto simp: chan_ok_def fd_free_def)
    then show ?thesis
      using reactor_invD(2) [OF inv old] w'(2,3) by (auto simp: chan_ok_def)
  qed
next
  fix f p' assume f: "pl_channels w' f = Some p'"
  show "\<exists>c. chans w' p' = Some c \<and> ch_fd c = f \<and> ch_index c \<noteq> -1"
  proof (cases "f = ch_fd c")
    case True
    then show ?thesis using f map w'(1) same by (auto split: if_splits)
  next
    case False
    then show ?thesis
      using f w'(1,2) reactor_invD(3) [OF inv, of f p'] p by (cases "p' = p") auto
  qed
next
  fix f e p' assume f: "interest_of (ctl_trace w') f = Some (e, p')"
  show "\<exists>c. chans w' p' = Some c \<and> ch_fd c = f \<and> ch_index c = 1"
  proof (cases "f = ch_fd c")
    case True
    then have "ch_index c' = 1" using f reg by (cases "ch_index c' = 1") auto
    moreover from this have "p' = p" using ok f True same by (simp add: chan_ok_def)
    ultimately show ?thesis using True w'(1) same by simp
  next
    case False
    then show ?thesis
      using f w'(1,3) reactor_invD(4) [OF inv, of f e p'] p by (cases "p' = p") auto
  qed
qed (rule wf)

subsection \<open>The operations keep the invariant\<close>

lemma ctl_wf_snoc: "ctl_wf (cs @ [c]) Map.empty \<longleftrightarrow> ctl_wf cs Map.empty \<and> ctl_valid c (interest_of cs)"
  by (simp add: ctl_wf_append interest_of.simps)

lemma Poller_update_wp:
  assumes "chans w p = Some c"
    and "P (w\<lparr>ctl_trace := ctl_trace w @ [\<lparr>ctl_op = op, ctl_fd = ch_fd c, ctl_events = ch_events c, ctl_ptr = p\<rparr>]\<rparr>)"
  shows "wpF (ctl_faults ctl) (Poller_update ctl op p w) P"
  using assms by (auto simp: Poller_update_def Let_def ctl_faults_def)

text \<open>
  The channel \<open>c\<close> at \<open>p\<close> has been given the events \<open>e\<close> but the kernel does not know yet: \<open>reactor_inv\<close>
  holds for the state with the old events.
\<close>

lemma updateChannel_spec:
  assumes inv: "reactor_inv w" and p: "chans w p = Some c" and free: "fd_free p w"
    and c1: "c1 = c\<lparr>ch_events := e, ch_addedToLoop := True\<rparr>" and added: "ch_addedToLoop c \<or> e \<noteq> kNoneEvent"
  shows "wpF (ctl_faults ctl) (Poller_updateChannel ctl p (w\<lparr>chans := (chans w)(p \<mapsto> c1)\<rparr>))
    (\<lambda>w'. reactor_inv w' \<and> (\<exists>c'. chan_effect p c w w' c' \<and> ch_events c' = e \<and> ch_index c' \<noteq> -1))"
proof -
  note ok = reactor_invD(2) [OF inv p]
  note wf = reactor_invD(1) [OF inv]
  let ?w = "w\<lparr>chans := (chans w)(p \<mapsto> c1)\<rparr>"
  let ?call = "\<lambda>op. \<lparr>ctl_op = op, ctl_fd = ch_fd c, ctl_events = e, ctl_ptr = p\<rparr>"
  have p1: "chans ?w p = Some c1" by simp
  have reg: "interest_of (ctl_trace w) (ch_fd c) = Some (ch_events c, p)" if "ch_index c = 1"
    using ok that by (simp add: chan_ok_def)
  have unreg: "interest_of (ctl_trace w) (ch_fd c) = None" if "ch_index c \<noteq> 1"
    by (rule interest_unregistered [OF inv p that free])
  consider (keep) "ch_index c \<noteq> 1" "e = kNoneEvent" | (add) "ch_index c \<noteq> 1" "e \<noteq> kNoneEvent"
    | (del) "ch_index c = 1" "e = kNoneEvent" | (modify) "ch_index c = 1" "e \<noteq> kNoneEvent" by blast
  then show ?thesis
  proof cases
    case keep
    then have idx: "ch_index c = 2" using ok added by (auto simp: chan_ok_def)
    have "reactor_inv ?w"
      by (rule reactor_inv_step [OF inv p free, of c1])
        (use keep idx ok unreg wf in \<open>auto simp: c1 chan_ok_def isNoneEvent_def\<close>)
    then show ?thesis
      using keep idx p1
      by (auto simp: Poller_updateChannel_def c1 isNoneEvent_def chan_effect_def same_chan_def intro!: exI [of _ c1])
  next
    case add
    let ?c2 = "c1\<lparr>ch_index := 1\<rparr>"
    let ?w2 = "w\<lparr>ctl_trace := ctl_trace w @ [?call CTL_ADD], chans := (chans w)(p \<mapsto> ?c2),
                pl_channels := (pl_channels w)(ch_fd c \<mapsto> p)\<rparr>"
    have "reactor_inv ?w2"
      by (rule reactor_inv_step [OF inv p free, of ?c2])
        (use add ok unreg wf in \<open>auto simp: c1 chan_ok_def isNoneEvent_def ctl_apply.simps ctl_wf_snoc ctl_valid_def\<close>)
    moreover have "ch_index c1 = -1 \<or> ch_index c1 = 2" using add ok by (auto simp: c1 chan_ok_def)
    ultimately show ?thesis
      using add p1
      by (auto simp: Poller_updateChannel_def isNoneEvent_def c1 upd_chan_def chan_effect_def same_chan_def
          intro!: Poller_update_wp exI [of _ "c1\<lparr>ch_index := 1\<rparr>"])
  next
    case del
    let ?c2 = "c1\<lparr>ch_index := 2\<rparr>"
    let ?w2 = "w\<lparr>ctl_trace := ctl_trace w @ [?call CTL_DEL], chans := (chans w)(p \<mapsto> ?c2)\<rparr>"
    have "reactor_inv ?w2"
      by (rule reactor_inv_step [OF inv p free, of ?c2])
        (use del ok reg wf in \<open>auto simp: c1 chan_ok_def isNoneEvent_def ctl_apply.simps ctl_wf_snoc ctl_valid_def\<close>)
    then show ?thesis
      using del p1
      by (auto simp: Poller_updateChannel_def isNoneEvent_def c1 upd_chan_def chan_effect_def same_chan_def
          intro!: Poller_update_wp exI [of _ "c1\<lparr>ch_index := 2\<rparr>"])
  next
    case modify
    let ?w2 = "w\<lparr>chans := (chans w)(p \<mapsto> c1), ctl_trace := ctl_trace w @ [?call CTL_MOD]\<rparr>"
    have "reactor_inv ?w2"
      by (rule reactor_inv_step [OF inv p free, of c1])
        (use modify ok reg wf in \<open>auto simp: c1 chan_ok_def isNoneEvent_def ctl_apply.simps ctl_wf_snoc ctl_valid_def\<close>)
    then show ?thesis
      using modify p1
      by (auto simp: Poller_updateChannel_def isNoneEvent_def c1 chan_effect_def same_chan_def
          intro!: Poller_update_wp exI [of _ c1])
  qed
qed

lemma set_events_spec:
  assumes inv: "reactor_inv w" and p: "chans w p = Some c" and free: "fd_free p w"
  shows "wpF (ctl_faults ctl) (set_events f ctl True p w)
    (\<lambda>w'. reactor_inv w' \<and> (\<exists>c'. chan_effect p c w w' c' \<and> ch_events c' = f (ch_events c)
       \<and> (ch_index c \<noteq> -1 \<longrightarrow> ch_index c' \<noteq> -1)))"
proof (cases "\<not> ch_addedToLoop c \<and> f (ch_events c) = kNoneEvent")
  case True
  then have e: "ch_events c = kNoneEvent"
    using reactor_invD(2) [OF inv p] by (auto simp: chan_ok_def isNoneEvent_def)
  then have "upd_chan p (\<lambda>c. c\<lparr>ch_events := f (ch_events c)\<rparr>) w = Inr w"
    using True p by (simp add: upd_chan_def fun_upd_idem)
  with True e p inv show ?thesis
    by (auto simp: set_events_def Channel_update_def isNoneEvent_def chan_effect_def same_chan_def fun_upd_idem
        intro!: exI [of _ c])
next
  case False
  from updateChannel_spec [OF inv p free refl, of "f (ch_events c)" ctl] False p show ?thesis
    by (auto simp: set_events_def upd_chan_def Channel_update_def isNoneEvent_def loop_updateChannel_def
        elim!: wpF_mono)
qed

lemmas channel_op_defs = enableReading_def disableReading_def enableWriting_def disableWriting_def disableAll_def

lemmas enableReading_spec = set_events_spec [where f = "\<lambda>e. e OR kReadEvent", folded enableReading_def]
lemmas disableReading_spec = set_events_spec [where f = "\<lambda>e. e AND NOT kReadEvent", folded disableReading_def]
lemmas enableWriting_spec = set_events_spec [where f = "\<lambda>e. e OR kWriteEvent", folded enableWriting_def]
lemmas disableWriting_spec = set_events_spec [where f = "\<lambda>e. e AND NOT kWriteEvent", folded disableWriting_def]
lemmas disableAll_spec = set_events_spec [where f = "\<lambda>_. kNoneEvent", folded disableAll_def]

lemma remove_spec:
  assumes inv: "reactor_inv w" and p: "chans w p = Some c" and none: "ch_events c = kNoneEvent"
  shows "wpR (Channel_remove ctl True p w)
    (\<lambda>w'. reactor_inv w' \<and> (\<exists>c'. chan_effect p c w w' c' \<and> ch_events c' = kNoneEvent \<and> ch_index c' = -1))"
proof (cases "ch_addedToLoop c")
  case False
  then have "ch_index c = -1" using reactor_invD(2) [OF inv p] by (auto simp: chan_ok_def)
  with False p inv none show ?thesis
    by (auto simp: Channel_remove_def chan_effect_def same_chan_def fun_upd_idem)
next
  case True
  note ok = reactor_invD(2) [OF inv p]
  have idx: "ch_index c = 2" using ok True none by (auto simp: chan_ok_def isNoneEvent_def)
  have pl: "pl_channels w (ch_fd c) = Some p" using ok idx by (simp add: chan_ok_def)
  have free: "fd_free p w" using p pl by (simp add: fd_free_def)
  let ?c' = "c\<lparr>ch_addedToLoop := False, ch_index := -1\<rparr>"
  let ?w' = "w\<lparr>pl_channels := (pl_channels w)(ch_fd c := None), chans := (chans w)(p \<mapsto> ?c')\<rparr>"
  have "reactor_inv ?w'"
    by (rule reactor_inv_step [OF inv p free, of ?c'])
      (use idx none interest_unregistered [OF inv p _ free] reactor_invD(1) [OF inv] in
        \<open>auto simp: chan_ok_def isNoneEvent_def\<close>)
  then show ?thesis
    using True p idx pl none
    by (auto simp: Channel_remove_def upd_chan_def loop_removeChannel_def Poller_removeChannel_def Let_def
        isNoneEvent_def chan_effect_def same_chan_def intro!: exI [of _ ?c'])
qed

lemma reactor_inv_frame:
  assumes "reactor_inv w" and "ctl_trace w' = ctl_trace w" and "pl_channels w' = pl_channels w"
    and "\<And>p. map_option (\<lambda>c. (ch_fd c, ch_events c, ch_index c, ch_addedToLoop c)) (chans w' p)
             = map_option (\<lambda>c. (ch_fd c, ch_events c, ch_index c, ch_addedToLoop c)) (chans w p)"
  shows "reactor_inv w'"
proof -
  have backward: "\<exists>c. chans w p = Some c \<and> ch_fd c = ch_fd c' \<and> ch_events c = ch_events c'
      \<and> ch_index c = ch_index c' \<and> ch_addedToLoop c = ch_addedToLoop c'" if "chans w' p = Some c'" for p c'
    using assms(4) [of p] that by (cases "chans w p") auto
  have forth: "\<exists>c'. chans w' p = Some c' \<and> ch_fd c' = ch_fd c \<and> ch_index c' = ch_index c" if "chans w p = Some c" for p c
    using assms(4) [of p] that by (cases "chans w' p") auto
  show ?thesis
    unfolding reactor_inv_def assms(2,3)
  proof (intro conjI allI impI)
    show "chan_ok w' p c'" if "chans w' p = Some c'" for p c'
      using backward [OF that] reactor_invD(2) [OF assms(1), of p] assms(2,3)
      by (auto simp: chan_ok_def isNoneEvent_def)
    show "\<exists>c. chans w' p = Some c \<and> ch_fd c = f \<and> ch_index c \<noteq> -1" if "pl_channels w f = Some p" for f p
      using reactor_invD(3) [OF assms(1) that] forth by metis
    show "\<exists>c. chans w' p = Some c \<and> ch_fd c = f \<and> ch_index c = 1"
      if "interest_of (ctl_trace w) f = Some (e, p)" for f e p
      using reactor_invD(4) [OF assms(1) that] forth by metis
  qed (rule reactor_invD(1) [OF assms(1)])
qed

lemma fillActive_inv:
  assumes "reactor_inv w" and "chans w p \<noteq> None"
  shows "wpR (fillActive (p, ev) w) (\<lambda>w'. reactor_inv w' \<and> dom (chans w') = dom (chans w))"
  using assms by (auto simp: fillActive_def upd_chan_def intro!: reactor_inv_frame [OF assms(1)])

lemma Poller_poll_spec:
  assumes "reactor_inv w" and "\<forall>x \<in> set evs. chans w (fst x) \<noteq> None"
  shows "wpR (Poller_poll n evs w) (\<lambda>(act, w'). reactor_inv w' \<and> (\<forall>p \<in> set act. chans w' p \<noteq> None))"
proof -
  have "wpR (foldR fillActive es w) (\<lambda>w'. reactor_inv w' \<and> dom (chans w') = dom (chans w))"
    if "set es \<subseteq> set evs" for es
  proof (rule wpF_foldR_inv)
    show "reactor_inv w \<and> dom (chans w) = dom (chans w)" using assms(1) by simp
    fix x w1 assume "x \<in> set es" and w1: "reactor_inv w1 \<and> dom (chans w1) = dom (chans w)"
    with assms(2) that have "chans w1 (fst x) \<noteq> None" by (metis domIff subsetD)
    with fillActive_inv [of w1 "fst x" "snd x"] w1
    show "wpR (fillActive x w1) (\<lambda>w'. reactor_inv w' \<and> dom (chans w') = dom (chans w))" by simp
  qed
  from this [of "take (nat n) evs"] have *: "wpR (foldR fillActive (take (nat n) evs) w)
      (\<lambda>w'. reactor_inv w' \<and> dom (chans w') = dom (chans w))" by (simp add: set_take_subset)
  have act: "fst ` set (take (nat n) evs) \<subseteq> dom (chans w)"
    using assms(2) set_take_subset [of "nat n" evs] by blast
  have run: "wpR (foldR fillActive (take (nat n) evs) w)
      (\<lambda>w'. reactor_inv w' \<and> (\<forall>x \<in> set (take (nat n) evs). chans w' (fst x) \<noteq> None))"
    by (rule wpF_mono [OF *]) (use act in blast)
  have "reactor_inv (w'\<lparr>pl_size := k\<rparr>)" if "reactor_inv w'" for w' :: "'a reactor_scheme" and k
    by (rule reactor_inv_frame [OF that]) simp_all
  with assms(1) run show ?thesis
    by (auto simp: Poller_poll_def fillActiveChannels_def elim!: wpF_mono)
qed

subsection \<open>Sequences of operations\<close>

datatype chan_op =
    NewChannel ptr fd | DeleteChannel ptr
  | EnableReading ptr | DisableReading ptr | EnableWriting ptr | DisableWriting ptr | DisableAll ptr
  | Remove ptr | Poll int "(ptr \<times> events) list"

fun chan_step :: "(ctl_call \<Rightarrow> bool) \<Rightarrow> chan_op \<Rightarrow> reactor \<Rightarrow> reactor res" where
  "chan_step ctl (NewChannel p f) w = Inr (w\<lparr>chans := (chans w)(p \<mapsto> Channel_new f)\<rparr>)"
| "chan_step ctl (DeleteChannel p) w = Inr (w\<lparr>chans := (chans w)(p := None)\<rparr>)"
| "chan_step ctl (EnableReading p) w = enableReading ctl True p w"
| "chan_step ctl (DisableReading p) w = disableReading ctl True p w"
| "chan_step ctl (EnableWriting p) w = enableWriting ctl True p w"
| "chan_step ctl (DisableWriting p) w = disableWriting ctl True p w"
| "chan_step ctl (DisableAll p) w = disableAll ctl True p w"
| "chan_step ctl (Remove p) w = Channel_remove ctl True p w"
| "chan_step ctl (Poll n evs) w = bindR (Poller_poll n evs w) (\<lambda>(_, w'). Inr w')"

text \<open>
  The obligations of the classes that own channels: a new object is at an unused address, an open
  descriptor belongs to one registered channel, a channel is disabled before it is removed and
  removed before it is destroyed; and the kernel returns registered pointers only.
\<close>

fun chan_op_ok :: "chan_op \<Rightarrow> reactor \<Rightarrow> bool" where
  "chan_op_ok (NewChannel p f) w = (chans w p = None)"
| "chan_op_ok (DeleteChannel p) w = (case chans w p of None \<Rightarrow> False | Some c \<Rightarrow> ch_index c = -1)"
| "chan_op_ok (Remove p) w = (case chans w p of None \<Rightarrow> False | Some c \<Rightarrow> isNoneEvent c)"
| "chan_op_ok (Poll n evs) w = (\<forall>x \<in> set evs. chans w (fst x) \<noteq> None)"
| "chan_op_ok (EnableReading p) w = fd_free p w"
| "chan_op_ok (DisableReading p) w = fd_free p w"
| "chan_op_ok (EnableWriting p) w = fd_free p w"
| "chan_op_ok (DisableWriting p) w = fd_free p w"
| "chan_op_ok (DisableAll p) w = fd_free p w"

fun chan_run_ok :: "(ctl_call \<Rightarrow> bool) \<Rightarrow> chan_op list \<Rightarrow> reactor \<Rightarrow> bool" where
  "chan_run_ok ctl [] w = True"
| "chan_run_ok ctl (op # ops) w = (chan_op_ok op w \<and>
     (case chan_step ctl op w of Inl _ \<Rightarrow> True | Inr w' \<Rightarrow> chan_run_ok ctl ops w'))"

lemma reactor_inv_NewChannel:
  assumes inv: "reactor_inv w" and new: "chans w p = None"
  shows "reactor_inv (w\<lparr>chans := (chans w)(p \<mapsto> Channel_new f)\<rparr>)" (is "reactor_inv ?w")
  unfolding reactor_inv_def
proof (intro conjI allI impI)
  show "chan_ok ?w p' c" if "chans ?w p' = Some c" for p' c
    using that reactor_invD(2) [OF inv, of p' c]
    by (cases "p' = p") (auto simp: chan_ok_def Channel_new_def isNoneEvent_def kNoneEvent_def)
  show "\<exists>c. chans ?w p' = Some c \<and> ch_fd c = g \<and> ch_index c \<noteq> -1" if "pl_channels ?w g = Some p'" for g p'
    using that reactor_invD(3) [OF inv, of g p'] new by (cases "p' = p") auto
  show "\<exists>c. chans ?w p' = Some c \<and> ch_fd c = g \<and> ch_index c = 1"
    if "interest_of (ctl_trace ?w) g = Some (e, p')" for g e p'
    using that reactor_invD(4) [OF inv, of g e p'] new by (cases "p' = p") auto
qed (use reactor_invD(1) [OF inv] in simp)

lemma reactor_inv_DeleteChannel:
  assumes inv: "reactor_inv w" and p: "chans w p = Some c" "ch_index c = -1"
  shows "reactor_inv (w\<lparr>chans := (chans w)(p := None)\<rparr>)"
proof -
  have "pl_channels w f \<noteq> Some p" for f using reactor_invD(3) [OF inv, of f p] p by auto
  moreover have "interest_of (ctl_trace w) f \<noteq> Some (e, p)" for f e
    using reactor_invD(4) [OF inv, of f e p] p by auto
  ultimately show ?thesis
    using reactor_invD [OF inv] unfolding reactor_inv_def chan_ok_def
    by (auto split: if_splits)
qed

lemma chan_step_spec:
  assumes "reactor_inv w" and "chan_op_ok op w"
  shows "wpF (ctl_faults ctl) (chan_step ctl op w) reactor_inv"
proof -
  have set: "wpF (ctl_faults ctl) (set_events f ctl True p w) reactor_inv" if free: "fd_free p w" for p f
  proof -
    obtain c where "chans w p = Some c" using free by (auto simp: fd_free_def split: option.splits)
    from set_events_spec [OF assms(1) this free, of ctl f] show ?thesis by (rule wpF_mono) simp
  qed
  show ?thesis
  proof (cases op)
    case (Remove p)
    then obtain c where "chans w p = Some c" "ch_events c = kNoneEvent"
      using assms(2) by (auto simp: isNoneEvent_def split: option.splits)
    from wpF_faults [OF remove_spec [OF assms(1) this], of "ctl_faults ctl" ctl] Remove show ?thesis
      by (auto elim: wpF_mono)
  next
    case (Poll n evs)
    then show ?thesis
      using wpF_faults [OF Poller_poll_spec [OF assms(1)], of evs "ctl_faults ctl" n] assms(2)
      by (auto elim!: wpF_mono)
  qed (use assms set reactor_inv_NewChannel reactor_inv_DeleteChannel in
      \<open>auto simp: channel_op_defs split: option.splits\<close>)
qed

lemma chan_run_spec:
  assumes "reactor_inv w" and "chan_run_ok ctl ops w"
  shows "wpF (ctl_faults ctl) (foldR (chan_step ctl) ops w) reactor_inv"
  using assms
proof (induction ops arbitrary: w)
  case Nil
  then show ?case by simp
next
  case (Cons op ops)
  then have "wpF (ctl_faults ctl) (chan_step ctl op w) reactor_inv" by (auto intro: chan_step_spec)
  with Cons show ?case by (auto elim: wpF_mono_eq)
qed

subsection \<open>Properties\<close>

text \<open>Claim C13: as long as the owners of channels keep their obligations, no operation on channels fails an
  assertion or touches a destroyed channel, every call of \<open>epoll_ctl\<close> is well formed, and after each
  of them the interest list of the kernel is exactly what the channels ask for: the descriptor of a
  channel is registered, with the channel's own events and address, if and only if the channel has
  events enabled.\<close>

theorem poller_mirrors_channels:
  assumes "\<forall>call. ctl_op call \<noteq> CTL_DEL \<longrightarrow> ctl call" and "Poller_new e = Inr w0" and "chan_run_ok ctl ops w0"
  shows "wpR (foldR (chan_step ctl) ops w0) (\<lambda>w. ctl_wf (ctl_trace w) Map.empty
    \<and> (\<forall>p c. chans w p = Some c \<and> ch_events c \<noteq> kNoneEvent \<longrightarrow>
         interest_of (ctl_trace w) (ch_fd c) = Some (ch_events c, p))
    \<and> (\<forall>f ev p. interest_of (ctl_trace w) f = Some (ev, p) \<longrightarrow>
         (\<exists>c. chans w p = Some c \<and> ch_fd c = f \<and> ch_events c = ev \<and> ev \<noteq> kNoneEvent)))"
proof -
  have "ctl_faults ctl = {}" using assms(1) by (simp add: ctl_faults_def)
  moreover have "reactor_inv w0" using reactor_inv_new [of e] assms(2) by simp
  ultimately have "wpR (foldR (chan_step ctl) ops w0) reactor_inv"
    using chan_run_spec [OF _ assms(3)] by simp
  then show ?thesis
  proof (rule wpF_mono)
    fix w :: reactor assume inv: "reactor_inv w"
    have "\<exists>c. chans w p = Some c \<and> ch_fd c = f \<and> ch_events c = ev \<and> ev \<noteq> kNoneEvent"
      if i: "interest_of (ctl_trace w) f = Some (ev, p)" for f ev p
    proof -
      obtain c where c: "chans w p = Some c" "ch_fd c = f" "ch_index c = 1"
        using reactor_invD(4) [OF inv i] by blast
      with reactor_invD(2) [OF inv c(1)] i show ?thesis by (auto simp: chan_ok_def isNoneEvent_def)
    qed
    moreover have "interest_of (ctl_trace w) (ch_fd c) = Some (ch_events c, p)"
      if "chans w p = Some c" "ch_events c \<noteq> kNoneEvent" for p c
      using reactor_invD(2) [OF inv that(1)] that(2) by (auto simp: chan_ok_def isNoneEvent_def)
    ultimately show "ctl_wf (ctl_trace w) Map.empty
        \<and> (\<forall>p c. chans w p = Some c \<and> ch_events c \<noteq> kNoneEvent \<longrightarrow>
             interest_of (ctl_trace w) (ch_fd c) = Some (ch_events c, p))
        \<and> (\<forall>f ev p. interest_of (ctl_trace w) f = Some (ev, p) \<longrightarrow>
             (\<exists>c. chans w p = Some c \<and> ch_fd c = f \<and> ch_events c = ev \<and> ev \<noteq> kNoneEvent))"
      using reactor_invD(1) [OF inv] by blast
  qed
qed

text \<open>A channel is registered, switched off, destroyed, and its descriptor used again by a second channel.\<close>

definition example_ops :: "chan_op list" where
  "example_ops = [NewChannel 100 5, EnableReading 100, EnableWriting 100, Poll 1 [(100, EPOLLIN)],
     DisableWriting 100, DisableAll 100, Remove 100, DeleteChannel 100, NewChannel 200 5, EnableReading 200]"

theorem poller_mirrors_channels_witness:
  "\<exists>w. foldR (chan_step (\<lambda>_. True)) example_ops
        \<lparr>chans = Map.empty, pl_channels = Map.empty, pl_size = 16, ctl_trace = []\<rparr> = Inr w
     \<and> map ctl_op (ctl_trace w) = [CTL_ADD, CTL_MOD, CTL_MOD, CTL_DEL, CTL_ADD]
     \<and> ctl_wf (ctl_trace w) Map.empty"
proof -
  let ?w0 = "\<lparr>chans = Map.empty, pl_channels = Map.empty, pl_size = 16, ctl_trace = []\<rparr>"
  have new: "Poller_new 3 = Inr ?w0" by (simp add: Poller_new_def kInitEventListSize_def)
  have ok: "chan_run_ok (\<lambda>_. True) example_ops ?w0" by code_simp
  have "(case foldR (chan_step (\<lambda>_. True)) example_ops ?w0 of Inl _ \<Rightarrow> False
     | Inr w \<Rightarrow> map ctl_op (ctl_trace w) = [CTL_ADD, CTL_MOD, CTL_MOD, CTL_DEL, CTL_ADD])" by code_simp
  then show ?thesis
    using poller_mirrors_channels [OF _ new ok] by (auto split: sum.splits)
qed

definition run_due ::
  "(cb_kind \<Rightarrow> ptr \<Rightarrow> 'r reactor_scheme \<Rightarrow> 'r reactor_scheme res) \<Rightarrow> ptr \<Rightarrow> channel \<Rightarrow> 'r reactor_scheme \<Rightarrow> 'r reactor_scheme res"
where
  "run_due run p c w =
     bindR (upd_chan p (\<lambda>c. c\<lparr>ch_eventHandling := True\<rparr>) w) (\<lambda>w1.
       bindR (foldR (\<lambda>k. run k p)
           (filter (\<lambda>k. event_due k (ch_revents c) \<and> ch_callbacks c k) [CloseCb, ErrorCb, ReadCb, WriteCb]) w1)
         (upd_chan p (\<lambda>c. c\<lparr>ch_eventHandling := False\<rparr>)))"

lemma handleEventWithGuard_due:
  assumes "chans w p = Some c"
    and "\<And>k w1. (\<exists>c1. chans w1 p = Some c1 \<and> ch_revents c1 = ch_revents c \<and> ch_callbacks c1 = ch_callbacks c) \<Longrightarrow>
       wpR (run k p w1) (\<lambda>w2. \<exists>c2. chans w2 p = Some c2 \<and> ch_revents c2 = ch_revents c \<and> ch_callbacks c2 = ch_callbacks c)"
  shows "handleEventWithGuard run p w = run_due run p c w"
proof -
  let ?I = "\<lambda>w1. \<exists>c1. chans w1 p = Some c1 \<and> ch_revents c1 = ch_revents c \<and> ch_callbacks c1 = ch_callbacks c"
  have step: "foldR (handle_kind run p) ks w1
      = foldR (\<lambda>k. run k p) (filter (\<lambda>k. event_due k (ch_revents c) \<and> ch_callbacks c k) ks) w1"
    if "?I w1" for ks w1
    using that
  proof (induction ks arbitrary: w1)
    case Nil
    then show ?case by simp
  next
    case (Cons k ks)
    from Cons.prems obtain c1 where c1: "chans w1 p = Some c1" "ch_revents c1 = ch_revents c" "ch_callbacks c1 = ch_callbacks c"
      by blast
    show ?case
    proof (cases "event_due k (ch_revents c) \<and> ch_callbacks c k")
      case True
      obtain w2 where w2: "run k p w1 = Inr w2" "?I w2"
        using assms(2) [OF Cons.prems, of k] by (auto simp: wpR_iff_Inr)
      with True c1 Cons.IH [OF w2(2)] show ?thesis by (simp add: handle_kind_def)
    next
      case False
      with c1 Cons.IH [OF Cons.prems] show ?thesis by (auto simp: handle_kind_def)
    qed
  qed
  let ?w1 = "w\<lparr>chans := (chans w)(p \<mapsto> c\<lparr>ch_eventHandling := True\<rparr>)\<rparr>"
  have u: "upd_chan p (\<lambda>c. c\<lparr>ch_eventHandling := True\<rparr>) w = Inr ?w1"
    using assms(1) by (simp add: upd_chan_def)
  have "?I ?w1" by simp
  from step [OF this] show ?thesis by (simp only: handleEventWithGuard_def run_due_def u bindR_simps)
qed


definition example_channel :: channel where
  "example_channel = (Channel_new 5)\<lparr>ch_revents := EPOLLIN OR EPOLLOUT, ch_callbacks := (\<lambda>_. True), ch_tie := Some 7\<rparr>"


end
