(* ===== verification/Ring.thy ===== *)
theory Ring
  imports Prelude
begin

text \<open>
  \<open>include/hvnetpp/CircularBuffer.h\<close> and \<open>src/CircularBuffer.cpp\<close>: a ring of \<open>2 ^ order\<close> bytes whose
  head and tail are free-running 32-bit counters, reduced to an offset by masking, and whose memory
  is mapped twice in a row so that a block that crosses the end is contiguous.

  The constructor's system calls are parameters: \<open>mirror_os\<close> gives their results. The trace of the
  calls made is the effect of \<open>createBufferMirror\<close>; replaying it (\<open>mirror_fds\<close>, \<open>mirror_maps\<close>)
  says which descriptors are open and which pages are mapped afterwards. Addresses returned to the
  caller are offsets from \<open>data_\<close>.
\<close>

subsection \<open>State and accessors\<close>

record ring =
  ring_size :: "64 word"
  ring_data :: "nat option"
  ring_head :: "32 word"
  ring_tail :: "32 word"

definition ring_isValid :: "ring \<Rightarrow> bool" where
  "ring_isValid r \<longleftrightarrow> ring_data r \<noteq> None"

definition getPointer :: "ring \<Rightarrow> 32 word \<Rightarrow> nat option" where
  "getPointer r off = (case ring_data r of None \<Rightarrow> None
     | Some _ \<Rightarrow> Some (unat ((ucast off :: 64 word) AND (ring_size r - 1))))"

definition headPtr :: "ring \<Rightarrow> nat option" where
  "headPtr r = (case ring_data r of None \<Rightarrow> None
     | Some _ \<Rightarrow> Some (unat ((ucast (ring_head r) :: 64 word) AND (ring_size r - 1))))"

definition tailPtr :: "ring \<Rightarrow> nat option" where
  "tailPtr r = (case ring_data r of None \<Rightarrow> None
     | Some _ \<Rightarrow> Some (unat ((ucast (ring_tail r) :: 64 word) AND (ring_size r - 1))))"

subsection \<open>The double mapping\<close>

datatype mirror_call =
    Mkstemp int                   \<comment> \<open>the descriptor returned\<close>
  | Unlink
  | Ftruncate nat
  | MmapReserve "nat option" nat  \<comment> \<open>address (\<open>None\<close>: \<open>MAP_FAILED\<close>), length\<close>
  | MmapFixed nat nat int         \<comment> \<open>address, length, descriptor; the mapping was made\<close>
  | MmapFixedFailed
  | Munmap nat nat
  | Close int

record mirror_os =
  os_mkstemp :: int
  os_unlink :: int
  os_ftruncate :: int
  os_reserve :: "nat option"
  os_map1 :: bool
  os_map2 :: bool

definition createBufferMirror :: "mirror_os \<Rightarrow> nat \<Rightarrow> nat option \<times> mirror_call list" where
  "createBufferMirror os sz =
     (let fd = os_mkstemp os in
      if fd < 0 then (None, [Mkstemp fd])
      else if os_unlink os \<noteq> 0 then (None, [Mkstemp fd, Unlink, Close fd])
      else if os_ftruncate os \<noteq> 0 then (None, [Mkstemp fd, Unlink, Ftruncate sz, Close fd])
      else (case os_reserve os of
          None \<Rightarrow> (None, [Mkstemp fd, Unlink, Ftruncate sz, MmapReserve None (2 * sz), Close fd])
        | Some data \<Rightarrow>
            let pre = [Mkstemp fd, Unlink, Ftruncate sz, MmapReserve (Some data) (2 * sz)] in
            if \<not> os_map1 os then (None, pre @ [MmapFixedFailed, Munmap data (2 * sz), Close fd])
            else if \<not> os_map2 os
            then (None, pre @ [MmapFixed data sz fd, MmapFixedFailed, Munmap data (2 * sz), Close fd])
            else (Some data, pre @ [MmapFixed data sz fd, MmapFixed (data + sz) sz fd, Close fd])))"

definition CircularBuffer_new :: "mirror_os \<Rightarrow> nat \<Rightarrow> ring \<times> mirror_call list" where
  "CircularBuffer_new os order =
     (let sz = push_bit order (1 :: 64 word); (data, calls) = createBufferMirror os (unat sz)
      in (\<lparr>ring_size = sz, ring_data = data, ring_head = 0, ring_tail = 0\<rparr>, calls))"

definition CircularBuffer_destroy :: "ring \<Rightarrow> mirror_call list" where
  "CircularBuffer_destroy r = (case ring_data r of None \<Rightarrow> []
     | Some data \<Rightarrow> [Munmap data (2 * unat (ring_size r))])"

text \<open>
  The effect of the calls on the process: the open descriptors, and for every mapped address what
  it shows (\<open>None\<close>: an inaccessible page, \<open>Some (fd, o)\<close>: byte \<open>o\<close> of the file).
\<close>

fun mirror_fds :: "mirror_call list \<Rightarrow> int set \<Rightarrow> int set" where
  "mirror_fds [] fds = fds"
| "mirror_fds (Mkstemp fd # cs) fds = mirror_fds cs (if fd < 0 then fds else insert fd fds)"
| "mirror_fds (Close fd # cs) fds = mirror_fds cs (fds - {fd})"
| "mirror_fds (_ # cs) fds = mirror_fds cs fds"

type_synonym address_space = "nat \<Rightarrow> (int \<times> nat) option option"

fun mirror_maps :: "mirror_call list \<Rightarrow> address_space \<Rightarrow> address_space" where
  "mirror_maps [] m = m"
| "mirror_maps (MmapReserve (Some a) n # cs) m =
     mirror_maps cs (\<lambda>x. if a \<le> x \<and> x < a + n then Some None else m x)"
| "mirror_maps (MmapFixed a n fd # cs) m =
     mirror_maps cs (\<lambda>x. if a \<le> x \<and> x < a + n then Some (Some (fd, x - a)) else m x)"
| "mirror_maps (Munmap a n # cs) m =
     mirror_maps cs (\<lambda>x. if a \<le> x \<and> x < a + n then None else m x)"
| "mirror_maps (_ # cs) m = mirror_maps cs m"

text \<open>\<open>mmap\<close> returns a region that was not in use.\<close>

definition reserve_fresh :: "mirror_os \<Rightarrow> nat \<Rightarrow> address_space \<Rightarrow> bool" where
  "reserve_fresh os sz m = (case os_reserve os of None \<Rightarrow> True
     | Some a \<Rightarrow> (\<forall>i < 2 * sz. m (a + i) = None))"

lemma fresh_region:
  fixes a x n :: nat
  shows "(\<forall>i < n. m (a + i) = None) \<Longrightarrow> a \<le> x \<Longrightarrow> x < a + n \<Longrightarrow> m x = None"
  by (drule spec [of _ "x - a"]) auto

subsection \<open>Offsets\<close>

text \<open>For 64-byte blocks the masked offset of block number \<open>k\<close> is its place modulo the ring.\<close>

definition ring_order_ok :: "nat \<Rightarrow> bool" where
  "ring_order_ok order \<longleftrightarrow> 6 \<le> order \<and> order \<le> 31"

definition ring_slots :: "nat \<Rightarrow> nat" where
  "ring_slots order = 2 ^ (order - 6)"

lemma ring_slots_pow: "ring_order_ok order \<Longrightarrow> 64 * ring_slots order = 2 ^ order"
proof -
  assume "ring_order_ok order"
  then have "2 ^ 6 * (2 :: nat) ^ (order - 6) = 2 ^ order"
    by (simp only: power_add [symmetric]) (simp add: ring_order_ok_def)
  then show ?thesis by (simp add: ring_slots_def)
qed

lemma ring_slots_pos: "0 < ring_slots order"
  by (simp add: ring_slots_def)

lemma ring_slots_bound: "ring_order_ok order \<Longrightarrow> ring_slots order \<le> 2 ^ 25"
  unfolding ring_slots_def ring_order_ok_def by (rule power_increasing) auto

lemma block_offset:
  assumes "ring_order_ok order"
  shows "unat ((ucast (of_nat (64 * k) :: 32 word) :: 64 word) AND (push_bit order 1 - 1))
    = 64 * (k mod ring_slots order)"
proof -
  define w :: "32 word" where "w = of_nat (64 * k)"
  have "push_bit order 1 - 1 = (mask order :: 64 word)"
    by (simp add: mask_eq_exp_minus_1 push_bit_eq_mult)
  then have "unat ((ucast w :: 64 word) AND (push_bit order 1 - 1)) = take_bit order (unat (ucast w :: 64 word))"
    by (simp only: take_bit_eq_mask [symmetric]) (simp only: unsigned_take_bit_eq)
  also have "unat (ucast w :: 64 word) = take_bit 32 (64 * k)"
    unfolding w_def by (simp only: unsigned_ucast_eq unsigned_of_nat) (simp add: take_bit_take_bit)
  also have "take_bit order (take_bit 32 (64 * k)) = (64 * k) mod 2 ^ order"
    using assms by (simp only: take_bit_take_bit ring_order_ok_def) (simp add: min_def take_bit_eq_mod)
  also have "\<dots> = 64 * (k mod ring_slots order)"
    by (simp only: ring_slots_pow [OF assms, symmetric] mult_mod_right)
  finally show ?thesis by (simp only: w_def)
qed

subsection \<open>Properties\<close>

text \<open>Claim C23: the constructor of the ring closes the temporary file on every path. When it fails, at
  whichever system call, the ring is invalid and the address space is as it was before. When it succeeds,
  the two halves of the region show the same bytes of the file, so a block that starts in the first half
  and crosses its end is contiguous, and the destructor unmaps the region again.\<close>

theorem ring_mirrored:
  assumes fd: "os_mkstemp os \<notin> fds" and fresh: "reserve_fresh os (unat (push_bit order (1 :: 64 word))) m"
    and new: "CircularBuffer_new os order = (r, calls)"
  shows "mirror_fds calls fds = fds \<and>
    (case ring_data r of
       None \<Rightarrow> mirror_maps calls m = m
     | Some a \<Rightarrow> (\<forall>i < unat (ring_size r).
           mirror_maps calls m (a + i) = Some (Some (os_mkstemp os, i))
         \<and> mirror_maps calls m (a + unat (ring_size r) + i) = Some (Some (os_mkstemp os, i)))
       \<and> mirror_maps (calls @ CircularBuffer_destroy r) m = m)"
proof -
  let ?s = "unat (push_bit order (1 :: 64 word))"
  obtain data where c: "createBufferMirror os ?s = (data, calls)" and data: "ring_data r = data"
    and sz: "ring_size r = push_bit order 1"
    using new by (auto simp: CircularBuffer_new_def Let_def split: prod.splits)
  show ?thesis
  proof (cases data)
    case None
    with c fd fresh show ?thesis
      by (auto simp: createBufferMirror_def Let_def reserve_fresh_def data fun_eq_iff fresh_region
          split: if_splits option.splits)
  next
    case (Some a)
    then have calls: "calls = [Mkstemp (os_mkstemp os), Unlink, Ftruncate ?s, MmapReserve (Some a) (2 * ?s),
        MmapFixed a ?s (os_mkstemp os), MmapFixed (a + ?s) ?s (os_mkstemp os), Close (os_mkstemp os)]"
      and a: "os_reserve os = Some a"
      using c by (auto simp: createBufferMirror_def Let_def split: if_splits option.splits)
    have free: "m x = None" if "a \<le> x" "x < a + 2 * ?s" for x
      using fresh fresh_region [of "2 * ?s" m a x] that by (simp add: reserve_fresh_def a)
    show ?thesis
      using fd free by (auto simp: data Some calls sz CircularBuffer_destroy_def fun_eq_iff)
  qed
qed

definition example_os :: mirror_os where
  "example_os = \<lparr>os_mkstemp = 9, os_unlink = 0, os_ftruncate = 0, os_reserve = Some 1048576,
     os_map1 = True, os_map2 = True\<rparr>"

theorem ring_mirrored_witness:
  "mirror_maps (snd (CircularBuffer_new example_os 16)) (\<lambda>_. None) (1048576 + 65535) = Some (Some (9, 65535))
   \<and> mirror_maps (snd (CircularBuffer_new example_os 16)) (\<lambda>_. None) (1048576 + 65536 + 65535)
      = Some (Some (9, 65535))"
proof -
  obtain r calls where new: "CircularBuffer_new example_os 16 = (r, calls)" by force
  then have r: "ring_data r = Some 1048576" "ring_size r = 65536"
    by (auto simp: CircularBuffer_new_def createBufferMirror_def example_os_def Let_def)
  have "os_mkstemp example_os \<notin> {}" "reserve_fresh example_os (unat (push_bit 16 (1 :: 64 word))) (\<lambda>_. None)"
    by (simp_all add: example_os_def reserve_fresh_def)
  from ring_mirrored [OF this new] r
  have "\<forall>i < 65536. mirror_maps calls (\<lambda>_. None) (1048576 + i) = Some (Some (9, i))
      \<and> mirror_maps calls (\<lambda>_. None) (1048576 + 65536 + i) = Some (Some (9, i))"
    by (simp add: example_os_def)
  from this [rule_format, of 65535] new show ?thesis by simp
qed

end
