(* ===== verification/Mpsc.thy ===== *)
theory Mpsc
  imports Ring
begin

text \<open>
  \<open>include/hvnetpp/MpscQueue.h\<close>: the bounded queue with many producers and one consumer. A node is 64
  bytes at a 64-byte aligned offset of the ring, so the memory is a map from offsets to nodes. The
  members are given twice: as functions (\<open>reserve\<close>, \<open>commit\<close>, \<open>mpsc_peek\<close>, \<open>consume\<close>) and as a step
  relation in which any number of producers run \<open>reserve\<close> and \<open>commit\<close> one atomic access at a time,
  interleaved with each other and with the consumer; the step relation uses the same functions for
  its accesses. The interleaving is sequentially consistent; the weaker orders the source asks for
  are not modelled. \<open>compare_exchange_weak\<close> may fail for no reason.

  Block numbers (\<open>nat\<close>, not reduced) are ghost data: block \<open>k\<close> is the \<open>k\<close>-th one reserved since the
  queue was made, \<open>hist\<close> lists the values of all blocks in the order of reservation, \<open>taken\<close> the values
  the consumer has seen. No guard of a step reads them.

  The lemmas show that the 32-bit counters implement these block numbers as long as no producer is
  suspended, between reading the head and its compare-and-exchange, while the others go on to
  reserve \<open>2 ^ 26\<close> blocks (\<open>no_wrap\<close>), that no two producers hold the same block, and that the
  consumer sees the values exactly once, in the order of reservation.
\<close>

subsection \<open>The queue\<close>

record 'a node =
  node_data :: "'a option"
  node_id :: "32 word"

definition zero_node :: "'a node" where
  "zero_node = \<lparr>node_data = None, node_id = 0\<rparr>"

record 'a mpsc =
  mq_ring :: ring
  mq_mem :: "nat \<Rightarrow> 'a node"

definition nodeSize :: "32 word" where "nodeSize = 64"

definition MpscQueue_new :: "mirror_os \<Rightarrow> nat \<Rightarrow> 'a mpsc" where
  "MpscQueue_new os order = \<lparr>mq_ring = fst (CircularBuffer_new os order), mq_mem = (\<lambda>_. zero_node)\<rparr>"

definition isValid :: "'a mpsc \<Rightarrow> bool" where
  "isValid q \<longleftrightarrow> ring_isValid (mq_ring q)"

definition reserve_full :: "'a mpsc \<Rightarrow> 32 word \<Rightarrow> 32 word \<Rightarrow> bool" where
  "reserve_full q r w \<longleftrightarrow> w - r > (ucast (ring_size (mq_ring q)) :: 32 word) - nodeSize"

definition cas_tail :: "32 word \<Rightarrow> 'a mpsc \<Rightarrow> 'a mpsc option" where
  "cas_tail w q = (if ring_tail (mq_ring q) = w
     then Some (q\<lparr>mq_ring := (mq_ring q)\<lparr>ring_tail := w + nodeSize\<rparr>\<rparr>) else None)"

text \<open>\<open>reserve\<close> without interference: the compare-and-exchange succeeds the first time.\<close>

definition reserve :: "'a mpsc \<Rightarrow> nat option \<times> 'a mpsc" where
  "reserve q =
     (if \<not> isValid q then (None, q)
      else let r = ring_head (mq_ring q); w = ring_tail (mq_ring q) in
        if reserve_full q r w then (None, q)
        else (case cas_tail w q of None \<Rightarrow> (None, q) | Some q' \<Rightarrow> (getPointer (mq_ring q') w, q')))"

definition write_data :: "nat \<Rightarrow> 'a \<Rightarrow> 'a mpsc \<Rightarrow> 'a mpsc" where
  "write_data p v q = q\<lparr>mq_mem := (mq_mem q)(p := (mq_mem q p)\<lparr>node_data := Some v\<rparr>)\<rparr>"

definition commit :: "nat \<Rightarrow> 32 word \<Rightarrow> 'a mpsc \<Rightarrow> 'a mpsc" where
  "commit p i q = q\<lparr>mq_mem := (mq_mem q)(p := (mq_mem q p)\<lparr>node_id := i\<rparr>)\<rparr>"

definition mpsc_peek :: "'a mpsc \<Rightarrow> nat option" where
  "mpsc_peek q =
     (if \<not> isValid q \<or> ring_head (mq_ring q) = ring_tail (mq_ring q) then None
      else (case headPtr (mq_ring q) of None \<Rightarrow> None
        | Some p \<Rightarrow> if node_id (mq_mem q p) \<noteq> 0 then Some p else None))"

definition zero_cell :: "nat \<Rightarrow> 'a mpsc \<Rightarrow> 'a mpsc" where
  "zero_cell p q = q\<lparr>mq_mem := (mq_mem q)(p := zero_node)\<rparr>"

definition advance_head :: "'a mpsc \<Rightarrow> 'a mpsc" where
  "advance_head q = q\<lparr>mq_ring := (mq_ring q)\<lparr>ring_head := ring_head (mq_ring q) + nodeSize\<rparr>\<rparr>"

definition consume :: "nat \<Rightarrow> 'a mpsc \<Rightarrow> 'a mpsc" where
  "consume p q = (if \<not> isValid q then q else advance_head (zero_cell p q))"

subsection \<open>Producers and the consumer, one access at a time\<close>

datatype 'a ppc =
    PIdle
  | PHead 'a                              \<comment> \<open>in \<open>reserve\<close>, about to load the head\<close>
  | PTail 'a "32 word" nat                \<comment> \<open>head loaded\<close>
  | PCas 'a "32 word" "32 word" nat nat   \<comment> \<open>head and tail loaded\<close>
  | PFull 'a                              \<comment> \<open>\<open>reserve\<close> returned no node\<close>
  | PWrite 'a nat nat                     \<comment> \<open>\<open>reserve\<close> returned this node\<close>
  | PCommit 'a nat nat                    \<comment> \<open>data written\<close>
  | PDone                                 \<comment> \<open>committed\<close>

datatype cpc = CIdle | CHold nat | CZeroed

record 'a mst =
  mq :: "'a mpsc"
  ppc :: "thread_id \<Rightarrow> 'a ppc"
  cpc :: cpc
  hist :: "'a list"
  taken :: "'a list"

definition set_ppc :: "thread_id \<Rightarrow> 'a ppc \<Rightarrow> 'a mst \<Rightarrow> 'a mst" where
  "set_ppc t pc s = s\<lparr>ppc := (ppc s)(t := pc)\<rparr>"

definition heads :: "'a mst \<Rightarrow> nat" where
  "heads s = (if cpc s = CIdle then length (taken s) else length (taken s) - 1)"

inductive pstep :: "thread_id \<Rightarrow> 'a mst \<Rightarrow> 'a mst \<Rightarrow> bool" for t where
  enter: "ppc s t = PIdle \<Longrightarrow> isValid (mq s) \<Longrightarrow> pstep t s (set_ppc t (PHead v) s)"
| load_head: "ppc s t = PHead v \<Longrightarrow>
    pstep t s (set_ppc t (PTail v (ring_head (mq_ring (mq s))) (heads s)) s)"
| load_tail: "ppc s t = PTail v r m \<Longrightarrow>
    pstep t s (set_ppc t (PCas v r (ring_tail (mq_ring (mq s))) m (length (hist s))) s)"
| full: "ppc s t = PCas v r w m n \<Longrightarrow> reserve_full (mq s) r w \<Longrightarrow> pstep t s (set_ppc t (PFull v) s)"
| cas_ok: "ppc s t = PCas v r w m n \<Longrightarrow> \<not> reserve_full (mq s) r w \<Longrightarrow> cas_tail w (mq s) = Some q \<Longrightarrow>
    getPointer (mq_ring q) w = Some p \<Longrightarrow>
    pstep t s (set_ppc t (PWrite v p (length (hist s))) (s\<lparr>mq := q, hist := hist s @ [v]\<rparr>))"
| cas_fail: "ppc s t = PCas v r w m n \<Longrightarrow> \<not> reserve_full (mq s) r w \<Longrightarrow> pstep t s (set_ppc t (PHead v) s)"
| put_data: "ppc s t = PWrite v p k \<Longrightarrow> pstep t s (set_ppc t (PCommit v p k) (s\<lparr>mq := write_data p v (mq s)\<rparr>))"
| put_id: "ppc s t = PCommit v p k \<Longrightarrow> pstep t s (set_ppc t PDone (s\<lparr>mq := commit p 1 (mq s)\<rparr>))"

text \<open>The consumer holds a node from \<open>mpsc_peek\<close> until \<open>consume\<close> has cleared it and moved the head.\<close>

inductive cstep :: "'a mst \<Rightarrow> 'a mst \<Rightarrow> bool" where
  take_node: "cpc s = CIdle \<Longrightarrow> mpsc_peek (mq s) = Some p \<Longrightarrow> node_data (mq_mem (mq s) p) = Some v \<Longrightarrow>
    cstep s (s\<lparr>cpc := CHold p, taken := taken s @ [v]\<rparr>)"
| zero: "cpc s = CHold p \<Longrightarrow> cstep s (s\<lparr>cpc := CZeroed, mq := zero_cell p (mq s)\<rparr>)"
| advance: "cpc s = CZeroed \<Longrightarrow> cstep s (s\<lparr>cpc := CIdle, mq := advance_head (mq s)\<rparr>)"

inductive mstep :: "'a mst \<Rightarrow> 'a mst \<Rightarrow> bool" where
  producer: "pstep t s s' \<Longrightarrow> mstep s s'"
| leave: "ppc s t = PDone \<or> ppc s t = PFull v \<Longrightarrow> mstep s (set_ppc t PIdle s)"
| consumer: "cstep s s' \<Longrightarrow> mstep s s'"

definition mst_init :: "mirror_os \<Rightarrow> nat \<Rightarrow> 'a mst" where
  "mst_init os order = \<lparr>mq = MpscQueue_new os order, ppc = (\<lambda>_. PIdle), cpc = CIdle, hist = [], taken = []\<rparr>"

definition no_wrap :: "'a mst \<Rightarrow> bool" where
  "no_wrap s \<longleftrightarrow> (\<forall>t v r w m n. ppc s t = PCas v r w m n \<longrightarrow> length (hist s) < m + 2 ^ 26)"

inductive mreach :: "'a mst \<Rightarrow> 'a mst \<Rightarrow> bool" for s0 where
  start: "mreach s0 s0"
| step: "mreach s0 s \<Longrightarrow> no_wrap s \<Longrightarrow> mstep s s' \<Longrightarrow> mreach s0 s'"

subsection \<open>Counters and block numbers\<close>

definition blk :: "nat \<Rightarrow> nat \<Rightarrow> nat" where
  "blk order k = 64 * (k mod ring_slots order)"

definition wn :: "nat \<Rightarrow> 32 word" where
  "wn k = of_nat (64 * k)"

lemma wn_0 [simp]: "wn 0 = 0"
  by (simp add: wn_def)

lemma wn_Suc: "wn k + nodeSize = wn (Suc k)"
  by (simp add: wn_def nodeSize_def)

lemma unat_wn: "k < 2 ^ 26 \<Longrightarrow> unat (wn k) = 64 * k"
  by (simp add: wn_def unat_word_ariths unsigned_of_nat take_bit_eq_mod)

lemma wn_diff: "m \<le> n \<Longrightarrow> wn n - wn m = wn (n - m)"
  by (simp add: wn_def of_nat_diff right_diff_distrib)

lemma wn_inj:
  assumes "wn m = wn n" and "m \<le> n" and "n < m + 2 ^ 26"
  shows "m = n"
proof -
  have "wn (n - m) = 0" using wn_diff [OF assms(2)] assms(1) by simp
  moreover have "n - m < 2 ^ 26" using assms(2,3) by linarith
  ultimately show ?thesis using unat_wn [of "n - m"] assms(2) by simp
qed

lemma ucast_of_nat_32: "(ucast (of_nat n :: 64 word) :: 32 word) = of_nat n"
  by (rule bit_word_eqI) (simp add: bit_ucast_iff bit_of_nat_iff)

lemma blk_inj: "blk order k = blk order k' \<Longrightarrow> h \<le> k \<Longrightarrow> k < h + ring_slots order \<Longrightarrow> h \<le> k' \<Longrightarrow>
    k' < h + ring_slots order \<Longrightarrow> k = k'"
proof (induction k k' rule: linorder_wlog)
  case (le a b)
  then have "b mod ring_slots order = a mod ring_slots order" by (simp add: blk_def)
  then have "ring_slots order dvd b - a" using le by (simp add: mod_eq_dvd_iff_nat)
  moreover have "b - a < ring_slots order" using le by linarith
  ultimately show ?case using le(1) by (auto dest: dvd_imp_le)
next
  case (sym a b)
  then show ?case by metis
qed

text \<open>The geometry every reachable queue keeps.\<close>

definition ring_ok :: "nat \<Rightarrow> ring \<Rightarrow> bool" where
  "ring_ok order r \<longleftrightarrow> ring_order_ok order \<and> ring_size r = push_bit order 1 \<and> ring_data r \<noteq> None"

lemma getPointer_wn: "ring_ok order r \<Longrightarrow> getPointer r (wn k) = Some (blk order k)"
  using block_offset [of order k]
  by (auto simp: ring_ok_def getPointer_def wn_def blk_def)

lemma headPtr_wn: "ring_ok order r \<Longrightarrow> ring_head r = wn k \<Longrightarrow> headPtr r = Some (blk order k)"
  using getPointer_wn [of order r k] by (simp add: headPtr_def getPointer_def split: option.splits)

lemma reserve_full_wn:
  assumes r: "ring_ok order (mq_ring q)" and "m \<le> n" and "n < m + 2 ^ 26"
  shows "reserve_full q (wn m) (wn n) \<longleftrightarrow> m + ring_slots order \<le> n"
proof -
  let ?N = "ring_slots order"
  have o: "ring_order_ok order" using r by (simp add: ring_ok_def)
  have N: "0 < ?N" "?N \<le> 2 ^ 25" using ring_slots_pos ring_slots_bound [OF o] by auto
  have "ring_size (mq_ring q) = of_nat (64 * ?N)"
    using r unfolding ring_slots_pow [OF o] by (simp add: ring_ok_def push_bit_eq_mult)
  then have "(ucast (ring_size (mq_ring q)) :: 32 word) = wn ?N"
    unfolding wn_def by (simp only: ucast_of_nat_32)
  then have "(ucast (ring_size (mq_ring q)) :: 32 word) - nodeSize = wn (?N - 1)"
    using wn_diff [of 1 ?N] N by (simp add: wn_def nodeSize_def)
  moreover have "wn n - wn m = wn (n - m)" by (rule wn_diff [OF assms(2)])
  moreover have "unat (wn (?N - 1)) = 64 * (?N - 1)" "unat (wn (n - m)) = 64 * (n - m)"
    using N assms by (auto intro!: unat_wn)
  ultimately show ?thesis
    using N(1) by (auto simp: reserve_full_def word_less_nat_alt)
qed

subsection \<open>The invariant\<close>

definition full_node :: "'a \<Rightarrow> 'a node" where
  "full_node v = \<lparr>node_data = Some v, node_id = 1\<rparr>"

fun owns :: "'a ppc \<Rightarrow> nat \<Rightarrow> bool" where
  "owns (PWrite v p k) j = (k = j)"
| "owns (PCommit v p k) j = (k = j)"
| "owns _ j = False"

fun pc_ok :: "nat \<Rightarrow> 'a mst \<Rightarrow> 'a ppc \<Rightarrow> bool" where
  "pc_ok order s (PTail v r m) = (r = wn m \<and> m \<le> heads s)"
| "pc_ok order s (PCas v r w m n) = (r = wn m \<and> w = wn n \<and> m \<le> heads s \<and> m \<le> n \<and> n \<le> length (hist s))"
| "pc_ok order s (PWrite v p k) = (p = blk order k \<and> length (taken s) \<le> k \<and> k < length (hist s)
     \<and> hist s ! k = v \<and> mq_mem (mq s) p = zero_node)"
| "pc_ok order s (PCommit v p k) = (p = blk order k \<and> length (taken s) \<le> k \<and> k < length (hist s)
     \<and> hist s ! k = v \<and> mq_mem (mq s) p = \<lparr>node_data = Some v, node_id = 0\<rparr>)"
| "pc_ok order s _ = True"

definition cpc_ok :: "nat \<Rightarrow> 'a mst \<Rightarrow> bool" where
  "cpc_ok order s = (case cpc s of CIdle \<Rightarrow> True
     | CHold p \<Rightarrow> taken s \<noteq> [] \<and> p = blk order (heads s) \<and> mq_mem (mq s) p = full_node (last (taken s))
     | CZeroed \<Rightarrow> taken s \<noteq> [] \<and> mq_mem (mq s) (blk order (heads s)) = zero_node)"

definition mst_inv :: "nat \<Rightarrow> 'a mst \<Rightarrow> bool" where
  "mst_inv order s \<longleftrightarrow>
     ring_ok order (mq_ring (mq s))
     \<and> ring_head (mq_ring (mq s)) = wn (heads s) \<and> ring_tail (mq_ring (mq s)) = wn (length (hist s))
     \<and> take (length (taken s)) (hist s) = taken s \<and> length (taken s) \<le> length (hist s)
     \<and> length (hist s) \<le> heads s + ring_slots order
     \<and> (\<forall>t. pc_ok order s (ppc s t))
     \<and> (\<forall>t t' k. owns (ppc s t) k \<longrightarrow> owns (ppc s t') k \<longrightarrow> t = t')
     \<and> (\<forall>k. length (taken s) \<le> k \<longrightarrow> k < length (hist s) \<longrightarrow>
           (\<exists>t. owns (ppc s t) k) \<or> mq_mem (mq s) (blk order k) = full_node (hist s ! k))
     \<and> (\<forall>k. length (hist s) \<le> k \<longrightarrow> k < heads s + ring_slots order \<longrightarrow>
           mq_mem (mq s) (blk order k) = zero_node)
     \<and> cpc_ok order s"

lemma mst_invI:
  assumes "ring_ok order (mq_ring (mq s))"
    and "ring_head (mq_ring (mq s)) = wn (heads s)" and "ring_tail (mq_ring (mq s)) = wn (length (hist s))"
    and "take (length (taken s)) (hist s) = taken s" and "length (taken s) \<le> length (hist s)"
    and "length (hist s) \<le> heads s + ring_slots order"
    and "\<And>t. pc_ok order s (ppc s t)"
    and "\<And>t t' k. owns (ppc s t) k \<Longrightarrow> owns (ppc s t') k \<Longrightarrow> t = t'"
    and "\<And>k. length (taken s) \<le> k \<Longrightarrow> k < length (hist s) \<Longrightarrow> \<forall>t. \<not> owns (ppc s t) k \<Longrightarrow>
           mq_mem (mq s) (blk order k) = full_node (hist s ! k)"
    and "\<And>k. length (hist s) \<le> k \<Longrightarrow> k < heads s + ring_slots order \<Longrightarrow>
           mq_mem (mq s) (blk order k) = zero_node"
    and "cpc_ok order s"
  shows "mst_inv order s"
  using assms unfolding mst_inv_def by blast

lemma mst_invD:
  assumes "mst_inv order s"
  shows "ring_ok order (mq_ring (mq s))"
    and "ring_head (mq_ring (mq s)) = wn (heads s)" and "ring_tail (mq_ring (mq s)) = wn (length (hist s))"
    and "take (length (taken s)) (hist s) = taken s" and "length (taken s) \<le> length (hist s)"
    and "length (hist s) \<le> heads s + ring_slots order"
    and "pc_ok order s (ppc s t)"
    and "owns (ppc s t) k \<Longrightarrow> owns (ppc s t') k \<Longrightarrow> t = t'"
    and "length (taken s) \<le> k \<Longrightarrow> k < length (hist s) \<Longrightarrow> \<forall>t. \<not> owns (ppc s t) k \<Longrightarrow>
           mq_mem (mq s) (blk order k) = full_node (hist s ! k)"
    and "length (hist s) \<le> k \<Longrightarrow> k < heads s + ring_slots order \<Longrightarrow>
           mq_mem (mq s) (blk order k) = zero_node"
    and "cpc_ok order s"
  using assms unfolding mst_inv_def by blast+

lemma heads_le: "heads s \<le> length (taken s)"
  by (simp add: heads_def)

lemma heads_less: "cpc s \<noteq> CIdle \<Longrightarrow> taken s \<noteq> [] \<Longrightarrow> heads s < length (taken s)"
  by (simp add: heads_def)

lemma heads_frame [simp]:
  "heads (s\<lparr>mq := q\<rparr>) = heads s" "heads (s\<lparr>hist := h\<rparr>) = heads s" "heads (s\<lparr>ppc := f\<rparr>) = heads s"
  "heads (set_ppc t pc s) = heads s"
  by (simp_all add: heads_def set_ppc_def)

lemma set_ppc_simps [simp]:
  "mq (set_ppc t pc s) = mq s" "hist (set_ppc t pc s) = hist s" "taken (set_ppc t pc s) = taken s"
  "cpc (set_ppc t pc s) = cpc s" "ppc (set_ppc t pc s) = (ppc s)(t := pc)"
  by (simp_all add: set_ppc_def)

lemma pc_ok_set_ppc [simp]: "pc_ok order (set_ppc t pc s) x = pc_ok order s x"
  by (cases x) simp_all

lemma cpc_ok_set_ppc [simp]: "cpc_ok order (set_ppc t pc s) = cpc_ok order s"
  by (simp add: cpc_ok_def split: cpc.splits)

text \<open>A producer moves between places at which it owns nothing.\<close>

lemma mst_inv_move:
  assumes inv: "mst_inv order s" and "\<And>k. \<not> owns (ppc s t) k" and "\<And>k. \<not> owns pc k" and "pc_ok order s pc"
  shows "mst_inv order (set_ppc t pc s)"
proof (rule mst_invI)
  have eq: "owns (((ppc s)(t := pc)) t') k = owns (ppc s t') k" for t' k
    using assms(2,3) by simp
  show "mq_mem (mq (set_ppc t pc s)) (blk order k) = full_node (hist (set_ppc t pc s) ! k)"
    if "length (taken (set_ppc t pc s)) \<le> k" "k < length (hist (set_ppc t pc s))"
      "\<forall>t'. \<not> owns (ppc (set_ppc t pc s) t') k" for k
    using mst_invD(9) [OF inv, of k] that unfolding set_ppc_simps eq by simp
  show "t1 = t2" if "owns (ppc (set_ppc t pc s) t1) k" "owns (ppc (set_ppc t pc s) t2) k" for t1 t2 k
    using mst_invD(8) [OF inv, of t1 k t2] that unfolding set_ppc_simps eq by simp
qed (use mst_invD [OF inv] assms(4) in \<open>auto\<close>)

lemma owns_range:
  assumes "mst_inv order s" and "owns (ppc s t) k"
  shows "length (taken s) \<le> k \<and> k < length (hist s) \<and> heads s \<le> k \<and> k < heads s + ring_slots order"
proof -
  have "length (taken s) \<le> k \<and> k < length (hist s)"
    using mst_invD(7) [OF assms(1), of t] assms(2) by (cases "ppc s t") auto
  then show ?thesis using mst_invD(6) [OF assms(1)] heads_le [of s] by linarith
qed

lemma pc_ok_cell:
  assumes "pc_ok order s pc" and "\<And>j. owns pc j \<Longrightarrow> blk order j \<noteq> p"
    and "mq_mem q = (mq_mem (mq s))(p := x)"
  shows "pc_ok order (s\<lparr>mq := q\<rparr>) pc"
  using assms by (cases pc) auto

text \<open>The owner of a block changes its cell.\<close>

lemma mst_inv_cell:
  assumes inv: "mst_inv order s" and own: "owns (ppc s t) k"
    and q: "mq_ring q = mq_ring (mq s)" "mq_mem q = (mq_mem (mq s))(blk order k := x)"
    and pc: "pc_ok order (s\<lparr>mq := q\<rparr>) pc" "\<And>j. owns pc j \<Longrightarrow> j = k"
    and x: "owns pc k \<or> x = full_node (hist s ! k)"
  shows "mst_inv order (set_ppc t pc (s\<lparr>mq := q\<rparr>))" (is "mst_inv order ?s")
proof (rule mst_invI)
  note range = owns_range [OF inv own]
  have other: "blk order j \<noteq> blk order k" if "j \<noteq> k" "heads s \<le> j" "j < heads s + ring_slots order" for j
    using blk_inj [of order j k "heads s"] that range by auto
  have ow: "owns (ppc s t') j" if "owns (ppc ?s t') j" for t' j
    using that pc(2) own by (auto split: if_splits)
  show "pc_ok order ?s (ppc ?s t')" for t'
  proof (cases "t' = t")
    case False
    have "blk order j \<noteq> blk order k" if "owns (ppc s t') j" for j
    proof (rule other)
      show "j \<noteq> k" using mst_invD(8) [OF inv own, of t'] that False by blast
    qed (use owns_range [OF inv that] in auto)
    then show ?thesis
      using pc_ok_cell [OF mst_invD(7) [OF inv, of t'] _ q(2)] False by simp
  qed (use pc in simp)
  show "t1 = t2" if "owns (ppc ?s t1) j" "owns (ppc ?s t2) j" for t1 t2 j
    using mst_invD(8) [OF inv ow ow] that by blast
  show "mq_mem (mq ?s) (blk order j) = full_node (hist ?s ! j)"
    if j: "length (taken ?s) \<le> j" "j < length (hist ?s)" and no: "\<forall>t'. \<not> owns (ppc ?s t') j" for j
  proof (cases "j = k")
    case True
    with no x have "x = full_node (hist s ! k)" by (auto dest: spec [of _ t])
    then show ?thesis using True q by simp
  next
    case False
    have "\<not> owns (ppc s t') j" for t'
    proof (cases "t' = t")
      case True
      then show ?thesis using own False by (cases "ppc s t") auto
    next
      case False
      then show ?thesis using no by (auto dest: spec [of _ t'])
    qed
    moreover have "blk order j \<noteq> blk order k"
      using other [OF False] j mst_invD(6) [OF inv] heads_le [of s] by auto
    ultimately show ?thesis using mst_invD(9) [OF inv, of j] j q by simp
  qed
  show "mq_mem (mq ?s) (blk order j) = zero_node"
    if "length (hist ?s) \<le> j" "j < heads ?s + ring_slots order" for j
    using mst_invD(10) [OF inv, of j] other [of j] range that q by auto
  have "blk order (heads s) \<noteq> blk order k" if "cpc s \<noteq> CIdle" "taken s \<noteq> []"
  proof (rule other)
    show "heads s \<noteq> k" using that range by (cases "taken s") (auto simp: heads_def)
  qed (simp_all add: ring_slots_pos)
  then show "cpc_ok order ?s"
    using mst_invD(11) [OF inv] q by (auto simp: cpc_ok_def split: cpc.splits)
qed (use mst_invD [OF inv] q in auto)

lemma mst_inv_cas:
  assumes inv: "mst_inv order s" and pc: "ppc s t = PCas v r w m n" and wrap: "no_wrap s"
    and nf: "\<not> reserve_full (mq s) r w" and cas: "cas_tail w (mq s) = Some q"
    and ptr: "getPointer (mq_ring q) w = Some p"
  shows "mst_inv order (set_ppc t (PWrite v p (length (hist s))) (s\<lparr>mq := q, hist := hist s @ [v]\<rparr>))"
    (is "mst_inv order ?s")
proof -
  let ?T = "length (hist s)"
  have ok: "r = wn m" "w = wn n" "m \<le> heads s" "m \<le> n" "n \<le> ?T"
    using mst_invD(7) [OF inv, of t] pc by auto
  have lim: "?T < m + 2 ^ 26" using wrap pc unfolding no_wrap_def by blast
  have "wn n = wn ?T" using cas mst_invD(3) [OF inv] ok(2) by (auto simp: cas_tail_def split: if_splits)
  then have n: "n = ?T" using wn_inj [of n ?T] ok(4,5) lim by simp
  have "\<not> m + ring_slots order \<le> n"
    using nf reserve_full_wn [OF mst_invD(1) [OF inv], of m n] ok lim by simp
  then have room: "?T < heads s + ring_slots order" using n ok(3) by simp
  have q: "mq_mem q = mq_mem (mq s)" "ring_ok order (mq_ring q)" "ring_head (mq_ring q) = ring_head (mq_ring (mq s))"
      "ring_tail (mq_ring q) = wn (Suc ?T)"
    using cas mst_invD(1) [OF inv] ok(2) n
    by (auto simp: cas_tail_def ring_ok_def wn_Suc split: if_splits)
  have p: "p = blk order ?T" using ptr getPointer_wn [OF q(2), of n] ok(2) n by simp
  have keep: "pc_ok order (s\<lparr>mq := q, hist := hist s @ [v]\<rparr>) pc'" if "pc_ok order s pc'" for pc'
    using that q(1) by (cases pc') (auto simp: nth_append)
  have zero: "mq_mem (mq s) (blk order ?T) = zero_node" using mst_invD(10) [OF inv, of ?T] room by simp
  show ?thesis
  proof (rule mst_invI)
    show "pc_ok order ?s (ppc ?s t')" for t'
      using keep [OF mst_invD(7) [OF inv, of t']] p zero q(1) mst_invD(5) [OF inv] by simp
    show "t1 = t2" if "owns (ppc ?s t1) j" "owns (ppc ?s t2) j" for t1 t2 j
      using mst_invD(8) [OF inv, of t1 j t2] owns_range [OF inv, of t1 j] owns_range [OF inv, of t2 j] that
      by (auto split: if_splits)
    show "mq_mem (mq ?s) (blk order j) = full_node (hist ?s ! j)"
      if j: "length (taken ?s) \<le> j" "j < length (hist ?s)" and no: "\<forall>t'. \<not> owns (ppc ?s t') j" for j
    proof -
      have "j < ?T" using j no by (auto dest: spec [of _ t])
      moreover have "\<not> owns (ppc s t') j" for t'
        using no [rule_format, of t'] pc by (cases "t' = t") simp_all
      ultimately show ?thesis using mst_invD(9) [OF inv, of j] j q(1) by (simp add: nth_append)
    qed
    show "cpc_ok order ?s"
      using mst_invD(11) [OF inv] q(1) by (auto simp: cpc_ok_def split: cpc.splits)
  qed (use mst_invD(1-6,10) [OF inv] q room in \<open>auto\<close>)
qed

lemma mst_inv_pstep:
  assumes "pstep t s s'" and inv: "mst_inv order s" and "no_wrap s"
  shows "mst_inv order s'"
  using assms(1)
proof cases
  case (load_head v)
  then show ?thesis using mst_invD(2) [OF inv] by (auto intro!: mst_inv_move [OF inv])
next
  case (load_tail v r m)
  moreover have "heads s \<le> length (hist s)" using heads_le [of s] mst_invD(5) [OF inv] by linarith
  ultimately show ?thesis
    using mst_invD(3) [OF inv] mst_invD(7) [OF inv, of t] by (auto intro!: mst_inv_move [OF inv])
next
  case (cas_ok v r w m n q p)
  then show ?thesis using mst_inv_cas [OF inv _ assms(3)] by simp
next
  case (put_data v p k)
  then have p: "p = blk order k" "mq_mem (mq s) p = zero_node"
    using mst_invD(7) [OF inv, of t] by auto
  show ?thesis
    unfolding put_data(1) by (rule mst_inv_cell [OF inv, where k = k])
      (use put_data p mst_invD(7) [OF inv, of t] in \<open>auto simp: write_data_def zero_node_def\<close>)
next
  case (put_id v p k)
  then have p: "p = blk order k" "mq_mem (mq s) p = \<lparr>node_data = Some v, node_id = 0\<rparr>" "hist s ! k = v"
    using mst_invD(7) [OF inv, of t] by auto
  show ?thesis
    unfolding put_id(1) by (rule mst_inv_cell [OF inv, where k = k])
      (use put_id p in \<open>auto simp: commit_def full_node_def\<close>)
qed (auto intro!: mst_inv_move [OF inv])

text \<open>A successful \<open>mpsc_peek\<close> finds the first block that is reserved and not taken, committed.\<close>

lemma mpsc_peek_Some:
  assumes inv: "mst_inv order s" and idle: "cpc s = CIdle" and peek: "mpsc_peek (mq s) = Some p"
  shows "p = blk order (length (taken s))" "length (taken s) < length (hist s)"
    "\<And>t. \<not> owns (ppc s t) (length (taken s))"
    "mq_mem (mq s) p = full_node (hist s ! length (taken s))"
proof -
  let ?H = "length (taken s)"
  have h: "heads s = ?H" using idle by (simp add: heads_def)
  have ne: "wn ?H \<noteq> wn (length (hist s))" and id: "node_id (mq_mem (mq s) p) \<noteq> 0"
    using peek mst_invD(2,3) [OF inv] h by (auto simp: mpsc_peek_def split: if_splits option.splits)
  show p: "p = blk order ?H"
    using peek headPtr_wn [OF mst_invD(1,2) [OF inv]] h
    by (auto simp: mpsc_peek_def split: if_splits option.splits)
  show lt: "?H < length (hist s)" using ne mst_invD(5) [OF inv] by (cases "?H = length (hist s)") auto
  show no: "\<not> owns (ppc s t) ?H" for t
    using mst_invD(7) [OF inv, of t] id p by (cases "ppc s t") (auto simp: zero_node_def)
  show "mq_mem (mq s) p = full_node (hist s ! ?H)"
    using mst_invD(9) [OF inv, of ?H] lt no p by simp
qed

lemma mst_inv_cstep:
  assumes "cstep s s'" and inv: "mst_inv order s"
  shows "mst_inv order s'"
  using assms(1)
proof cases
  case (take_node p v)
  note pk = mpsc_peek_Some [OF inv take_node(2,3)]
  let ?H = "length (taken s)"
  have v: "v = hist s ! ?H" using take_node(4) pk(4) by (simp add: full_node_def)
  have h: "heads s = ?H" "heads s' = ?H" using take_node by (auto simp: heads_def)
  have own: "Suc ?H \<le> k" if "owns (ppc s t) k" for t k
    using owns_range [OF inv that] pk(3) [of t] that by (cases "k = ?H") auto
  have pcs: "pc_ok order s' (ppc s t)" for t
    using mst_invD(7) [OF inv, of t] own [of t] h take_node(1) by (cases "ppc s t") auto
  show ?thesis
  proof (rule mst_invI)
    show "take (length (taken s')) (hist s') = taken s'"
      using mst_invD(4) [OF inv] pk(2) v take_node(1) by (simp add: take_Suc_conv_app_nth)
    show "cpc_ok order s'" using take_node(1) pk(1,4) v h by (simp add: cpc_ok_def)
    show "t1 = t2" if "owns (ppc s' t1) k" "owns (ppc s' t2) k" for t1 t2 k
      using mst_invD(8) [OF inv, of t1 k t2] that take_node(1) by simp
    show "mq_mem (mq s') (blk order k) = full_node (hist s' ! k)"
      if "length (taken s') \<le> k" "k < length (hist s')" "\<forall>t. \<not> owns (ppc s' t) k" for k
      using mst_invD(9) [OF inv, of k] that take_node(1) by simp
  qed (use mst_invD(1,2,3,5,6,10) [OF inv] pcs pk(2) h take_node(1) in \<open>auto\<close>)
next
  case (zero p)
  have c: "taken s \<noteq> []" "p = blk order (heads s)"
    using mst_invD(11) [OF inv] zero(2) by (auto simp: cpc_ok_def)
  have h: "heads s' = heads s" "heads s < length (taken s)"
    using zero(1,2) c(1) by (auto simp: heads_def)
  have other: "blk order k \<noteq> p" if "length (taken s) \<le> k" "k < heads s + ring_slots order" for k
    using blk_inj [of order k "heads s" "heads s"] that h(2) c(2) ring_slots_pos [of order] by auto
  have pcs: "pc_ok order s' (ppc s t)" for t
  proof -
    have "mq_mem (zero_cell p (mq s)) = (mq_mem (mq s))(p := zero_node)" by (simp add: zero_cell_def)
    from pc_ok_cell [OF mst_invD(7) [OF inv, of t] _ this] show ?thesis
      using other owns_range [OF inv, of t] zero(1,2)
      by (cases "ppc s t") (auto simp: heads_def)
  qed
  show ?thesis
  proof (rule mst_invI)
    show "cpc_ok order s'" using zero(1) c h by (simp add: cpc_ok_def zero_cell_def)
    show "t1 = t2" if "owns (ppc s' t1) k" "owns (ppc s' t2) k" for t1 t2 k
      using mst_invD(8) [OF inv, of t1 k t2] that zero(1) by simp
    show "mq_mem (mq s') (blk order k) = full_node (hist s' ! k)"
      if "length (taken s') \<le> k" "k < length (hist s')" "\<forall>t. \<not> owns (ppc s' t) k" for k
      using mst_invD(9) [OF inv, of k] mst_invD(6) [OF inv] other [of k] that zero(1)
      by (simp add: zero_cell_def)
  qed (use mst_invD(1-6,10) [OF inv] pcs h zero(1) in \<open>auto simp: zero_cell_def\<close>)
next
  case advance
  have c: "taken s \<noteq> []" "mq_mem (mq s) (blk order (heads s)) = zero_node"
    using mst_invD(11) [OF inv] advance(2) by (auto simp: cpc_ok_def)
  have h: "heads s' = Suc (heads s)" "heads s' = length (taken s)"
    using advance c(1) by (auto simp: heads_def)
  have pcs: "pc_ok order s' (ppc s t)" for t
    using mst_invD(7) [OF inv, of t] h(1) advance(1) by (cases "ppc s t") (auto simp: advance_head_def)
  have wrap: "blk order (heads s + ring_slots order) = blk order (heads s)" by (simp add: blk_def)
  show ?thesis
  proof (rule mst_invI)
    show "mq_mem (mq s') (blk order k) = zero_node"
      if "length (hist s') \<le> k" "k < heads s' + ring_slots order" for k
      using mst_invD(10) [OF inv, of k] that h(1) c(2) wrap advance(1)
      by (cases "k = heads s + ring_slots order") (auto simp: advance_head_def)
    show "t1 = t2" if "owns (ppc s' t1) k" "owns (ppc s' t2) k" for t1 t2 k
      using mst_invD(8) [OF inv, of t1 k t2] that advance(1) by simp
    show "mq_mem (mq s') (blk order k) = full_node (hist s' ! k)"
      if "length (taken s') \<le> k" "k < length (hist s')" "\<forall>t. \<not> owns (ppc s' t) k" for k
      using mst_invD(9) [OF inv, of k] that advance(1) by (simp add: advance_head_def)
    show "cpc_ok order s'" using advance(1) by (simp add: cpc_ok_def)
  qed (use mst_invD(1-6) [OF inv] pcs h advance(1) in
      \<open>auto simp: advance_head_def ring_ok_def wn_Suc\<close>)
qed

lemma ring_ok_new:
  assumes "ring_order_ok order" and "ring_isValid (fst (CircularBuffer_new os order))"
  shows "ring_ok order (fst (CircularBuffer_new os order))"
    and "ring_head (fst (CircularBuffer_new os order)) = 0"
    and "ring_tail (fst (CircularBuffer_new os order)) = 0"
  using assms by (auto simp: ring_ok_def ring_isValid_def CircularBuffer_new_def Let_def split: prod.splits)

lemma mst_inv_init:
  assumes "ring_order_ok order" and "isValid (MpscQueue_new os order :: 'a mpsc)"
  shows "mst_inv order (mst_init os order :: 'a mst)"
  using ring_ok_new [OF assms(1), of os] assms(2)
  by (intro mst_invI)
    (auto simp: mst_init_def MpscQueue_new_def isValid_def cpc_ok_def heads_def zero_node_def)

lemma mst_inv_mstep:
  assumes "mstep s s'" and "mst_inv order s" and "no_wrap s"
  shows "mst_inv order s'"
  using assms(1)
proof cases
  case (leave t v)
  then show ?thesis by (auto intro!: mst_inv_move [OF assms(2)])
qed (use assms in \<open>auto intro: mst_inv_pstep mst_inv_cstep\<close>)

lemma mst_inv_mreach: "mreach s0 s \<Longrightarrow> mst_inv order s0 \<Longrightarrow> mst_inv order s"
  by (induction rule: mreach.induct) (auto intro: mst_inv_mstep)

subsection \<open>Calls without interference\<close>

text \<open>
  \<open>mq_rep order q xs\<close>: no call is in progress and the queue holds \<open>xs\<close>. \<open>mpsc_put\<close> is the sequence of
  calls a client makes to enqueue a value.
\<close>

definition mq_rep :: "nat \<Rightarrow> 'a mpsc \<Rightarrow> 'a list \<Rightarrow> bool" where
  "mq_rep order q xs \<longleftrightarrow> (\<exists>ys. mst_inv order
     \<lparr>mq = q, ppc = (\<lambda>_. PIdle), cpc = CIdle, hist = ys @ xs, taken = ys\<rparr>)"

definition mpsc_put :: "'a \<Rightarrow> 'a mpsc \<Rightarrow> 'a mpsc option" where
  "mpsc_put v q = (case reserve q of (None, _) \<Rightarrow> None | (Some p, q') \<Rightarrow> Some (commit p 1 (write_data p v q')))"

lemma ring_ok_valid: "ring_ok order (mq_ring q) \<Longrightarrow> isValid q"
  by (auto simp: ring_ok_def isValid_def ring_isValid_def)

lemma mq_rep_new:
  "ring_order_ok order \<Longrightarrow> isValid (MpscQueue_new os order :: 'a mpsc) \<Longrightarrow>
     mq_rep order (MpscQueue_new os order :: 'a mpsc) []"
  using mst_inv_init [of order os] by (auto simp: mq_rep_def mst_init_def)

lemma mpsc_peek_rep:
  assumes "mq_rep order q xs"
  shows "mpsc_peek q = None \<longleftrightarrow> xs = []"
    and "mpsc_peek q = Some p \<Longrightarrow> node_data (mq_mem q p) = Some (hd xs)"
    and "mpsc_peek q = Some p \<Longrightarrow> mq_rep order (consume p q) (tl xs)"
proof -
  obtain ys where inv: "mst_inv order \<lparr>mq = q, ppc = (\<lambda>_. PIdle), cpc = CIdle, hist = ys @ xs, taken = ys\<rparr>"
    (is "mst_inv order ?s") using assms by (auto simp: mq_rep_def)
  have r: "ring_ok order (mq_ring q)" "ring_head (mq_ring q) = wn (length ys)"
      "ring_tail (mq_ring q) = wn (length ys + length xs)" "length xs \<le> ring_slots order"
    using mst_invD(1,2,3,6) [OF inv] by (auto simp: heads_def)
  have "mpsc_peek q \<noteq> None" if "xs \<noteq> []"
  proof -
    have "wn (length ys) \<noteq> wn (length ys + length xs)"
    proof
      assume eq: "wn (length ys) = wn (length ys + length xs)"
      have "ring_slots order \<le> 2 ^ 25" using r(1) ring_slots_bound by (auto simp: ring_ok_def)
      then have "length ys = length ys + length xs" using r(4) by (intro wn_inj [OF eq]) auto
      with that show False by simp
    qed
    moreover have "mq_mem q (blk order (length ys)) = full_node (hd xs)"
      using mst_invD(9) [OF inv, of "length ys"] that by (simp add: nth_append hd_conv_nth)
    ultimately show ?thesis
      using r(2,3) headPtr_wn [OF r(1,2)] ring_ok_valid [OF r(1)]
      by (simp add: mpsc_peek_def full_node_def)
  qed
  moreover have "mpsc_peek q = None" if "xs = []" using that r(2,3) by (simp add: mpsc_peek_def)
  ultimately show "mpsc_peek q = None \<longleftrightarrow> xs = []" by blast
  assume pk: "mpsc_peek q = Some p"
  have found: "length ys < length (ys @ xs)" "mq_mem q p = full_node ((ys @ xs) ! length ys)"
    using mpsc_peek_Some [OF inv, of p] pk by auto
  then obtain v zs where xs: "xs = v # zs" by (cases xs) auto
  then show d: "node_data (mq_mem q p) = Some (hd xs)" using found by (simp add: full_node_def)
  let ?s1 = "?s\<lparr>cpc := CHold p, taken := ys @ [v]\<rparr>"
  let ?s2 = "?s1\<lparr>cpc := CZeroed, mq := zero_cell p q\<rparr>"
  let ?s3 = "?s2\<lparr>cpc := CIdle, mq := advance_head (zero_cell p q)\<rparr>"
  have "cstep ?s ?s1" using take_node [of ?s p v] pk d xs by simp
  moreover have "cstep ?s1 ?s2" using zero [of ?s1 p] by simp
  moreover have "cstep ?s2 ?s3" using advance [of ?s2] by simp
  ultimately have "mst_inv order ?s3" using inv by (blast intro: mst_inv_cstep)
  then show "mq_rep order (consume p q) (tl xs)"
    using xs ring_ok_valid [OF r(1)] by (auto simp: mq_rep_def consume_def intro!: exI [of _ "ys @ [v]"])
qed

lemma mpsc_put_rep:
  assumes "mq_rep order q xs"
  shows "length xs < ring_slots order \<Longrightarrow> \<exists>q'. mpsc_put v q = Some q' \<and> mq_rep order q' (xs @ [v])
      \<and> (\<forall>p. mpsc_peek q = Some p \<longrightarrow> mpsc_peek q' = Some p)"
    and "ring_slots order \<le> length xs \<Longrightarrow> mpsc_put v q = None"
proof -
  obtain ys where inv: "mst_inv order \<lparr>mq = q, ppc = (\<lambda>_. PIdle), cpc = CIdle, hist = ys @ xs, taken = ys\<rparr>"
    (is "mst_inv order ?s") using assms by (auto simp: mq_rep_def)
  let ?H = "length ys" and ?T = "length ys + length xs" and ?N = "ring_slots order"
  have r: "ring_ok order (mq_ring q)" "ring_head (mq_ring q) = wn ?H" "ring_tail (mq_ring q) = wn ?T"
      "length xs \<le> ?N"
    using mst_invD(1,2,3,6) [OF inv] by (auto simp: heads_def)
  have "?N \<le> 2 ^ 25" using r(1) ring_slots_bound by (auto simp: ring_ok_def)
  then have lim: "?T < ?H + 2 ^ 26" using r(4) by simp
  have full: "reserve_full q (wn ?H) (wn ?T) \<longleftrightarrow> ?N \<le> length xs"
    using reserve_full_wn [OF r(1) _ lim] by simp
  show "?N \<le> length xs \<Longrightarrow> mpsc_put v q = None"
    using full r(2,3) by (simp add: mpsc_put_def reserve_def Let_def)
  assume room: "length xs < ?N"
  define q1 where "q1 = q\<lparr>mq_ring := (mq_ring q)\<lparr>ring_tail := wn (Suc ?T)\<rparr>\<rparr>"
  let ?p = "blk order ?T"
  let ?q2 = "write_data ?p v q1"
  let ?q3 = "commit ?p 1 ?q2"
  have cas: "cas_tail (wn ?T) q = Some q1" using r(3) by (simp add: cas_tail_def q1_def wn_Suc)
  have ptr: "getPointer (mq_ring q1) (wn ?T) = Some ?p"
    using getPointer_wn [of order "mq_ring q1" ?T] r(1) by (simp add: q1_def ring_ok_def)
  have put: "mpsc_put v q = Some ?q3"
    using full room cas ptr r(2,3) ring_ok_valid [OF r(1)] by (simp add: mpsc_put_def reserve_def Let_def)
  let ?s0 = "set_ppc 0 (PCas v (wn ?H) (wn ?T) ?H ?T) ?s"
  have s0: "mst_inv order ?s0"
    by (rule mst_inv_move [OF inv]) (simp_all add: heads_def)
  have s1: "mst_inv order (set_ppc 0 (PWrite v ?p ?T) (?s0\<lparr>mq := q1, hist := ys @ xs @ [v]\<rparr>))"
    (is "mst_inv order ?s1")
    using mst_inv_cas [OF s0 _ _ _ _ ptr, of 0 v "wn ?H" ?H ?T] lim full room cas
    by (auto simp: no_wrap_def split: if_splits)
  have n1: "no_wrap ?s1" by (simp add: no_wrap_def)
  have "pstep 0 ?s1 (set_ppc 0 (PCommit v ?p ?T) (?s1\<lparr>mq := ?q2\<rparr>))" (is "pstep 0 ?s1 ?s2")
    using put_data [of ?s1 0 v ?p ?T] by simp
  then have s2: "mst_inv order ?s2" using s1 n1 by (rule mst_inv_pstep)
  have n2: "no_wrap ?s2" by (simp add: no_wrap_def)
  have "pstep 0 ?s2 (set_ppc 0 PDone (?s2\<lparr>mq := ?q3\<rparr>))" (is "pstep 0 ?s2 ?s3")
    using put_id [of ?s2 0 v ?p ?T] by simp
  then have s3: "mst_inv order ?s3" using s2 n2 by (rule mst_inv_pstep)
  have s4: "mst_inv order (set_ppc 0 PIdle ?s3)" by (rule mst_inv_move [OF s3]) simp_all
  have "set_ppc 0 PIdle ?s3 = \<lparr>mq = ?q3, ppc = (\<lambda>_. PIdle), cpc = CIdle, hist = ys @ (xs @ [v]), taken = ys\<rparr>"
    by (simp add: set_ppc_def fun_eq_iff)
  then have rep: "mq_rep order ?q3 (xs @ [v])" using s4 unfolding mq_rep_def by metis
  have "mpsc_peek ?q3 = Some p" if pk: "mpsc_peek q = Some p" for p
  proof -
    have "mpsc_peek ?q3 \<noteq> None" using mpsc_peek_rep(1) [OF rep] by simp
    moreover have "headPtr (mq_ring ?q3) = headPtr (mq_ring q)"
      by (simp add: headPtr_def commit_def write_data_def q1_def split: option.splits)
    ultimately show ?thesis
      using pk by (auto simp: mpsc_peek_def split: if_splits option.splits)
  qed
  with put rep show "\<exists>q'. mpsc_put v q = Some q' \<and> mq_rep order q' (xs @ [v])
      \<and> (\<forall>p. mpsc_peek q = Some p \<longrightarrow> mpsc_peek q' = Some p)" by blast
qed

subsection \<open>The contract: a bounded queue with an overflow list\<close>

text \<open>
  What a client needs of the queue: values leave in the order they came, \<open>put\<close> fails exactly when
  the queue is full, and it does not move the front node, which the client may be holding.
  \<open>fifo_spill\<close> is the client that keeps what the queue rejects in a list of its own; on the contents
  it is \<open>spill_abs\<close>.
\<close>

definition fifo_spill :: "('a \<Rightarrow> 'q \<Rightarrow> 'q option) \<Rightarrow> 'a \<Rightarrow> 'q \<times> 'a list \<Rightarrow> 'q \<times> 'a list" where
  "fifo_spill put v = (\<lambda>(q, ys). case put v q of Some q' \<Rightarrow> (q', ys) | None \<Rightarrow> (q, ys @ [v]))"

definition spill_abs :: "nat \<Rightarrow> 'a \<Rightarrow> 'a list \<times> 'a list \<Rightarrow> 'a list \<times> 'a list" where
  "spill_abs cap v = (\<lambda>(xs, ys). if length xs < cap then (xs @ [v], ys) else (xs, ys @ [v]))"

locale bounded_fifo =
  fixes rep :: "'q \<Rightarrow> 'a list \<Rightarrow> bool" and cap :: nat and put :: "'a \<Rightarrow> 'q \<Rightarrow> 'q option"
    and front :: "'q \<Rightarrow> nat option" and val :: "nat \<Rightarrow> 'q \<Rightarrow> 'a option" and pop :: "nat \<Rightarrow> 'q \<Rightarrow> 'q"
  assumes put_room: "rep q xs \<Longrightarrow> length xs < cap \<Longrightarrow> \<exists>q'. put v q = Some q' \<and> rep q' (xs @ [v])"
    and put_full: "rep q xs \<Longrightarrow> cap \<le> length xs \<Longrightarrow> put v q = None"
    and put_front: "rep q xs \<Longrightarrow> put v q = Some q' \<Longrightarrow> front q = Some p \<Longrightarrow> front q' = Some p"
    and front_empty: "rep q xs \<Longrightarrow> front q = None \<longleftrightarrow> xs = []"
    and front_val: "rep q xs \<Longrightarrow> front q = Some p \<Longrightarrow> val p q = Some (hd xs)"
    and pop_front: "rep q xs \<Longrightarrow> front q = Some p \<Longrightarrow> rep (pop p q) (tl xs)"
begin

lemma spill_step:
  assumes "rep q xs" and "fifo_spill put v (q, ys) = (q', ys')" and "spill_abs cap v (xs, ys) = (xs', zs')"
  shows "rep q' xs' \<and> ys' = zs' \<and> (\<forall>p. front q = Some p \<longrightarrow> front q' = Some p)"
proof (cases "length xs < cap")
  case True
  with put_room [OF assms(1), of v] obtain q1 where "put v q = Some q1" "rep q1 (xs @ [v])" by blast
  with True assms put_front [OF assms(1)] show ?thesis by (auto simp: fifo_spill_def spill_abs_def)
next
  case False
  with put_full [OF assms(1), of v] assms show ?thesis by (auto simp: fifo_spill_def spill_abs_def)
qed

lemma spill_list:
  assumes "rep q xs" and "fold (fifo_spill put) vs (q, ys) = (q', ys')"
    and "fold (spill_abs cap) vs (xs, ys) = (xs', zs')"
  shows "rep q' xs' \<and> ys' = zs' \<and> (\<forall>p. front q = Some p \<longrightarrow> front q' = Some p)"
  using assms
proof (induction vs arbitrary: q xs ys)
  case Nil
  then show ?case by simp
next
  case (Cons v vs)
  obtain q1 ys1 xs1 zs1 where *: "fifo_spill put v (q, ys) = (q1, ys1)" "spill_abs cap v (xs, ys) = (xs1, zs1)"
    by (metis surj_pair)
  note step = spill_step [OF Cons.prems(1) *]
  with Cons.IH [of q1 xs1 ys1] Cons.prems * show ?case by auto
qed

end

interpretation mq: bounded_fifo "mq_rep order" "ring_slots order" mpsc_put mpsc_peek
    "\<lambda>p q. node_data (mq_mem q p)" consume for order
proof
  fix q q' :: "'a mpsc" and xs :: "'a list" and v :: 'a and p
  assume rep: "mq_rep order q xs"
  show "length xs < ring_slots order \<Longrightarrow> \<exists>q'. mpsc_put v q = Some q' \<and> mq_rep order q' (xs @ [v])"
    using mpsc_put_rep(1) [OF rep] by blast
  show "ring_slots order \<le> length xs \<Longrightarrow> mpsc_put v q = None"
    by (rule mpsc_put_rep(2) [OF rep])
  show "mpsc_put v q = Some q' \<Longrightarrow> mpsc_peek q = Some p \<Longrightarrow> mpsc_peek q' = Some p"
    using mpsc_put_rep [OF rep, of v] by (cases "length xs < ring_slots order") auto
  show "(mpsc_peek q = None) = (xs = [])" by (rule mpsc_peek_rep(1) [OF rep])
  show "mpsc_peek q = Some p \<Longrightarrow> node_data (mq_mem q p) = Some (hd xs)"
    by (rule mpsc_peek_rep(2) [OF rep])
  show "mpsc_peek q = Some p \<Longrightarrow> mq_rep order (consume p q) (tl xs)"
    by (rule mpsc_peek_rep(3) [OF rep])
qed

subsection \<open>A producer that runs alone\<close>

lemma no_wrap_set_ppc:
  "no_wrap s \<Longrightarrow> (\<And>v r w m n. pc = PCas v r w m n \<Longrightarrow> length (hist s) < m + 2 ^ 26) \<Longrightarrow> no_wrap (set_ppc t pc s)"
  unfolding no_wrap_def set_ppc_simps by (metis fun_upd_apply)

lemma reserve_alone:
  assumes reach: "mreach s0 s" and inv: "mst_inv order s" and nw: "no_wrap s" and idle: "ppc s t = PIdle"
    and room: "length (hist s) < heads s + ring_slots order"
  shows "\<exists>q. mreach s0 (set_ppc t (PWrite v (blk order (length (hist s))) (length (hist s)))
    (s\<lparr>mq := q, hist := hist s @ [v]\<rparr>))"
proof -
  let ?T = "length (hist s)" and ?H = "heads s"
  note r = mst_invD(1,2,3) [OF inv]
  have N: "ring_slots order \<le> 2 ^ 25" using r(1) ring_slots_bound by (auto simp: ring_ok_def)
  have HT: "?H \<le> ?T" using heads_le [of s] mst_invD(5) [OF inv] by linarith
  have lim: "?T < ?H + 2 ^ 26" using room N by simp
  let ?s1 = "set_ppc t (PHead v) s"
  let ?s2 = "set_ppc t (PTail v (wn ?H) ?H) ?s1"
  let ?s3 = "set_ppc t (PCas v (wn ?H) (wn ?T) ?H ?T) ?s2"
  have "mstep s ?s1" using enter [of s t v] idle ring_ok_valid [OF r(1)] by (blast intro: producer)
  then have m1: "mreach s0 ?s1" using reach nw by (blast intro: mreach.step)
  have n1: "no_wrap ?s1" by (rule no_wrap_set_ppc [OF nw]) simp
  have "mstep ?s1 ?s2" using load_head [of ?s1 t v] r(2) by (auto intro: producer)
  then have m2: "mreach s0 ?s2" using m1 n1 by (blast intro: mreach.step)
  have n2: "no_wrap ?s2" by (rule no_wrap_set_ppc [OF n1]) simp
  have "mstep ?s2 ?s3" using load_tail [of ?s2 t v "wn ?H" ?H] r(3) by (auto intro: producer)
  then have m3: "mreach s0 ?s3" using m2 n2 by (blast intro: mreach.step)
  have n3: "no_wrap ?s3" by (rule no_wrap_set_ppc [OF n2]) (use lim in simp)
  define q where "q = (mq s)\<lparr>mq_ring := (mq_ring (mq s))\<lparr>ring_tail := wn (Suc ?T)\<rparr>\<rparr>"
  have cas: "cas_tail (wn ?T) (mq s) = Some q" using r(3) by (simp add: cas_tail_def q_def wn_Suc)
  have ptr: "getPointer (mq_ring q) (wn ?T) = Some (blk order ?T)"
    using getPointer_wn [of order "mq_ring q" ?T] r(1) by (simp add: q_def ring_ok_def)
  have "\<not> reserve_full (mq s) (wn ?H) (wn ?T)"
    using reserve_full_wn [OF r(1) HT lim] room by simp
  then have "mstep ?s3 (set_ppc t (PWrite v (blk order ?T) ?T) (?s3\<lparr>mq := q, hist := hist s @ [v]\<rparr>))"
    using cas_ok [of ?s3 t v "wn ?H" "wn ?T" ?H ?T q "blk order ?T"] cas ptr by (auto intro: producer)
  then have "mreach s0 (set_ppc t (PWrite v (blk order ?T) ?T) (?s3\<lparr>mq := q, hist := hist s @ [v]\<rparr>))"
    using m3 n3 by (blast intro: mreach.step)
  moreover have "set_ppc t (PWrite v (blk order ?T) ?T) (?s3\<lparr>mq := q, hist := hist s @ [v]\<rparr>)
      = set_ppc t (PWrite v (blk order ?T) ?T) (s\<lparr>mq := q, hist := hist s @ [v]\<rparr>)"
    by (simp add: set_ppc_def)
  ultimately show ?thesis by auto
qed

lemma mst_inv_reachable:
  assumes "ring_order_ok order" and "isValid (MpscQueue_new os order :: 'a mpsc)"
    and "mreach (mst_init os order :: 'a mst) s"
  shows "mst_inv order s"
  using mst_inv_mreach [OF assms(3)] mst_inv_init [OF assms(1,2)] by blast

subsection \<open>Properties\<close>

fun node_of :: "'a ppc \<Rightarrow> nat option" where
  "node_of (PWrite v p k) = Some p"
| "node_of (PCommit v p k) = Some p"
| "node_of _ = None"



lemma example_queue:
  "ring_order_ok 16" "isValid (MpscQueue_new example_os 16 :: 'a mpsc)"
  by (simp_all add: ring_order_ok_def isValid_def MpscQueue_new_def ring_isValid_def CircularBuffer_new_def
      createBufferMirror_def example_os_def Let_def)

text \<open>Two producers that have reserved a node each.\<close>

lemma two_reserved:
  "\<exists>s. mreach (mst_init example_os 16 :: nat mst) s \<and> ppc s 1 = PWrite 7 0 0 \<and> ppc s 2 = PWrite 8 64 1"
proof -
  let ?s0 = "mst_init example_os 16 :: nat mst"
  have slots: "ring_slots 16 = 1024" by (simp add: ring_slots_def)
  note inv0 = mst_inv_init [OF example_queue, where 'a = nat]
  obtain q1 where r1: "mreach ?s0 (set_ppc 1 (PWrite 7 (blk 16 0) 0) (?s0\<lparr>mq := q1, hist := [7]\<rparr>))"
    (is "mreach ?s0 ?s1")
    using reserve_alone [OF mreach.start inv0, of 1 7]
    by (auto simp: mst_init_def no_wrap_def heads_def slots)
  note inv1 = mst_inv_mreach [OF r1 inv0]
  obtain q2 where r2: "mreach ?s0 (set_ppc 2 (PWrite 8 (blk 16 1) 1) (?s1\<lparr>mq := q2, hist := [7, 8]\<rparr>))"
    using reserve_alone [OF r1 inv1, of 2 8]
    by (auto simp: mst_init_def no_wrap_def heads_def slots)
  then show ?thesis by (intro exI conjI) (assumption, auto simp: blk_def slots)
qed



end
