(* ===== verification/Timers.thy ===== *)
theory Timers
  imports Prelude "HOL-Library.Product_Lexorder" "HOL-Library.Signed_Division"
begin

text \<open>
  Timers: \<open>include/hvnetpp/Timer.h\<close>, \<open>TimerId.h\<close>, \<open>TimerQueue.h\<close>, \<open>src/Timer.cpp\<close> and
  \<open>src/TimerQueue.cpp\<close>.

  A \<open>Timestamp\<close> is a point of \<open>std::chrono::steady_clock\<close>, an \<open>int\<close> counting nanoseconds, a
  \<open>TimeDelta\<close> an \<open>int\<close> counting microseconds; \<open>duration_cast\<close> to a coarser unit truncates towards
  zero (\<open>sdiv\<close>). The \<open>Timer\<close> objects live in a store \<open>tq_heap\<close> from addresses to records; \<open>delete\<close>
  removes an address and a later \<open>new\<close> may return it again. Every dereference goes through the
  store, so a dangling pointer is a fault of the model. Both \<open>std::set\<close>s are strictly sorted
  lists. The clock readings are arguments. User callbacks are a parameter that says which calls
  of the timer interface a callback makes.

  \<open>tq_timerfd\<close> is the last setting given to \<open>timerfd_settime\<close>, with the time of the call: \<open>None\<close>
  when disarmed or when the one-shot setting has fired.
\<close>

subsection \<open>Timer\<close>

type_synonym timestamp = int
type_synonym timedelta = int

definition us_to_ns :: "timedelta \<Rightarrow> int" where "us_to_ns d = d * 1000"
definition ns_to_us :: "int \<Rightarrow> timedelta" where "ns_to_us d = d sdiv 1000"

record 'cb timer =
  callback :: 'cb
  expiration :: timestamp
  interval :: timedelta
  repeat :: bool
  sequence :: int

definition Timer_new :: "'cb \<Rightarrow> timestamp \<Rightarrow> timedelta \<Rightarrow> int \<Rightarrow> 'cb timer" where
  "Timer_new cb when itv numCreated =
     \<lparr>callback = cb, expiration = when, interval = itv, repeat = (0 < itv), sequence = numCreated + 1\<rparr>"

definition restart :: "timestamp \<Rightarrow> 'cb timer \<Rightarrow> 'cb timer" where
  "restart now t =
     (if repeat t then
        (if 0 < interval t then
           let e = expiration t + us_to_ns (interval t) in
           if e \<le> now then
             let overdue = ns_to_us (now - e); skipped = overdue sdiv interval t + 1
             in t\<lparr>expiration := e + us_to_ns (interval t * skipped)\<rparr>
           else t\<lparr>expiration := e\<rparr>
         else t\<lparr>expiration := now\<rparr>)
      else t\<lparr>expiration := 0\<rparr>)"

record timer_id =
  tid_timer :: ptr
  tid_sequence :: int

definition TimerId_default :: timer_id where
  "TimerId_default = \<lparr>tid_timer = 0, tid_sequence = 0\<rparr>"

definition TimerId_valid :: "timer_id \<Rightarrow> bool" where
  "TimerId_valid i \<longleftrightarrow> tid_timer i \<noteq> 0"

subsection \<open>The timer descriptor\<close>

record timespec =
  tv_sec :: int
  tv_nsec :: int

definition howMuchTimeFromNow :: "timestamp \<Rightarrow> timestamp \<Rightarrow> timespec" where
  "howMuchTimeFromNow now when =
     (let us = ns_to_us (when - now); us' = (if us < 100 then 100 else us)
      in \<lparr>tv_sec = us' sdiv 1000000, tv_nsec = (us' smod 1000000) * 1000\<rparr>)"

definition timespec_ns :: "timespec \<Rightarrow> int" where
  "timespec_ns ts = tv_sec ts * 1000000000 + tv_nsec ts"

subsection \<open>TimerQueue\<close>

type_synonym entry = "timestamp \<times> ptr"
type_synonym active_timer = "ptr \<times> int"

record 'cb tq =
  tq_heap :: "ptr \<rightharpoonup> 'cb timer"
  numCreated :: int
  timers :: "entry list"
  activeTimers :: "active_timer list"
  callingExpiredTimers :: bool
  cancelingTimers :: "active_timer list"
  tq_timerfd :: "(timestamp \<times> timespec) option"

definition TimerQueue_new :: "'cb tq" where
  "TimerQueue_new = \<lparr>tq_heap = Map.empty, numCreated = 0, timers = [], activeTimers = [],
     callingExpiredTimers = False, cancelingTimers = [], tq_timerfd = None\<rparr>"

definition UINTPTR_MAX :: nat where "UINTPTR_MAX = 18446744073709551615"

definition set_insert :: "'a::linorder \<Rightarrow> 'a list \<Rightarrow> 'a list" where
  "set_insert x xs = (if x \<in> set xs then xs else insort x xs)"

definition resetTimerfd :: "timestamp \<Rightarrow> timestamp \<Rightarrow> 'cb tq \<Rightarrow> 'cb tq" where
  "resetTimerfd now e q = q\<lparr>tq_timerfd := Some (now, howMuchTimeFromNow now e)\<rparr>"

definition disarmTimerfd :: "'cb tq \<Rightarrow> 'cb tq" where
  "disarmTimerfd q = q\<lparr>tq_timerfd := None\<rparr>"

definition sizes_agree :: "'cb tq \<Rightarrow> bool" where
  "sizes_agree q \<longleftrightarrow> length (timers q) = length (activeTimers q)"

text \<open>\<open>il\<close> is the value of \<open>isInLoopThread()\<close> for the calling thread.\<close>

definition tq_insert :: "bool \<Rightarrow> ptr \<Rightarrow> 'cb tq \<Rightarrow> (bool \<times> 'cb tq) res" where
  "tq_insert il p q =
     checkR Aborted il
       (assertR (sizes_agree q)
         (derefR (tq_heap q p) (\<lambda>t.
            let when = expiration t;
                earliestChanged = (case timers q of [] \<Rightarrow> True | (e, _) # _ \<Rightarrow> when < e)
            in assertR ((when, p) \<notin> set (timers q))
                 (assertR ((p, sequence t) \<notin> set (activeTimers q))
                   (let q' = q\<lparr>timers := set_insert (when, p) (timers q),
                               activeTimers := set_insert (p, sequence t) (activeTimers q)\<rparr>
                    in assertR (sizes_agree q') (Inr (earliestChanged, q')))))))"

definition addTimerInLoop :: "bool \<Rightarrow> timestamp \<Rightarrow> ptr \<Rightarrow> 'cb tq \<Rightarrow> 'cb tq res" where
  "addTimerInLoop il now p q =
     checkR Aborted il
       (bindR (tq_insert il p q) (\<lambda>(earliestChanged, q').
          if earliestChanged
          then derefR (tq_heap q' p) (\<lambda>t. Inr (resetTimerfd now (expiration t) q'))
          else Inr q'))"

definition cancelInLoop :: "bool \<Rightarrow> timestamp \<Rightarrow> timer_id \<Rightarrow> 'cb tq \<Rightarrow> 'cb tq res" where
  "cancelInLoop il now i q =
     checkR Aborted il
       (assertR (sizes_agree q)
         (let p = tid_timer i; timer = (p, tid_sequence i) in
          if timer \<in> set (activeTimers q) then
            let earliestChanged = (case timers q of [] \<Rightarrow> False | (_, p0) # _ \<Rightarrow> p0 = p) in
            derefR (tq_heap q p) (\<lambda>t.
              assertR ((expiration t, p) \<in> set (timers q))
                (let q' = q\<lparr>timers := remove1 (expiration t, p) (timers q),
                            tq_heap := (tq_heap q)(p := None),
                            activeTimers := remove1 timer (activeTimers q)\<rparr>
                 in if earliestChanged
                    then (case timers q' of
                            (_, p1) # _ \<Rightarrow>
                              derefR (tq_heap q' p1) (\<lambda>t1. Inr (resetTimerfd now (expiration t1) q'))
                          | [] \<Rightarrow> Inr (disarmTimerfd q'))
                    else Inr q'))
          else if callingExpiredTimers q
          then Inr (q\<lparr>cancelingTimers := set_insert timer (cancelingTimers q)\<rparr>)
          else Inr q))"

definition eraseActive :: "entry \<Rightarrow> 'cb tq \<Rightarrow> 'cb tq res" where
  "eraseActive = (\<lambda>(_, p) q. derefR (tq_heap q p) (\<lambda>t.
     assertR ((p, sequence t) \<in> set (activeTimers q))
       (Inr (q\<lparr>activeTimers := remove1 (p, sequence t) (activeTimers q)\<rparr>))))"

definition getExpired :: "timestamp \<Rightarrow> 'cb tq \<Rightarrow> (entry list \<times> 'cb tq) res" where
  "getExpired now q =
     (let sentry = (now, UINTPTR_MAX);
          expired = takeWhile (\<lambda>e. e < sentry) (timers q);
          q' = q\<lparr>timers := dropWhile (\<lambda>e. e < sentry) (timers q)\<rparr>
      in bindR (foldR eraseActive expired q') (\<lambda>q''. Inr (expired, q'')))"

definition resetEntry :: "bool \<Rightarrow> timestamp \<Rightarrow> entry \<Rightarrow> 'cb tq \<Rightarrow> 'cb tq res" where
  "resetEntry il now = (\<lambda>(_, p) q. derefR (tq_heap q p) (\<lambda>t.
     if repeat t \<and> (p, sequence t) \<notin> set (cancelingTimers q)
     then bindR (tq_insert il p (q\<lparr>tq_heap := (tq_heap q)(p \<mapsto> restart now t)\<rparr>)) (\<lambda>(_, q'). Inr q')
     else Inr (q\<lparr>tq_heap := (tq_heap q)(p := None)\<rparr>)))"

definition reset :: "bool \<Rightarrow> timestamp \<Rightarrow> timestamp \<Rightarrow> entry list \<Rightarrow> 'cb tq \<Rightarrow> 'cb tq res" where
  "reset il now now' expired q =
     bindR (foldR (resetEntry il now) expired q) (\<lambda>q'.
       case timers q' of
         [] \<Rightarrow> Inr q'
       | (_, p) # _ \<Rightarrow> derefR (tq_heap q' p) (\<lambda>t.
           let nextExpire = expiration t
           in if nextExpire \<noteq> 0 then Inr (resetTimerfd now' nextExpire q') else Inr q'))"

definition runTimer :: "('cb \<Rightarrow> 'cb tq \<Rightarrow> 'cb tq res) \<Rightarrow> entry \<Rightarrow> 'cb tq \<Rightarrow> 'cb tq res" where
  "runTimer exec = (\<lambda>(_, p) q. derefR (tq_heap q p) (\<lambda>t. exec (callback t) q))"

text \<open>
  \<open>handleRead\<close>: the descriptor became readable, so its one-shot setting is used up; \<open>now\<close> is the
  clock reading at its start, \<open>now'\<close> the one taken when the descriptor is set again.
\<close>

definition handleRead :: "('cb \<Rightarrow> 'cb tq \<Rightarrow> 'cb tq res) \<Rightarrow> bool \<Rightarrow> timestamp \<Rightarrow> timestamp \<Rightarrow> 'cb tq \<Rightarrow> 'cb tq res"
where
  "handleRead exec il now now' q =
     checkR Aborted il
       (bindR (getExpired now (disarmTimerfd q)) (\<lambda>(expired, q1).
          bindR (foldR (runTimer exec) expired
                   (q1\<lparr>callingExpiredTimers := True, cancelingTimers := []\<rparr>)) (\<lambda>q2.
            reset il now now' expired (q2\<lparr>callingExpiredTimers := False\<rparr>))))"

text \<open>
  \<open>addTimer\<close> on the loop thread, where \<open>runInLoop\<close> calls \<open>addTimerInLoop\<close> directly. \<open>p\<close> is the address
  that \<open>new Timer\<close> returns; without a free address \<open>new\<close> throws.
\<close>

definition fresh_timer :: "ptr \<Rightarrow> 'cb tq \<Rightarrow> bool" where
  "fresh_timer p q \<longleftrightarrow> tq_heap q p = None \<and> p \<noteq> 0 \<and> p < UINTPTR_MAX"

definition new_timer :: "ptr \<Rightarrow> 'cb \<Rightarrow> timestamp \<Rightarrow> timedelta \<Rightarrow> 'cb tq \<Rightarrow> 'cb tq res" where
  "new_timer p cb when itv q =
     checkR OutOfMemory (fresh_timer p q)
       (Inr (q\<lparr>tq_heap := (tq_heap q)(p \<mapsto> Timer_new cb when itv (numCreated q)),
               numCreated := numCreated q + 1\<rparr>))"

definition timer_id_of :: "ptr \<Rightarrow> 'cb tq \<Rightarrow> timer_id res" where
  "timer_id_of p q = derefR (tq_heap q p) (\<lambda>t. Inr \<lparr>tid_timer = p, tid_sequence = sequence t\<rparr>)"

definition addTimer_inLoop ::
  "timestamp \<Rightarrow> ptr \<Rightarrow> 'cb \<Rightarrow> timestamp \<Rightarrow> timedelta \<Rightarrow> 'cb tq \<Rightarrow> (timer_id \<times> 'cb tq) res" where
  "addTimer_inLoop now p cb when itv q =
     bindR (new_timer p cb when itv q) (\<lambda>q1.
       bindR (addTimerInLoop True now p q1) (\<lambda>q2.
         bindR (timer_id_of p q2) (\<lambda>i. Inr (i, q2))))"

text \<open>\<open>~TimerQueue\<close> deletes the timers that are still scheduled.\<close>

definition TimerQueue_destroy :: "'cb tq \<Rightarrow> 'cb tq" where
  "TimerQueue_destroy q = q\<lparr>tq_heap := (tq_heap q) |` (- snd ` set (timers q))\<rparr>"

subsection \<open>Runs\<close>

text \<open>The calls a callback, or other code on the loop thread, can make, and the events of a run.\<close>

datatype 'cb tq_op =
    OpAdd timestamp ptr 'cb timestamp timedelta
  | OpCancel timestamp timer_id

fun tq_api :: "'cb tq_op \<Rightarrow> 'cb tq \<Rightarrow> 'cb tq res" where
  "tq_api (OpAdd now p cb when itv) q = bindR (addTimer_inLoop now p cb when itv q) (\<lambda>(_, q'). Inr q')"
| "tq_api (OpCancel now i) q = cancelInLoop True now i q"

type_synonym 'cb reactions = "'cb \<Rightarrow> 'cb tq \<Rightarrow> 'cb tq_op list"

definition exec_callback :: "'cb reactions \<Rightarrow> 'cb \<Rightarrow> 'cb tq \<Rightarrow> 'cb tq res" where
  "exec_callback usr cb q = foldR tq_api (usr cb q) q"

text \<open>
  The events of a run on the loop thread. \<open>Create\<close> is the first half of \<open>addTimer\<close> called by another
  thread, which constructs the timer itself; \<open>Insert\<close> is the functor it queued, run by the loop.
\<close>

datatype 'cb tq_event =
    Api "'cb tq_op"
  | Create ptr 'cb timestamp timedelta
  | Insert timestamp ptr
  | Fire timestamp timestamp

fun tq_step :: "'cb reactions \<Rightarrow> 'cb tq_event \<Rightarrow> 'cb tq \<Rightarrow> 'cb tq res" where
  "tq_step usr (Api op) q = tq_api op q"
| "tq_step usr (Create p cb when itv) q = new_timer p cb when itv q"
| "tq_step usr (Insert now p) q = addTimerInLoop True now p q"
| "tq_step usr (Fire now now') q = handleRead (exec_callback usr) True now now' q"

text \<open>
  The timers created by other threads whose functor has not run: each functor runs once, after the
  creation. The clock counts from boot, so a reading is not negative.
\<close>

fun tq_pending :: "'cb tq_event list \<Rightarrow> ptr list \<Rightarrow> ptr list option" where
  "tq_pending [] P = Some P"
| "tq_pending (Api op # evs) P = tq_pending evs P"
| "tq_pending (Create p cb when itv # evs) P = tq_pending evs (p # P)"
| "tq_pending (Insert now p # evs) P = (if p \<in> set P then tq_pending evs (remove1 p P) else None)"
| "tq_pending (Fire now now' # evs) P = (if 0 \<le> now then tq_pending evs P else None)"

subsection \<open>Restarting a timer\<close>

lemma sdiv_nonneg_eq_div: "0 \<le> a \<Longrightarrow> 0 < b \<Longrightarrow> (a::int) sdiv b = a div b"
  by (auto simp: signed_divide_int_def sgn_if)

lemma smod_nonneg_eq_mod: "0 \<le> a \<Longrightarrow> 0 < b \<Longrightarrow> (a::int) smod b = a mod b"
  by (cases "a = 0") (simp_all add: signed_modulo_int_def)

lemma restart_simps [simp]:
  "callback (restart now t) = callback t"
  "interval (restart now t) = interval t"
  "repeat (restart now t) = repeat t"
  "sequence (restart now t) = sequence t"
  by (simp_all add: restart_def Let_def)

text \<open>The number of whole periods that brings an overdue time past \<open>now\<close>.\<close>

lemma skip_periods:
  fixes i d :: int
  assumes i: "0 < i" and d: "0 \<le> d"
  defines "k \<equiv> (d div 1000) div i + 1"
  shows "d < 1000 * (i * k)" and "1000 * (i * k) \<le> d + 1000 * i"
proof -
  have "i * ((d div 1000) div i) \<le> d div 1000" and "d div 1000 < i * ((d div 1000) div i) + i"
    using i by (auto simp: minus_mod_eq_mult_div [symmetric] pos_mod_bound)
  moreover have "1000 * (d div 1000) \<le> d" and "d < 1000 * (d div 1000) + 1000"
    by auto
  ultimately show "d < 1000 * (i * k)" and "1000 * (i * k) \<le> d + 1000 * i"
    by (auto simp: k_def distrib_left)
qed

lemma restart_expiration:
  fixes now :: timestamp
  assumes "repeat t" and i: "0 < interval t"
  defines "e \<equiv> expiration (restart now t)"
  shows "e \<le> max (expiration t) now + us_to_ns (interval t)"
    and "\<exists>k>0. e = expiration t + us_to_ns (interval t) * k"
    and "now < e"
proof -
  let ?n = "expiration t + us_to_ns (interval t)"
  have "now < e \<and> e \<le> max (expiration t) now + us_to_ns (interval t)
      \<and> (\<exists>k>0. e = expiration t + us_to_ns (interval t) * k)"
  proof (cases "?n \<le> now")
    case True
    let ?k = "((now - ?n) div 1000) div interval t + 1"
    have e: "e = ?n + us_to_ns (interval t * ?k)"
      using assms True by (simp add: restart_def Let_def ns_to_us_def sdiv_nonneg_eq_div pos_imp_zdiv_nonneg_iff)
    have "0 < ?k" using True i by (simp add: pos_imp_zdiv_nonneg_iff)
    then have "\<exists>k>0. e = expiration t + us_to_ns (interval t) * k"
      unfolding e by (intro exI [of _ "?k + 1"]) (simp add: us_to_ns_def algebra_simps)
    moreover have "now < e" "e \<le> now + us_to_ns (interval t)"
      using skip_periods [OF i, of "now - ?n"] True by (auto simp: e us_to_ns_def)
    ultimately show ?thesis using True by auto
  next
    case False
    then have "e = ?n" using assms by (simp add: restart_def Let_def)
    with False show ?thesis by (auto intro!: exI [of _ 1])
  qed
  then show "e \<le> max (expiration t) now + us_to_ns (interval t)"
      "\<exists>k>0. e = expiration t + us_to_ns (interval t) * k" "now < e"
    by auto
qed

lemma howMuchTimeFromNow_ns:
  "timespec_ns (howMuchTimeFromNow now e) = max 100 (ns_to_us (e - now)) * 1000"
proof -
  define us where "us = max 100 (ns_to_us (e - now))"
  have "timespec_ns (howMuchTimeFromNow now e)
      = us sdiv 1000000 * 1000000000 + us smod 1000000 * 1000"
    by (simp add: timespec_ns_def howMuchTimeFromNow_def Let_def us_def max_def)
  also have "\<dots> = (us div 1000000 * 1000000 + us mod 1000000) * 1000"
  proof -
    have "us sdiv 1000000 = us div 1000000" and "us smod 1000000 = us mod 1000000"
      by (simp_all add: us_def sdiv_nonneg_eq_div smod_nonneg_eq_mod)
    then show ?thesis by (simp only: distrib_right mult.assoc)
  qed
  also have "\<dots> = us * 1000" by (simp only: div_mult_mod_eq)
  finally show ?thesis by (simp add: us_def)
qed

lemma ns_to_us_bounds:
  "0 \<le> d \<Longrightarrow> ns_to_us d * 1000 \<le> d \<and> d < ns_to_us d * 1000 + 1000"
  "d < 0 \<Longrightarrow> ns_to_us d \<le> 0"
  by (auto simp: ns_to_us_def sdiv_nonneg_eq_div signed_divide_int_def sgn_if pos_imp_zdiv_nonneg_iff)

lemma fires_in_time:
  "now + timespec_ns (howMuchTimeFromNow now e) \<le> max e (now + 100000)"
  "e - 1000 < now + timespec_ns (howMuchTimeFromNow now e)"
proof -
  show "now + timespec_ns (howMuchTimeFromNow now e) \<le> max e (now + 100000)"
    using ns_to_us_bounds [of "e - now"]
    by (cases "now \<le> e"; cases "100 \<le> ns_to_us (e - now)") (auto simp: howMuchTimeFromNow_ns)
  show "e - 1000 < now + timespec_ns (howMuchTimeFromNow now e)"
    using ns_to_us_bounds [of "e - now"]
    by (cases "now \<le> e"; cases "100 \<le> ns_to_us (e - now)") (auto simp: howMuchTimeFromNow_ns)
qed

subsection \<open>The invariant\<close>

text \<open>
  \<open>X\<close> is a set of timers that are alive but not scheduled: the expired ones while their callbacks
  run, and those created by another thread that the loop has not inserted yet.
\<close>

definition active_of :: "(ptr \<rightharpoonup> 'cb timer) \<Rightarrow> entry \<Rightarrow> active_timer" where
  "active_of h = (\<lambda>(_, p). (p, sequence (the (h p))))"

definition tq_inv :: "ptr set \<Rightarrow> 'cb tq \<Rightarrow> bool" where
  "tq_inv X q \<longleftrightarrow>
     sorted (timers q) \<and> distinct (timers q) \<and> inj_on snd (set (timers q))
     \<and> distinct (activeTimers q)
     \<and> (\<forall>(e, p) \<in> set (timers q). \<exists>t. tq_heap q p = Some t \<and> expiration t = e)
     \<and> set (activeTimers q) = active_of (tq_heap q) ` set (timers q)
     \<and> (\<forall>p t. tq_heap q p = Some t \<longrightarrow> p \<noteq> 0 \<and> p < UINTPTR_MAX \<and> sequence t \<le> numCreated q
          \<and> repeat t = (0 < interval t))
     \<and> dom (tq_heap q) = X \<union> snd ` set (timers q) \<and> X \<inter> snd ` set (timers q) = {}"

lemma tq_inv_new: "tq_inv {} TimerQueue_new"
  by (simp add: tq_inv_def TimerQueue_new_def)

text \<open>The fields that the sets and the store do not depend on.\<close>

lemma tq_inv_frame [simp]:
  "tq_inv X (q\<lparr>tq_timerfd := f\<rparr>) = tq_inv X q"
  "tq_inv X (q\<lparr>callingExpiredTimers := b\<rparr>) = tq_inv X q"
  "tq_inv X (q\<lparr>cancelingTimers := c\<rparr>) = tq_inv X q"
  "tq_inv X (resetTimerfd now e q) = tq_inv X q"
  "tq_inv X (disarmTimerfd q) = tq_inv X q"
  by (simp_all add: tq_inv_def resetTimerfd_def disarmTimerfd_def)

lemma timerfd_frame [simp]:
  "timers (resetTimerfd now e q) = timers q" "timers (disarmTimerfd q) = timers q"
  "tq_heap (resetTimerfd now e q) = tq_heap q" "tq_heap (disarmTimerfd q) = tq_heap q"
  "activeTimers (resetTimerfd now e q) = activeTimers q" "activeTimers (disarmTimerfd q) = activeTimers q"
  "cancelingTimers (resetTimerfd now e q) = cancelingTimers q"
  "cancelingTimers (disarmTimerfd q) = cancelingTimers q"
  "callingExpiredTimers (resetTimerfd now e q) = callingExpiredTimers q"
  "callingExpiredTimers (disarmTimerfd q) = callingExpiredTimers q"
  "numCreated (resetTimerfd now e q) = numCreated q" "numCreated (disarmTimerfd q) = numCreated q"
  "tq_timerfd (resetTimerfd now e q) = Some (now, howMuchTimeFromNow now e)"
  "tq_timerfd (disarmTimerfd q) = None"
  by (simp_all add: resetTimerfd_def disarmTimerfd_def)

lemma active_of_inj: "inj_on snd E \<Longrightarrow> inj_on (active_of h) E"
  by (fastforce simp: inj_on_def active_of_def)

lemma active_of_upd: "p \<notin> snd ` E \<Longrightarrow> active_of (h(p := x)) ` E = active_of h ` E"
  by (force simp: active_of_def)

lemma tq_inv_sizes: "tq_inv X q \<Longrightarrow> sizes_agree q"
  using active_of_inj [of "set (timers q)" "tq_heap q"]
  by (metis (no_types, lifting) card_image distinct_card sizes_agree_def tq_inv_def)

lemma tq_inv_entry:
  assumes "tq_inv X q" and "(e, p) \<in> set (timers q)"
  shows "\<exists>t. tq_heap q p = Some t \<and> expiration t = e \<and> (p, sequence t) \<in> set (activeTimers q)"
proof -
  from assms obtain t where t: "tq_heap q p = Some t" "expiration t = e"
    by (auto simp: tq_inv_def)
  moreover have "active_of (tq_heap q) (e, p) \<in> set (activeTimers q)"
    using assms by (auto simp: tq_inv_def)
  ultimately show ?thesis by (auto simp: active_of_def)
qed

lemma tq_inv_active:
  assumes "tq_inv X q" and "(p, s) \<in> set (activeTimers q)"
  shows "\<exists>t. tq_heap q p = Some t \<and> sequence t = s \<and> (expiration t, p) \<in> set (timers q)"
proof -
  from assms obtain e where e: "(e, p) \<in> set (timers q)" and s: "s = sequence (the (tq_heap q p))"
    by (auto simp: tq_inv_def active_of_def)
  from tq_inv_entry [OF assms(1) e] s e show ?thesis by auto
qed

lemma tq_inv_detached:
  assumes "tq_inv X q" and "p \<in> X"
  shows "(e, p) \<notin> set (timers q)" and "(p, s) \<notin> set (activeTimers q)"
proof -
  have p: "p \<notin> snd ` set (timers q)" using assms by (auto simp: tq_inv_def)
  then show *: "(e, p) \<notin> set (timers q)" for e by force
  show "(p, s) \<notin> set (activeTimers q)"
    using tq_inv_active [OF assms(1)] * by blast
qed

lemma tq_inv_live: "tq_inv X q \<Longrightarrow> p \<in> X \<Longrightarrow> \<exists>t. tq_heap q p = Some t"
  unfolding tq_inv_def by blast

lemma tq_inv_heap:
  "tq_inv X q \<Longrightarrow> tq_heap q p = Some t \<Longrightarrow> p \<noteq> 0 \<and> p < UINTPTR_MAX \<and> sequence t \<le> numCreated q
     \<and> repeat t = (0 < interval t)"
  by (simp add: tq_inv_def)

lemma set_set_insert [simp]: "set (set_insert x xs) = insert x (set xs)"
  by (auto simp: set_insert_def set_insort_key)

lemma sorted_set_insert: "sorted xs \<Longrightarrow> sorted (set_insert x xs)"
  by (simp add: set_insert_def sorted_insort)

lemma distinct_set_insert: "distinct xs \<Longrightarrow> distinct (set_insert x xs)"
  by (simp add: set_insert_def distinct_insort)

lemma tq_inv_insert:
  assumes inv: "tq_inv X q" and p: "p \<in> X" and t: "tq_heap q p = Some t"
    and q': "q' = q\<lparr>timers := set_insert (expiration t, p) (timers q),
                   activeTimers := set_insert (p, sequence t) (activeTimers q)\<rparr>"
  shows "tq_inv (X - {p}) q'"
proof -
  have p': "p \<notin> snd ` set (timers q)" using inv p by (auto simp: tq_inv_def)
  then have "inj_on snd (insert (expiration t, p) (set (timers q)))"
    using inv by (simp add: tq_inv_def inj_on_insert) auto
  with inv t p' show ?thesis
    by (auto simp: q' tq_inv_def sorted_set_insert distinct_set_insert active_of_def)
qed

lemma tq_insert_spec:
  assumes inv: "tq_inv X q" and p: "p \<in> X" and t: "tq_heap q p = Some t"
  shows "tq_insert True p q = Inr
     (timers q = [] \<or> expiration t < fst (hd (timers q)),
      q\<lparr>timers := insort (expiration t, p) (timers q),
        activeTimers := set_insert (p, sequence t) (activeTimers q)\<rparr>)"
proof -
  have ins: "set_insert (expiration t, p) (timers q) = insort (expiration t, p) (timers q)"
    using tq_inv_detached [OF inv p] by (simp add: set_insert_def)
  have "sizes_agree (q\<lparr>timers := insort (expiration t, p) (timers q),
                   activeTimers := set_insert (p, sequence t) (activeTimers q)\<rparr>)"
    using tq_inv_sizes [OF tq_inv_insert [OF inv p t refl]] by (simp add: ins)
  moreover have "(case timers q of [] \<Rightarrow> True | (e, _) # _ \<Rightarrow> expiration t < e)
      = (timers q = [] \<or> expiration t < fst (hd (timers q)))"
    by (cases "timers q") auto
  ultimately show ?thesis
    using tq_inv_sizes [OF inv] tq_inv_detached [OF inv p] t
    by (simp add: tq_insert_def Let_def ins)
qed

lemma tq_inv_insort:
  assumes inv: "tq_inv X q" and p: "p \<in> X" and t: "tq_heap q p = Some t"
  shows "tq_inv (X - {p}) (q\<lparr>timers := insort (expiration t, p) (timers q),
        activeTimers := set_insert (p, sequence t) (activeTimers q)\<rparr>)"
  using tq_inv_insert [OF assms refl] tq_inv_detached [OF inv p] by (simp add: set_insert_def)

lemma tq_inv_new_timer:
  assumes "tq_inv X q" and "new_timer p cb when itv q = Inr q'"
  shows "tq_inv (insert p X) q'" and "tq_heap q' p = Some (Timer_new cb when itv (numCreated q))"
proof -
  have fresh: "fresh_timer p q" and q': "q' = q\<lparr>tq_heap := (tq_heap q)(p \<mapsto> Timer_new cb when itv (numCreated q)),
      numCreated := numCreated q + 1\<rparr>"
    using assms(2) by (auto simp: new_timer_def checkR_eq_Inr)
  have p: "p \<notin> snd ` set (timers q)"
    using assms(1) fresh by (force simp: tq_inv_def fresh_timer_def)
  have "sequence t \<le> numCreated q + 1" if "tq_heap q p' = Some t" for p' t
    using tq_inv_heap [OF assms(1) that] by simp
  with assms(1) fresh p show "tq_inv (insert p X) q'"
    by (auto simp: q' tq_inv_def active_of_upd fresh_timer_def Timer_new_def)
  show "tq_heap q' p = Some (Timer_new cb when itv (numCreated q))" by (simp add: q')
qed

subsection \<open>The descriptor is set for the earliest timer\<close>

text \<open>
  \<open>armed_for\<close>: when a timer is scheduled, the descriptor is set to fire no later than the earliest
  expiration (or 100 microseconds after the call that set it, the least delay the code uses).
  While \<open>handleRead\<close> runs callbacks the weaker \<open>armed_or_late\<close> holds: the descriptor may be unset
  as long as the earliest timer is still in the future.
\<close>

definition armed_until :: "timestamp \<Rightarrow> 'cb tq \<Rightarrow> bool" where
  "armed_until e q \<longleftrightarrow> (case tq_timerfd q of None \<Rightarrow> False
     | Some (a, ts) \<Rightarrow> a + timespec_ns ts \<le> max e (a + 100000))"

definition armed_for :: "'cb tq \<Rightarrow> bool" where
  "armed_for q \<longleftrightarrow> (case timers q of [] \<Rightarrow> True | (e, _) # _ \<Rightarrow> armed_until e q)"

definition armed_or_late :: "timestamp \<Rightarrow> 'cb tq \<Rightarrow> bool" where
  "armed_or_late now q \<longleftrightarrow> (case timers q of [] \<Rightarrow> True | (e, _) # _ \<Rightarrow> armed_until e q \<or> now < e)"

lemma armed_until_reset [simp]: "armed_until e (resetTimerfd now e q)"
  using fires_in_time(1) by (simp add: armed_until_def)

lemma armed_until_upd [simp]:
  "armed_until e (q\<lparr>tq_heap := h\<rparr>) = armed_until e q"
  "armed_until e (q\<lparr>numCreated := k\<rparr>) = armed_until e q"
  "armed_until e (q\<lparr>timers := ts\<rparr>) = armed_until e q"
  "armed_until e (q\<lparr>activeTimers := as\<rparr>) = armed_until e q"
  "armed_until e (q\<lparr>callingExpiredTimers := b\<rparr>) = armed_until e q"
  "armed_until e (q\<lparr>cancelingTimers := cs\<rparr>) = armed_until e q"
  by (simp_all add: armed_until_def)

lemma armed_until_frame:
  "tq_timerfd q' = tq_timerfd q \<Longrightarrow> armed_until e q' = armed_until e q"
  by (simp add: armed_until_def)

lemma armed_reset:
  "timers q' = (e, p) # ts \<Longrightarrow> armed_for (resetTimerfd now e q') \<and> armed_or_late n (resetTimerfd now e q')"
  by (simp add: armed_for_def armed_or_late_def)

lemma armed_same_head:
  assumes "tq_timerfd q' = tq_timerfd q"
    and "timers q \<noteq> [] \<and> timers q' \<noteq> [] \<and> fst (hd (timers q')) = fst (hd (timers q))"
  shows "armed_for q' = armed_for q \<and> armed_or_late n q' = armed_or_late n q"
proof -
  have "armed_until e q' = armed_until e q" for e by (rule armed_until_frame [OF assms(1)])
  moreover obtain e p ts p' ts' where "timers q = (e, p) # ts" "timers q' = (e, p') # ts'"
    using assms(2) by (metis list.collapse prod.collapse)
  ultimately show ?thesis by (simp add: armed_for_def armed_or_late_def)
qed

lemma hd_insort: "hd (insort x xs) = (if xs = [] \<or> x \<le> hd xs then x else hd xs)"
  by (cases xs) auto

lemma insort_not_Nil: "insort x xs \<noteq> []"
  by (cases xs) auto

lemma insort_front: "xs = [] \<or> e < fst (hd xs) \<Longrightarrow> insort (e, p) xs = (e, p) # xs"
  by (cases xs) (auto simp: less_eq_prod_def)

subsection \<open>What the operations of the interface keep\<close>

text \<open>
  Identities are never reused: a live timer of the later state was live before with the same
  sequence number, or its number is larger than every number given out before.
\<close>

definition seq_mono :: "'cb tq \<Rightarrow> 'cb tq \<Rightarrow> bool" where
  "seq_mono q q' \<longleftrightarrow> numCreated q \<le> numCreated q' \<and> (\<forall>p t'. tq_heap q' p = Some t' \<longrightarrow>
     numCreated q < sequence t' \<or> (\<exists>t. tq_heap q p = Some t \<and> sequence t' = sequence t))"

lemma seq_mono_same [simp]:
  "numCreated q' = numCreated q \<Longrightarrow> tq_heap q' = tq_heap q \<Longrightarrow> seq_mono q q'"
  "numCreated q' = numCreated q \<Longrightarrow> tq_heap q' = (tq_heap q)(p := None) \<Longrightarrow> seq_mono q q'"
  by (auto simp: seq_mono_def)

lemma seq_mono_trans: "seq_mono q1 q2 \<Longrightarrow> seq_mono q2 q3 \<Longrightarrow> seq_mono q1 q3"
  by (fastforce simp: seq_mono_def)

definition tq_keeps :: "ptr set \<Rightarrow> timestamp \<Rightarrow> 'cb tq \<Rightarrow> 'cb tq \<Rightarrow> bool" where
  "tq_keeps X n q q' \<longleftrightarrow> tq_inv X q' \<and> (\<forall>p\<in>X. tq_heap q' p = tq_heap q p)
     \<and> (armed_for q \<longrightarrow> armed_for q') \<and> (armed_or_late n q \<longrightarrow> armed_or_late n q')
     \<and> callingExpiredTimers q' = callingExpiredTimers q
     \<and> set (cancelingTimers q) \<subseteq> set (cancelingTimers q') \<and> seq_mono q q'"

lemma tq_keeps_refl: "tq_inv X q \<Longrightarrow> tq_keeps X n q q"
  by (simp add: tq_keeps_def)

lemma tq_keeps_trans: "tq_keeps X n q1 q2 \<Longrightarrow> tq_keeps X n q2 q3 \<Longrightarrow> tq_keeps X n q1 q3"
  by (auto simp: tq_keeps_def intro: seq_mono_trans)

lemma tq_keeps_inv: "tq_keeps X n q q' \<Longrightarrow> tq_inv X q'"
  by (simp add: tq_keeps_def)

lemma addTimerInLoop_spec:
  assumes inv: "tq_inv X q" and p: "p \<in> X" and t: "tq_heap q p = Some t"
  shows "wpR (addTimerInLoop True now p q) (\<lambda>q'. tq_keeps (X - {p}) n q q'
    \<and> timers q' = insort (expiration t, p) (timers q) \<and> tq_heap q' = tq_heap q)"
proof -
  let ?e = "expiration t"
  let ?q = "q\<lparr>timers := insort (?e, p) (timers q),
              activeTimers := set_insert (p, sequence t) (activeTimers q)\<rparr>"
  have inv': "tq_inv (X - {p}) ?q" by (rule tq_inv_insort [OF assms])
  show ?thesis
  proof (cases "timers q = [] \<or> ?e < fst (hd (timers q))")
    case True
    with armed_reset [of ?q ?e p "timers q" now n] insort_front [OF True, of p] inv'
    show ?thesis
      by (simp add: addTimerInLoop_def tq_insert_spec [OF assms] t tq_keeps_def)
  next
    case False
    then have "fst (hd (timers ?q)) = fst (hd (timers q))"
      by (auto simp: hd_insort less_eq_prod_def)
    with False armed_same_head [of ?q q n] inv' show ?thesis
      by (simp add: addTimerInLoop_def tq_insert_spec [OF assms] tq_keeps_def insort_not_Nil)
  qed
qed

lemma addTimer_spec:
  assumes inv: "tq_inv X q"
  shows "wpM (addTimer_inLoop now p cb when itv q) (\<lambda>(i, q'). tq_keeps X n q q'
    \<and> tid_timer i = p \<and> (p, tid_sequence i) \<in> set (activeTimers q'))"
proof (cases "new_timer p cb when itv q")
  case (Inl e)
  then have "e = OutOfMemory" by (simp add: new_timer_def checkR_def split: if_splits)
  with Inl show ?thesis by (simp add: addTimer_inLoop_def)
next
  case (Inr q1)
  let ?t = "Timer_new cb when itv (numCreated q)"
  note inv1 = tq_inv_new_timer [OF inv Inr]
  have p: "p \<notin> X"
    using Inr tq_inv_live [OF inv] by (force simp: new_timer_def checkR_eq_Inr fresh_timer_def)
  have same: "armed_for q1 = armed_for q" "armed_or_late n q1 = armed_or_late n q"
      "callingExpiredTimers q1 = callingExpiredTimers q" "cancelingTimers q1 = cancelingTimers q"
      "\<forall>x\<in>X. tq_heap q1 x = tq_heap q x" "seq_mono q q1"
    using Inr p by (auto simp: new_timer_def checkR_eq_Inr armed_for_def armed_or_late_def seq_mono_def
        Timer_new_def split: list.splits if_splits)
  from addTimerInLoop_spec [OF inv1(1) _ inv1(2), of now n]
  have "wpR (addTimerInLoop True now p q1) (\<lambda>q'. tq_keeps X n q1 q' \<and>
      timers q' = insort (expiration ?t, p) (timers q1) \<and> tq_heap q' = tq_heap q1)"
    using p by simp
  then obtain q2 where q2: "addTimerInLoop True now p q1 = Inr q2" "tq_keeps X n q1 q2"
      "timers q2 = insort (expiration ?t, p) (timers q1)" "tq_heap q2 = tq_heap q1"
    by (auto simp: wpR_iff_Inr)
  have "tq_keeps X n q q2"
    using q2(2) same seq_mono_trans [OF same(6)] by (simp add: tq_keeps_def)
  moreover have "(p, sequence ?t) \<in> set (activeTimers q2)"
    using tq_inv_entry [OF tq_keeps_inv [OF q2(2)], of "expiration ?t" p] q2(3,4) inv1(2)
    by (simp add: set_insort_key)
  ultimately show ?thesis
    using Inr q2(1,4) inv1(2) by (simp add: addTimer_inLoop_def timer_id_of_def)
qed

lemma tq_inv_delete:
  assumes inv: "tq_inv X q" and t: "tq_heap q p = Some t" and e: "(expiration t, p) \<in> set (timers q)"
  shows "tq_inv X (q\<lparr>timers := remove1 (expiration t, p) (timers q),
                      tq_heap := (tq_heap q)(p := None),
                      activeTimers := remove1 (p, sequence t) (activeTimers q)\<rparr>)"
proof -
  let ?T = "set (timers q)" and ?x = "(expiration t, p)"
  have inj: "inj_on snd ?T" using inv by (simp add: tq_inv_def)
  then have p: "p \<notin> snd ` (?T - {?x})" using e by (fastforce simp: inj_on_def)
  have a: "active_of (tq_heap q) ?x = (p, sequence t)" by (simp add: active_of_def t)
  have "active_of ((tq_heap q)(p := None)) ` (?T - {?x}) = active_of (tq_heap q) ` (?T - {?x})"
    by (rule active_of_upd [OF p])
  also have "\<dots> = active_of (tq_heap q) ` ?T - {(p, sequence t)}"
    using inj_on_image_set_diff [OF active_of_inj [OF inj, of "tq_heap q"], of ?T "{?x}"] e
    by (simp add: a)
  finally have img: "active_of ((tq_heap q)(p := None)) ` (?T - {?x})
      = active_of (tq_heap q) ` ?T - {(p, sequence t)}" .
  have X: "p \<notin> X" using tq_inv_detached(1) [OF inv] e by blast
  have ent: "\<exists>t'. ((tq_heap q)(p := None)) p' = Some t' \<and> expiration t' = e'"
    if "(e', p') \<in> ?T - {?x}" for e' p'
  proof -
    have "p' \<noteq> p" using p that by force
    then show ?thesis using tq_inv_entry [OF inv, of e' p'] that by auto
  qed
  have u: "a = expiration t" if "(a, p) \<in> ?T" for a
    using inj e that by (fastforce simp: inj_on_def)
  have ps: "snd ` (?T - {?x}) = snd ` ?T - {p}"
    using inj_on_image_set_diff [OF inj, of ?T "{?x}"] e by simp
  have "inj_on snd (?T - {?x})" using inj by (rule inj_on_subset) auto
  then show ?thesis
    using inv img X ent u ps by (auto simp: tq_inv_def sorted_remove1 set_remove1_eq)
qed

lemma cancelInLoop_active:
  assumes inv: "tq_inv X q" and act: "(tid_timer i, tid_sequence i) \<in> set (activeTimers q)"
  shows "wpR (cancelInLoop True now i q) (\<lambda>q'. tq_keeps X n q q' \<and> tq_heap q' (tid_timer i) = None)"
proof -
  let ?p = "tid_timer i"
  obtain t where t: "tq_heap q ?p = Some t" "sequence t = tid_sequence i" "(expiration t, ?p) \<in> set (timers q)"
    using tq_inv_active [OF inv act] by blast
  let ?q = "q\<lparr>timers := remove1 (expiration t, ?p) (timers q), tq_heap := (tq_heap q)(?p := None),
             activeTimers := remove1 (?p, tid_sequence i) (activeTimers q)\<rparr>"
  have inv': "tq_inv X ?q" using tq_inv_delete [OF inv t(1,3)] t(2) by simp
  have X: "?p \<notin> X" using tq_inv_detached(1) [OF inv] t(3) by blast
  obtain e0 p0 ts where ts: "timers q = (e0, p0) # ts" using t(3) by (cases "timers q") auto
  show ?thesis
  proof (cases "p0 = ?p")
    case False
    then have "timers ?q \<noteq> [] \<and> fst (hd (timers ?q)) = fst (hd (timers q))" by (simp add: ts)
    with armed_same_head [of ?q q n] ts False t act inv' X tq_inv_sizes [OF inv] show ?thesis
      by (auto simp: cancelInLoop_def Let_def tq_keeps_def)
  next
    case True
    have "inj_on snd (set (timers q))" using inv by (simp add: tq_inv_def)
    with t(3) ts True have e0: "e0 = expiration t" by (fastforce simp: inj_on_def)
    show ?thesis
    proof (cases ts)
      case Nil
      with e0 ts True t act inv' X tq_inv_sizes [OF inv] show ?thesis
        by (auto simp: cancelInLoop_def Let_def tq_keeps_def armed_for_def armed_or_late_def)
    next
      case (Cons x ts')
      obtain e1 p1 where x: "x = (e1, p1)" by force
      have ts1: "timers ?q = (e1, p1) # ts'" using e0 ts True Cons x by simp
      then obtain t1 where t1: "tq_heap ?q p1 = Some t1" "expiration t1 = e1"
        using tq_inv_entry [OF inv', of e1 p1] by auto
      with e0 ts True Cons x t act inv' X tq_inv_sizes [OF inv] armed_reset [OF ts1, of now n]
      show ?thesis
        by (auto simp: cancelInLoop_def Let_def tq_keeps_def)
    qed
  qed
qed

lemma cancelInLoop_inactive:
  assumes inv: "tq_inv X q" and "(tid_timer i, tid_sequence i) \<notin> set (activeTimers q)"
  shows "cancelInLoop True now i q = Inr (if callingExpiredTimers q
     then q\<lparr>cancelingTimers := set_insert (tid_timer i, tid_sequence i) (cancelingTimers q)\<rparr> else q)"
  using assms(2) tq_inv_sizes [OF inv] by (simp add: cancelInLoop_def Let_def)

lemma cancelInLoop_spec:
  assumes inv: "tq_inv X q"
  shows "wpR (cancelInLoop True now i q) (tq_keeps X n q)"
proof (cases "(tid_timer i, tid_sequence i) \<in> set (activeTimers q)")
  case True
  from cancelInLoop_active [OF inv True, of now n] show ?thesis by (rule wpR_mono) simp
next
  case False
  then show ?thesis
    using inv by (auto simp: cancelInLoop_inactive tq_keeps_def armed_for_def armed_or_late_def
        split: list.splits)
qed

lemma tq_api_spec: "tq_inv X q \<Longrightarrow> wpM (tq_api op q) (tq_keeps X n q)"
  by (cases op) (auto intro: wpF_faults [OF cancelInLoop_spec] wpF_mono [OF addTimer_spec])

lemma exec_callback_spec:
  assumes "tq_inv X q"
  shows "wpM (exec_callback usr cb q) (tq_keeps X n q)"
proof -
  have "wpM (tq_api op q') (tq_keeps X n q)" if "tq_keeps X n q q'" for op q'
    using tq_api_spec [OF tq_keeps_inv [OF that]] by (rule wpF_mono) (rule tq_keeps_trans [OF that])
  then show ?thesis
    unfolding exec_callback_def
    by (intro wpF_foldR_inv) (auto intro: tq_keeps_refl [OF assms])
qed

subsection \<open>Expiry\<close>

lemma before_sentry:
  fixes e :: timestamp
  shows "p < UINTPTR_MAX \<Longrightarrow> (e, p) < (now, UINTPTR_MAX) \<longleftrightarrow> e \<le> now"
  by (auto simp: less_prod_def)

lemma timers_split:
  assumes inv: "tq_inv X q"
  shows "takeWhile (\<lambda>e. e < (now, UINTPTR_MAX)) (timers q) = filter (\<lambda>(e, _). e \<le> now) (timers q)"
    and "dropWhile (\<lambda>e. e < (now, UINTPTR_MAX)) (timers q) = filter (\<lambda>(e, _). now < e) (timers q)"
proof -
  have srt: "sorted (timers q)" using inv by (simp add: tq_inv_def)
  have eq: "(x < (now, UINTPTR_MAX)) = (case x of (e, _) \<Rightarrow> e \<le> now)" if "x \<in> set (timers q)" for x
  proof -
    obtain e p where x: "x = (e, p)" by force
    with that obtain t where "tq_heap q p = Some t" using tq_inv_entry [OF inv] by blast
    then have "p < UINTPTR_MAX" using tq_inv_heap [OF inv] by blast
    then show ?thesis by (auto simp: x before_sentry)
  qed
  have eq': "(\<not> x < (now, UINTPTR_MAX)) = (case x of (e, _) \<Rightarrow> now < e)" if "x \<in> set (timers q)" for x
    using eq [OF that] by (simp add: case_prod_unfold not_le)
  have down: "x \<le> y \<Longrightarrow> y < (now, UINTPTR_MAX) \<Longrightarrow> x < (now, UINTPTR_MAX)" for x y :: entry
    by (rule le_less_trans)
  show "takeWhile (\<lambda>e. e < (now, UINTPTR_MAX)) (timers q) = filter (\<lambda>(e, _). e \<le> now) (timers q)"
    using sorted_split_filter(1) [OF srt, of "\<lambda>e. e < (now, UINTPTR_MAX)"] down
      filter_cong [OF refl eq, of "timers q"] by fastforce
  show "dropWhile (\<lambda>e. e < (now, UINTPTR_MAX)) (timers q) = filter (\<lambda>(e, _). now < e) (timers q)"
    using sorted_split_filter(2) [OF srt, of "\<lambda>e. e < (now, UINTPTR_MAX)"] down
      filter_cong [OF refl eq', of "timers q"] by fastforce
qed

lemma eraseActive_fold:
  assumes "\<And>e p. (e, p) \<in> set es \<Longrightarrow> tq_heap q p \<noteq> None" and "distinct es" and "inj_on snd (set es)"
    and "active_of (tq_heap q) ` set es \<subseteq> set (activeTimers q)" and "distinct (activeTimers q)"
  shows "foldR eraseActive es q
    = Inr (q\<lparr>activeTimers := filter (\<lambda>a. a \<notin> active_of (tq_heap q) ` set es) (activeTimers q)\<rparr>)"
  using assms
proof (induction es arbitrary: q)
  case Nil
  then show ?case by simp
next
  case (Cons x es)
  obtain e p where x: "x = (e, p)" by force
  obtain t where t: "tq_heap q p = Some t" using Cons.prems(1) x by fastforce
  let ?a = "(p, sequence t)"
  let ?q = "q\<lparr>activeTimers := remove1 ?a (activeTimers q)\<rparr>"
  have a: "active_of (tq_heap q) x = ?a" by (simp add: active_of_def x t)
  have step: "eraseActive x q = Inr ?q"
    using Cons.prems(4) a t by (simp add: eraseActive_def x)
  have notin: "?a \<notin> active_of (tq_heap q) ` set es"
  proof
    assume "?a \<in> active_of (tq_heap q) ` set es"
    then obtain y where "y \<in> set es" "snd y = p" by (auto simp: active_of_def)
    with Cons.prems(2,3) x show False by (auto simp: inj_on_def)
  qed
  have "foldR eraseActive es ?q = Inr (?q\<lparr>activeTimers :=
      filter (\<lambda>a. a \<notin> active_of (tq_heap ?q) ` set es) (activeTimers ?q)\<rparr>)"
    using Cons.prems notin a by (intro Cons.IH) (auto intro: inj_on_subset)
  moreover have "filter (\<lambda>a. a \<notin> active_of (tq_heap q) ` set es) (remove1 ?a (activeTimers q))
      = filter (\<lambda>b. b \<notin> active_of (tq_heap q) ` set (x # es)) (activeTimers q)"
    using Cons.prems(5) a by (auto simp: distinct_remove1_removeAll removeAll_filter_not_eq intro: filter_cong)
  ultimately show ?case by (simp add: step)
qed

definition expired_at :: "timestamp \<Rightarrow> 'cb tq \<Rightarrow> entry list" where
  "expired_at now q = filter (\<lambda>(e, _). e \<le> now) (timers q)"

definition after_expiry :: "timestamp \<Rightarrow> 'cb tq \<Rightarrow> 'cb tq" where
  "after_expiry now q = q\<lparr>timers := filter (\<lambda>(e, _). now < e) (timers q),
     activeTimers := filter (\<lambda>a. a \<notin> active_of (tq_heap q) ` set (expired_at now q)) (activeTimers q)\<rparr>"

lemma expired_at_sub: "set (expired_at now q) \<subseteq> set (timers q)"
  by (auto simp: expired_at_def)

lemma getExpired_eq:
  assumes inv: "tq_inv X q"
  shows "getExpired now q = Inr (expired_at now q, after_expiry now q)"
proof -
  let ?q = "q\<lparr>timers := filter (\<lambda>(e, _). now < e) (timers q)\<rparr>"
  have "foldR eraseActive (expired_at now q) ?q = Inr (?q\<lparr>activeTimers :=
      filter (\<lambda>a. a \<notin> active_of (tq_heap ?q) ` set (expired_at now q)) (activeTimers ?q)\<rparr>)"
  proof (rule eraseActive_fold)
    show "tq_heap ?q p \<noteq> None" if "(e, p) \<in> set (expired_at now q)" for e p
      using tq_inv_entry [OF inv, of e p] that expired_at_sub by fastforce
    show "active_of (tq_heap ?q) ` set (expired_at now q) \<subseteq> set (activeTimers ?q)"
      using inv expired_at_sub by (force simp: tq_inv_def)
    show "inj_on snd (set (expired_at now q))"
      using inv expired_at_sub by (auto simp: tq_inv_def intro: inj_on_subset)
  qed (use inv in \<open>auto simp: tq_inv_def expired_at_def\<close>)
  then show ?thesis
    by (simp add: getExpired_def timers_split [OF inv] expired_at_def [symmetric] after_expiry_def Let_def)
qed

lemma tq_inv_after_expiry:
  assumes inv: "tq_inv X q"
  shows "tq_inv (X \<union> snd ` set (expired_at now q)) (after_expiry now q)"
proof -
  let ?T = "set (timers q)" and ?E = "set (expired_at now q)"
  let ?L = "{x \<in> ?T. now < fst x}"
  have inj: "inj_on snd ?T" using inv by (simp add: tq_inv_def)
  have L: "?L = ?T - ?E" by (auto simp: expired_at_def)
  have act: "active_of (tq_heap q) ` ?L = active_of (tq_heap q) ` ?T - active_of (tq_heap q) ` ?E"
    unfolding L by (rule inj_on_image_set_diff [OF active_of_inj [OF inj]]) (use expired_at_sub in blast)+
  have disj: "snd ` ?E \<inter> snd ` ?L = {}"
    unfolding L using inj_on_image_Int [OF inj expired_at_sub [of now q], of "?T - ?E"] by auto
  have "?E \<union> ?L = ?T" using expired_at_sub [of now q] by (auto simp: expired_at_def)
  then have dom: "snd ` ?E \<union> snd ` ?L = snd ` ?T" by (metis image_Un)
  have "inj_on snd ?L" using inj by (rule inj_on_subset) auto
  with inv act disj dom [symmetric] expired_at_sub [of now q] show ?thesis
    by (auto simp: tq_inv_def after_expiry_def sorted_wrt_filter case_prod_unfold)
qed

subsection \<open>Rescheduling\<close>

text \<open>For a sorted set the statements about the earliest timer are statements about all of them.\<close>

lemma armed_until_mono: "armed_until e q \<Longrightarrow> e \<le> e' \<Longrightarrow> armed_until e' q"
  by (auto simp: armed_until_def split: option.splits)

lemma sorted_head_least:
  fixes a :: timestamp
  shows "sorted ((a, b) # xs) \<Longrightarrow> x \<in> set xs \<Longrightarrow> a \<le> fst x"
  by (auto simp: less_eq_prod_def)

lemma armed_for_all:
  assumes "sorted (timers q)"
  shows "armed_for q \<longleftrightarrow> (\<forall>x \<in> set (timers q). armed_until (fst x) q)"
  using assms sorted_head_least armed_until_mono
  by (cases "timers q") (fastforce simp: armed_for_def)+

lemma armed_or_late_all:
  assumes "sorted (timers q)"
  shows "armed_or_late now q \<longleftrightarrow> (\<forall>x \<in> set (timers q). armed_until (fst x) q \<or> now < fst x)"
proof (cases "timers q")
  case Nil
  then show ?thesis by (simp add: armed_or_late_def)
next
  case (Cons x xs)
  obtain e p where x: "x = (e, p)" by force
  have "e \<le> fst y" if "y \<in> set xs" for y
    using sorted_head_least [of e p xs y] assms that Cons x by simp
  then show ?thesis
    using Cons x armed_until_mono by (fastforce simp: armed_or_late_def)
qed

lemma tq_inv_sorted: "tq_inv X q \<Longrightarrow> sorted (timers q)"
  by (simp add: tq_inv_def)

definition rescheduled :: "'cb tq \<Rightarrow> entry \<Rightarrow> bool" where
  "rescheduled q = (\<lambda>(_, p). case tq_heap q p of None \<Rightarrow> False
     | Some t \<Rightarrow> repeat t \<and> (p, sequence t) \<notin> set (cancelingTimers q))"

definition restart_at :: "timestamp \<Rightarrow> 'cb tq \<Rightarrow> ptr \<Rightarrow> 'cb timer" where
  "restart_at now q p = restart now (the (tq_heap q p))"

text \<open>What \<open>reset\<close> does to the sets and the store, entry by entry.\<close>

definition reset_effect :: "timestamp \<Rightarrow> entry list \<Rightarrow> 'cb tq \<Rightarrow> 'cb tq \<Rightarrow> bool" where
  "reset_effect now es q q' \<longleftrightarrow>
     tq_heap q' = (\<lambda>p. if p \<in> snd ` {x \<in> set es. rescheduled q x} then Some (restart_at now q p)
                       else if p \<in> snd ` set es then None else tq_heap q p)
     \<and> set (timers q') = set (timers q)
         \<union> (\<lambda>(_, p). (expiration (restart_at now q p), p)) ` {x \<in> set es. rescheduled q x}
     \<and> tq_timerfd q' = tq_timerfd q \<and> cancelingTimers q' = cancelingTimers q
     \<and> callingExpiredTimers q' = callingExpiredTimers q \<and> numCreated q' = numCreated q"

lemma tq_inv_restart:
  assumes "tq_inv X q" and "p \<in> X" and "tq_heap q p = Some t"
  shows "tq_inv X (q\<lparr>tq_heap := (tq_heap q)(p \<mapsto> restart now t)\<rparr>)"
proof -
  have "p \<notin> snd ` set (timers q)" using assms by (auto simp: tq_inv_def)
  moreover from this have "(e, p) \<notin> set (timers q)" for e by force
  ultimately show ?thesis
    using assms by (auto simp: tq_inv_def active_of_upd)
qed

lemma tq_inv_free:
  assumes "tq_inv X q" and "p \<in> X"
  shows "tq_inv (X - {p}) (q\<lparr>tq_heap := (tq_heap q)(p := None)\<rparr>)"
proof -
  have "p \<notin> snd ` set (timers q)" using assms by (auto simp: tq_inv_def)
  moreover from this have "(e, p) \<notin> set (timers q)" for e by force
  ultimately show ?thesis
    using assms by (auto simp: tq_inv_def active_of_upd)
qed

lemma resetEntry_spec:
  assumes inv: "tq_inv X q" and p: "p \<in> X"
  shows "wpR (resetEntry True now (e, p) q) (\<lambda>q'. tq_inv (X - {p}) q' \<and> reset_effect now [(e, p)] q q')"
proof -
  obtain t where t: "tq_heap q p = Some t" using tq_inv_live [OF inv p] by blast
  show ?thesis
  proof (cases "repeat t \<and> (p, sequence t) \<notin> set (cancelingTimers q)")
    case True
    let ?q = "q\<lparr>tq_heap := (tq_heap q)(p \<mapsto> restart now t)\<rparr>"
    have inv': "tq_inv X ?q" by (rule tq_inv_restart [OF inv p t])
    have r: "rescheduled q (e, p)" using True t by (simp add: rescheduled_def)
    have t': "tq_heap ?q p = Some (restart now t)" by simp
    show ?thesis
      using tq_insert_spec [OF inv' p t'] tq_inv_insort [OF inv' p t'] True t r
      by (auto simp: resetEntry_def reset_effect_def restart_at_def set_insort_key)
  next
    case False
    then have "\<not> rescheduled q (e, p)" using t by (simp add: rescheduled_def)
    with False t tq_inv_free [OF inv p] show ?thesis
      by (auto simp: resetEntry_def reset_effect_def)
  qed
qed

lemma reset_effect_Cons:
  assumes "reset_effect now [x] q q1" and "reset_effect now xs q1 q2"
    and "snd x \<notin> snd ` set xs"
  shows "reset_effect now (x # xs) q q2"
proof -
  have heap: "tq_heap q1 (snd y) = tq_heap q (snd y)" if "y \<in> set xs" for y
    using assms(1,3) that by (auto simp: reset_effect_def image_iff)
  have "cancelingTimers q1 = cancelingTimers q" using assms(1) by (simp add: reset_effect_def)
  then have r: "rescheduled q1 y = rescheduled q y" if "y \<in> set xs" for y
    using heap [OF that] by (simp add: rescheduled_def case_prod_unfold split: option.splits)
  have at: "restart_at now q1 (snd y) = restart_at now q (snd y)" if "y \<in> set xs" for y
    using heap [OF that] by (simp add: restart_at_def)
  have set1: "{y \<in> set xs. rescheduled q1 y} = {y \<in> set xs. rescheduled q y}" using r by auto
  have img: "(\<lambda>(_, p). (expiration (restart_at now q1 p), p)) ` {y \<in> set xs. rescheduled q y}
      = (\<lambda>(_, p). (expiration (restart_at now q p), p)) ` {y \<in> set xs. rescheduled q y}"
    using at by (intro image_cong) (auto simp: case_prod_unfold)
  have H1: "tq_heap q1 = (\<lambda>p. if p \<in> snd ` {y \<in> set [x]. rescheduled q y} then Some (restart_at now q p)
       else if p \<in> snd ` set [x] then None else tq_heap q p)"
    using assms(1) by (simp add: reset_effect_def)
  have H2: "tq_heap q2 = (\<lambda>p. if p \<in> snd ` {y \<in> set xs. rescheduled q y} then Some (restart_at now q1 p)
       else if p \<in> snd ` set xs then None else tq_heap q1 p)"
    using assms(2) by (simp add: reset_effect_def set1)
  have "tq_heap q2 = (\<lambda>p. if p \<in> snd ` {y \<in> set (x # xs). rescheduled q y} then Some (restart_at now q p)
       else if p \<in> snd ` set (x # xs) then None else tq_heap q p)"
  proof
    fix p
    show "tq_heap q2 p = (if p \<in> snd ` {y \<in> set (x # xs). rescheduled q y} then Some (restart_at now q p)
       else if p \<in> snd ` set (x # xs) then None else tq_heap q p)"
      using assms(3) at by (cases "p = snd x") (auto simp: H2 H1)
  qed
  with assms(1,2) img show ?thesis
    by (auto simp: reset_effect_def set1)
qed

lemma resetEntries_spec:
  assumes "tq_inv (X \<union> snd ` set es) q" and "distinct es" and "inj_on snd (set es)"
    and "X \<inter> snd ` set es = {}"
  shows "wpR (foldR (resetEntry True now) es q) (\<lambda>q'. tq_inv X q' \<and> reset_effect now es q q')"
  using assms
proof (induction es arbitrary: q)
  case Nil
  then show ?case by (simp add: reset_effect_def)
next
  case (Cons x es)
  obtain e p where x: "x = (e, p)" by force
  have p: "p \<notin> snd ` set es" "p \<notin> X"
    using Cons.prems(2-4) x by (auto simp: inj_on_def)
  have "wpR (resetEntry True now (e, p) q)
      (\<lambda>q'. tq_inv (X \<union> snd ` set (x # es) - {p}) q' \<and> reset_effect now [(e, p)] q q')"
    using Cons.prems(1) x by (intro resetEntry_spec) auto
  then obtain q1 where q1: "resetEntry True now x q = Inr q1" "tq_inv (X \<union> snd ` set es) q1"
      "reset_effect now [x] q q1"
    using p x by (auto simp: wpR_iff_Inr insert_Diff_if Un_Diff)
  from Cons.IH [OF q1(2)] Cons.prems(2-4)
  have "wpR (foldR (resetEntry True now) es q1) (\<lambda>q'. tq_inv X q' \<and> reset_effect now es q1 q')"
    by auto
  then show ?case
    using q1 reset_effect_Cons [OF q1(3)] p x by (auto elim!: wpR_mono)
qed

lemma reset_effect_armed:
  assumes inv: "tq_inv X q" and inv': "tq_inv Y q'" and eff: "reset_effect now es q q'"
    and E: "snd ` set es \<subseteq> X" and late: "armed_or_late now q"
  shows "armed_or_late now q'"
proof -
  have "now < expiration (restart_at now q p)" if r: "rescheduled q (e, p)" for e p
  proof -
    obtain t where t: "tq_heap q p = Some t" "repeat t"
      using r by (auto simp: rescheduled_def split: option.splits)
    with tq_inv_heap [OF inv t(1)] show ?thesis
      using restart_expiration(3) [of t now] by (simp add: restart_at_def)
  qed
  moreover have "armed_until e q' = armed_until e q" for e
    using eff by (intro armed_until_frame) (simp add: reset_effect_def)
  moreover have "\<forall>x \<in> set (timers q). armed_until (fst x) q \<or> now < fst x"
    using late armed_or_late_all [OF tq_inv_sorted [OF inv]] by simp
  ultimately have "\<forall>x \<in> set (timers q'). armed_until (fst x) q' \<or> now < fst x"
    using eff by (auto simp: reset_effect_def)
  then show ?thesis using armed_or_late_all [OF tq_inv_sorted [OF inv']] by simp
qed

lemma reset_spec:
  assumes "tq_inv (X \<union> snd ` set es) q" and "distinct es" and "inj_on snd (set es)"
    and "X \<inter> snd ` set es = {}" and "armed_or_late now q" and "0 \<le> now"
  shows "wpR (reset True now now' es q) (\<lambda>q'. tq_inv X q' \<and> armed_for q'
    \<and> reset_effect now es q (q'\<lparr>tq_timerfd := tq_timerfd q\<rparr>))"
proof -
  obtain q1 where q1: "foldR (resetEntry True now) es q = Inr q1" "tq_inv X q1" "reset_effect now es q q1"
    using resetEntries_spec [OF assms(1-4), of now] by (auto simp: wpR_iff_Inr)
  have late: "armed_or_late now q1"
    using reset_effect_armed [OF assms(1) q1(2,3) _ assms(5)] by simp
  show ?thesis
  proof (cases "timers q1")
    case Nil
    with q1 show ?thesis by (auto simp: reset_def armed_for_def reset_effect_def)
  next
    case (Cons x ts)
    obtain e p where x: "x = (e, p)" by force
    obtain t where t: "tq_heap q1 p = Some t" "expiration t = e"
      using tq_inv_entry [OF q1(2), of e p] Cons x by auto
    show ?thesis
    proof (cases "e = 0")
      case True
      with late Cons x assms(6) have "armed_for q1" by (simp add: armed_or_late_def armed_for_def)
      with q1 Cons x t True show ?thesis by (auto simp: reset_def reset_effect_def)
    next
      case False
      with q1 Cons x t armed_reset [of q1 e p ts now'] show ?thesis
        by (auto simp: reset_def Let_def reset_effect_def)
    qed
  qed
qed

subsection \<open>One firing of the descriptor\<close>

lemma runTimers_spec:
  assumes "tq_inv X q" and "snd ` set es \<subseteq> X"
  shows "wpM (foldR (runTimer (exec_callback usr)) es q) (tq_keeps X n q)"
proof (rule wpF_foldR_inv)
  show "tq_keeps X n q q" by (rule tq_keeps_refl [OF assms(1)])
  fix x q' assume x: "x \<in> set es" and k: "tq_keeps X n q q'"
  obtain e p where xp: "x = (e, p)" by force
  have "p \<in> X" using x xp assms(2) by force
  then obtain t where t: "tq_heap q' p = Some t"
    using tq_inv_live [OF tq_keeps_inv [OF k]] by blast
  have "wpM (exec_callback usr (callback t) q') (tq_keeps X n q)"
    using exec_callback_spec [OF tq_keeps_inv [OF k]] by (rule wpF_mono) (rule tq_keeps_trans [OF k])
  then show "wpM (runTimer (exec_callback usr) x q') (tq_keeps X n q)"
    by (simp add: runTimer_def xp t)
qed

lemma expired_at_facts:
  assumes "tq_inv X q"
  shows "distinct (expired_at now q)" and "inj_on snd (set (expired_at now q))"
    and "X \<inter> snd ` set (expired_at now q) = {}"
  using assms expired_at_sub [of now q]
  by (auto simp: tq_inv_def expired_at_def intro: inj_on_subset)

lemma expired_at_disarm [simp]: "expired_at now (disarmTimerfd q) = expired_at now q"
  by (simp add: expired_at_def)

text \<open>
  \<open>running\<close> is the state in which the callbacks start. The state \<open>q2\<close> after them is related to the
  state \<open>q\<close> before the firing by \<open>fired\<close>: the expired timers are still alive and unchanged, and the
  result \<open>q'\<close> comes from rescheduling them.
\<close>

definition running :: "timestamp \<Rightarrow> 'cb tq \<Rightarrow> 'cb tq" where
  "running now q = (after_expiry now (disarmTimerfd q))\<lparr>callingExpiredTimers := True, cancelingTimers := []\<rparr>"

definition fired :: "timestamp \<Rightarrow> 'cb tq \<Rightarrow> 'cb tq \<Rightarrow> 'cb tq \<Rightarrow> bool" where
  "fired now q q2 q' \<longleftrightarrow> (\<forall>p \<in> snd ` set (expired_at now q). tq_heap q2 p = tq_heap q p)
     \<and> reset_effect now (expired_at now q) q2 (q'\<lparr>tq_timerfd := tq_timerfd q2\<rparr>)"

lemma tq_inv_running:
  assumes "tq_inv X q"
  shows "tq_inv (X \<union> snd ` set (expired_at now q)) (running now q)" "armed_or_late now (running now q)"
proof -
  show inv: "tq_inv (X \<union> snd ` set (expired_at now q)) (running now q)"
    using tq_inv_after_expiry [of X "disarmTimerfd q" now] assms by (simp add: running_def)
  show "armed_or_late now (running now q)"
    using armed_or_late_all [OF tq_inv_sorted [OF inv]] by (auto simp: running_def after_expiry_def)
qed

lemma running_simps [simp]:
  "tq_heap (running now q) = tq_heap q" "numCreated (running now q) = numCreated q"
  "callingExpiredTimers (running now q)" "cancelingTimers (running now q) = []"
  by (simp_all add: running_def after_expiry_def)

lemma reset_effect_seq_mono:
  assumes "reset_effect now es q q'" and "\<And>p. p \<in> snd ` set es \<Longrightarrow> tq_heap q p \<noteq> None"
  shows "seq_mono q q'"
  using assms by (fastforce simp: reset_effect_def seq_mono_def restart_at_def rescheduled_def
      split: if_splits option.splits)

lemma finish_spec:
  assumes inv: "tq_inv X q" and now: "0 \<le> now"
    and k: "tq_keeps (X \<union> snd ` set (expired_at now q)) now (running now q) q2"
  shows "wpR (reset True now now' (expired_at now q) (q2\<lparr>callingExpiredTimers := False\<rparr>))
    (\<lambda>q'. tq_inv X q' \<and> armed_for q' \<and> \<not> callingExpiredTimers q' \<and> seq_mono q q'
       \<and> fired now q (q2\<lparr>callingExpiredTimers := False\<rparr>) q')"
proof -
  let ?q2 = "q2\<lparr>callingExpiredTimers := False\<rparr>" and ?es = "expired_at now q"
  have inv2: "tq_inv (X \<union> snd ` set ?es) ?q2" and late: "armed_or_late now ?q2"
    using k tq_inv_running(2) [OF inv, of now] by (auto simp: tq_keeps_def armed_or_late_def split: list.splits)
  have same: "\<forall>p \<in> snd ` set ?es. tq_heap ?q2 p = tq_heap q p"
    using k by (simp add: tq_keeps_def)
  have "seq_mono q ?q2" using k by (simp add: tq_keeps_def seq_mono_def)
  moreover have "seq_mono ?q2 q'" if "reset_effect now ?es ?q2 (q'\<lparr>tq_timerfd := tq_timerfd ?q2\<rparr>)" for q'
    using reset_effect_seq_mono [OF that] tq_inv_live [OF inv2] by (fastforce simp: seq_mono_def)
  ultimately have "seq_mono q q'" if "reset_effect now ?es ?q2 (q'\<lparr>tq_timerfd := tq_timerfd ?q2\<rparr>)" for q'
    using seq_mono_trans that by blast
  with reset_spec [OF inv2 expired_at_facts [OF inv] late now, of now'] same show ?thesis
    by (elim wpF_mono) (auto simp: fired_def reset_effect_def)
qed

lemma handleRead_spec:
  assumes inv: "tq_inv X q" and now: "0 \<le> now"
  shows "wpM (handleRead (exec_callback usr) True now now' q)
    (\<lambda>q'. tq_inv X q' \<and> armed_for q' \<and> \<not> callingExpiredTimers q' \<and> seq_mono q q'
       \<and> (\<exists>q2. foldR (runTimer (exec_callback usr)) (expired_at now q) (running now q) = Inr q2
            \<and> fired now q (q2\<lparr>callingExpiredTimers := False\<rparr>) q'))"
proof -
  let ?es = "expired_at now q"
  let ?P = "\<lambda>q'. tq_inv X q' \<and> armed_for q' \<and> \<not> callingExpiredTimers q' \<and> seq_mono q q'
       \<and> (\<exists>q2. foldR (runTimer (exec_callback usr)) ?es (running now q) = Inr q2
            \<and> fired now q (q2\<lparr>callingExpiredTimers := False\<rparr>) q')"
  have "getExpired now (disarmTimerfd q) = Inr (?es, after_expiry now (disarmTimerfd q))"
    using getExpired_eq [of X "disarmTimerfd q" now] inv by simp
  then have eq: "handleRead (exec_callback usr) True now now' q =
      bindR (foldR (runTimer (exec_callback usr)) ?es (running now q)) (\<lambda>q2.
         reset True now now' ?es (q2\<lparr>callingExpiredTimers := False\<rparr>))"
    by (simp add: handleRead_def running_def)
  have "wpM (foldR (runTimer (exec_callback usr)) ?es (running now q))
      (tq_keeps (X \<union> snd ` set ?es) now (running now q))"
    by (rule runTimers_spec [OF tq_inv_running(1) [OF inv]]) simp
  then have "wpM (foldR (runTimer (exec_callback usr)) ?es (running now q))
      (\<lambda>q2. wpM (reset True now now' ?es (q2\<lparr>callingExpiredTimers := False\<rparr>)) ?P)"
  proof (rule wpF_mono_eq)
    fix q2 assume run: "foldR (runTimer (exec_callback usr)) ?es (running now q) = Inr q2"
      and k: "tq_keeps (X \<union> snd ` set ?es) now (running now q) q2"
    show "wpM (reset True now now' ?es (q2\<lparr>callingExpiredTimers := False\<rparr>)) ?P"
      using wpF_faults [OF finish_spec [OF inv now k]] by (rule wpF_mono) (use run in auto)
  qed
  then show ?thesis by (simp add: eq)
qed

subsection \<open>Runs of the timer queue\<close>

lemma tq_api_keeps_armed:
  "tq_inv X q \<Longrightarrow> armed_for q \<Longrightarrow> wpM (tq_api op q) (\<lambda>q'. tq_inv X q' \<and> armed_for q' \<and> seq_mono q q')"
  using tq_api_spec [of X q op 0] by (rule wpF_mono) (auto simp: tq_keeps_def)

lemma new_timer_keeps_armed:
  assumes "tq_inv X q" and "armed_for q"
  shows "wpM (new_timer p cb when itv q)
    (\<lambda>q'. p \<notin> X \<and> tq_inv (insert p X) q' \<and> armed_for q' \<and> seq_mono q q')"
proof (cases "new_timer p cb when itv q")
  case (Inl e)
  then show ?thesis by (simp add: new_timer_def checkR_def split: if_splits)
next
  case (Inr q')
  have "p \<notin> X"
    using Inr tq_inv_live [OF assms(1)] by (force simp: new_timer_def checkR_eq_Inr fresh_timer_def)
  moreover have "armed_for q'" and "seq_mono q q'"
    using Inr assms(2) by (auto simp: new_timer_def checkR_eq_Inr armed_for_def seq_mono_def
        Timer_new_def split: list.splits if_splits)
  ultimately show ?thesis using tq_inv_new_timer(1) [OF assms(1) Inr] Inr by simp
qed

lemma insert_keeps_armed:
  assumes "tq_inv X q" and "armed_for q" and "p \<in> X"
  shows "wpR (addTimerInLoop True now p q)
    (\<lambda>q'. tq_inv (X - {p}) q' \<and> armed_for q' \<and> seq_mono q q')"
proof -
  obtain t where t: "tq_heap q p = Some t" using tq_inv_live [OF assms(1,3)] by blast
  from addTimerInLoop_spec [OF assms(1,3) t, of now 0] show ?thesis
    by (rule wpF_mono) (use assms(2) in \<open>auto simp: tq_keeps_def\<close>)
qed

lemma handleRead_keeps_armed:
  assumes "tq_inv X q" and "0 \<le> now"
  shows "wpM (handleRead (exec_callback usr) True now now' q)
    (\<lambda>q'. tq_inv X q' \<and> armed_for q' \<and> seq_mono q q')"
  using handleRead_spec [OF assms] by (rule wpF_mono) simp

lemma tq_run_spec:
  assumes "tq_inv (set P) q" and "armed_for q" and "distinct P" and "tq_pending evs P = Some P'"
  shows "wpM (foldR (tq_step usr) evs q) (\<lambda>q'. tq_inv (set P') q' \<and> armed_for q' \<and> seq_mono q q' \<and> distinct P')"
  using assms
proof (induction evs arbitrary: q P)
  case Nil
  then show ?case by simp
next
  case (Cons ev evs)
  have next_step: "wpM (foldR (tq_step usr) (ev # evs) q)
      (\<lambda>q'. tq_inv (set P') q' \<and> armed_for q' \<and> seq_mono q q' \<and> distinct P')"
    if step: "wpM (tq_step usr ev q)
        (\<lambda>q1. tq_inv (set P1) q1 \<and> armed_for q1 \<and> seq_mono q q1 \<and> distinct P1)"
      and P1: "tq_pending evs P1 = Some P'" for P1
  proof -
    have "wpM (foldR (tq_step usr) evs q1) (\<lambda>q'. tq_inv (set P') q' \<and> armed_for q' \<and> seq_mono q q' \<and> distinct P')"
      if "tq_inv (set P1) q1 \<and> armed_for q1 \<and> seq_mono q q1 \<and> distinct P1" for q1
      using Cons.IH [of P1 q1] that P1 by (auto elim!: wpF_mono intro: seq_mono_trans)
    with wpF_mono [OF step] show ?thesis by auto
  qed
  show ?case
  proof (cases ev)
    case (Api op)
    with Cons.prems tq_api_keeps_armed [of "set P" q op] show ?thesis
      by (intro next_step [of P]) (auto elim: wpF_mono)
  next
    case (Create p cb e itv)
    with Cons.prems new_timer_keeps_armed [of "set P" q p cb e itv] show ?thesis
      by (intro next_step [of "p # P"]) (auto elim!: wpF_mono)
  next
    case (Insert now p)
    with Cons.prems have p: "p \<in> set P" "tq_pending evs (remove1 p P) = Some P'"
      by (auto split: if_splits)
    with Cons.prems Insert wpF_faults [OF insert_keeps_armed [of "set P" q p now]] show ?thesis
      by (intro next_step [of "remove1 p P"]) (auto elim!: wpF_mono simp: set_remove1_eq)
  next
    case (Fire now now')
    with Cons.prems have now: "0 \<le> now" "tq_pending evs P = Some P'" by (auto split: if_splits)
    with Cons.prems Fire handleRead_keeps_armed [of "set P" q now usr now'] show ?thesis
      by (intro next_step [of P]) (auto elim: wpF_mono)
  qed
qed

lemma armed_for_new: "armed_for TimerQueue_new"
  by (simp add: armed_for_def TimerQueue_new_def)

lemma tq_reachable_inv:
  assumes "foldR (tq_step usr) evs TimerQueue_new = Inr q" and "tq_pending evs [] = Some P"
  shows "tq_inv (set P) q"
proof -
  have "wpM (foldR (tq_step usr) evs TimerQueue_new) (tq_inv (set P))"
    using tq_run_spec [OF _ armed_for_new, of "[]" evs P usr] assms(2)
    by (auto simp: tq_inv_new elim!: wpF_mono)
  with assms(1) show ?thesis by simp
qed

lemma runTimers_callbacks:
  assumes "tq_inv X q" and "snd ` set es \<subseteq> X"
  shows "foldR (runTimer (exec_callback usr)) es q
    = foldR (exec_callback usr) (map (\<lambda>x. callback (the (tq_heap q (snd x)))) es) q"
  using assms
proof (induction es arbitrary: q)
  case Nil
  then show ?case by simp
next
  case (Cons x es)
  obtain t where t: "tq_heap q (snd x) = Some t"
    using tq_inv_live [OF Cons.prems(1), of "snd x"] Cons.prems(2) by auto
  then have x: "runTimer (exec_callback usr) x q = exec_callback usr (callback t) q"
    by (simp add: runTimer_def case_prod_unfold)
  have k: "wpM (exec_callback usr (callback t) q) (tq_keeps X 0 q)"
    by (rule exec_callback_spec [OF Cons.prems(1)])
  show ?case
  proof (cases "exec_callback usr (callback t) q")
    case (Inl f)
    then show ?thesis by (simp add: x t)
  next
    case (Inr q1)
    with k have "tq_inv X q1" and same: "\<forall>p\<in>X. tq_heap q1 p = tq_heap q p"
      by (auto simp: tq_keeps_def)
    with Cons.IH [of q1] Cons.prems(2)
    have "foldR (runTimer (exec_callback usr)) es q1
        = foldR (exec_callback usr) (map (\<lambda>x. callback (the (tq_heap q1 (snd x)))) es) q1" by simp
    moreover have "map (\<lambda>x. callback (the (tq_heap q1 (snd x)))) es
        = map (\<lambda>x. callback (the (tq_heap q (snd x)))) es"
      using same Cons.prems(2) by auto
    ultimately show ?thesis by (simp add: x t Inr)
  qed
qed

lemma handleRead_eq:
  assumes inv: "tq_inv X q"
  shows "handleRead (exec_callback usr) True now now' q =
     bindR (foldR (exec_callback usr)
              (map (\<lambda>x. callback (the (tq_heap q (snd x)))) (expired_at now q)) (running now q))
       (\<lambda>q2. reset True now now' (expired_at now q) (q2\<lparr>callingExpiredTimers := False\<rparr>))"
proof -
  have "getExpired now (disarmTimerfd q) = Inr (expired_at now q, after_expiry now (disarmTimerfd q))"
    using getExpired_eq [of X "disarmTimerfd q" now] inv by simp
  then show ?thesis
    using runTimers_callbacks [OF tq_inv_running(1) [OF inv, of now], of "expired_at now q" usr]
    by (simp add: handleRead_def running_def [symmetric]) 
qed

text \<open>A timer that a callback cancels while it is detached from the sets is marked, and stays so.\<close>

lemma cancel_marks:
  assumes "tq_inv X q" and "callingExpiredTimers q" and "tid_timer i \<in> X"
    and "OpCancel c i \<in> set ops"
  shows "wpM (foldR tq_api ops q) (\<lambda>q'. (tid_timer i, tid_sequence i) \<in> set (cancelingTimers q'))"
  using assms
proof (induction ops arbitrary: q)
  case Nil
  then show ?case by simp
next
  case (Cons op ops)
  have keeps: "wpM (foldR tq_api ops q1) (tq_keeps X 0 q1)" if "tq_inv X q1" for q1
    using exec_callback_spec [OF that, of "\<lambda>_ _. ops" undefined 0] by (simp add: exec_callback_def)
  show ?case
  proof (cases "op = OpCancel c i")
    case True
    have "(tid_timer i, tid_sequence i) \<notin> set (activeTimers q)"
      by (rule tq_inv_detached(2) [OF Cons.prems(1,3)])
    then have "tq_api op q = Inr (q\<lparr>cancelingTimers :=
        set_insert (tid_timer i, tid_sequence i) (cancelingTimers q)\<rparr>)" (is "_ = Inr ?q")
      using cancelInLoop_inactive [OF Cons.prems(1)] Cons.prems(2) True by simp
    with keeps [of ?q] Cons.prems(1) show ?thesis
      by (auto simp: tq_keeps_def elim!: wpF_mono)
  next
    case False
    with Cons.prems have "wpM (foldR tq_api ops q1)
        (\<lambda>q'. (tid_timer i, tid_sequence i) \<in> set (cancelingTimers q'))" if "tq_keeps X 0 q q1" for q1
      using that Cons.IH [of q1] by (auto simp: tq_keeps_def)
    with tq_api_spec [OF Cons.prems(1), of op 0] show ?thesis by (auto elim: wpF_mono)
  qed
qed

lemma callbacks_mark:
  assumes "tq_inv X q" and "callingExpiredTimers q" and "tid_timer i \<in> X"
    and "cb \<in> set cbs" and "\<And>q. \<exists>c. OpCancel c i \<in> set (usr cb q)"
  shows "wpM (foldR (exec_callback usr) cbs q) (\<lambda>q'. (tid_timer i, tid_sequence i) \<in> set (cancelingTimers q'))"
  using assms(1-4)
proof (induction cbs arbitrary: q)
  case Nil
  then show ?case by simp
next
  case (Cons b cbs)
  have keeps: "wpM (exec_callback usr b q) (tq_keeps X 0 q)"
    by (rule exec_callback_spec [OF Cons.prems(1)])
  have stay: "wpM (foldR (exec_callback usr) cbs q1) (tq_keeps X 0 q1)" if "tq_inv X q1" for q1
  proof (rule wpF_foldR_inv)
    show "tq_keeps X 0 q1 q1" by (rule tq_keeps_refl [OF that])
    show "wpM (exec_callback usr x s) (tq_keeps X 0 q1)" if "tq_keeps X 0 q1 s" for x s
      using exec_callback_spec [OF tq_keeps_inv [OF that]] tq_keeps_trans [OF that] by (rule wpF_mono)
  qed
  show ?case
  proof (cases "b = cb")
    case True
    obtain c where c: "OpCancel c i \<in> set (usr b q)" using assms(5) True by blast
    have "wpM (exec_callback usr b q) (\<lambda>q1. tq_inv X q1 \<and> (tid_timer i, tid_sequence i) \<in> set (cancelingTimers q1))"
      using cancel_marks [OF Cons.prems(1-3) c] wpF_mono [OF keeps tq_keeps_inv]
      by (simp add: wpF_conj exec_callback_def)
    moreover have "wpM (foldR (exec_callback usr) cbs q1) (\<lambda>q'. (tid_timer i, tid_sequence i) \<in> set (cancelingTimers q'))"
      if "tq_inv X q1" "(tid_timer i, tid_sequence i) \<in> set (cancelingTimers q1)" for q1
      using stay [OF that(1)] that(2) by (auto simp: tq_keeps_def elim!: wpF_mono)
    ultimately show ?thesis by (auto elim: wpF_mono)
  next
    case False
    with Cons.prems Cons.IH keeps show ?thesis by (auto simp: tq_keeps_def elim!: wpF_mono)
  qed
qed

lemma tq_pending_append: "tq_pending (xs @ ys) P = Option.bind (tq_pending xs P) (tq_pending ys)"
  by (induction xs P rule: tq_pending.induct) auto

lemma tq_reachable_seq_mono:
  assumes "foldR (tq_step usr) evs TimerQueue_new = Inr q" and "foldR (tq_step usr) evs' q = Inr q'"
    and "tq_pending (evs @ evs') [] = Some P'"
  shows "tq_inv (set P') q'" and "seq_mono q q'"
proof -
  obtain P where P: "tq_pending evs [] = Some P" "tq_pending evs' P = Some P'"
    using assms(3) by (auto simp: tq_pending_append bind_eq_Some_conv)
  have "wpM (foldR (tq_step usr) evs TimerQueue_new) (\<lambda>q. tq_inv (set P) q \<and> armed_for q \<and> distinct P)"
    using tq_run_spec [OF _ armed_for_new, of "[]" evs P usr] P(1)
    by (auto simp: tq_inv_new elim!: wpF_mono)
  then have "tq_inv (set P) q" "armed_for q" "distinct P" using assms(1) by auto
  from tq_run_spec [OF this P(2), of usr] assms(2) show "tq_inv (set P') q'" and "seq_mono q q'" by auto
qed

subsection \<open>Properties\<close>


text \<open>A queue with a repeating timer at address 16, a one-shot timer at 24 and one from another thread.\<close>

definition example_run :: "nat tq_event list" where
  "example_run = [Api (OpAdd 0 16 7 1000000 500), Create 24 8 3000000 0, Insert 100 24,
     Api (OpAdd 200 32 9 2000000 0)]"

definition example_usr :: "nat reactions" where
  "example_usr cb q = (if cb = 9 then [OpCancel 5 \<lparr>tid_timer = 16, tid_sequence = 1\<rparr>] else [])"


text \<open>Claim C15: when the descriptor fires at time \<open>now\<close> in a reachable state, \<open>handleRead\<close> runs the callbacks
  of exactly the timers whose expiration is not after \<open>now\<close>, each once, in the order of their
  expirations, and then reschedules those timers.\<close>

theorem fire_runs_due:
  assumes "foldR (tq_step usr) evs TimerQueue_new = Inr q" and "tq_pending evs [] = Some P"
  shows "\<exists>due. sorted due \<and> distinct due \<and> set due = {x \<in> set (timers q). fst x \<le> now} \<and>
    handleRead (exec_callback usr) True now now' q =
      bindR (foldR (exec_callback usr) (map (\<lambda>x. callback (the (tq_heap q (snd x)))) due) (running now q))
        (\<lambda>q2. reset True now now' due (q2\<lparr>callingExpiredTimers := False\<rparr>))"
proof (intro exI conjI)
  note inv = tq_reachable_inv [OF assms]
  show "sorted (expired_at now q)"
    using tq_inv_sorted [OF inv] by (simp add: expired_at_def sorted_wrt_filter)
  show "distinct (expired_at now q)" by (rule expired_at_facts [OF inv])
  show "set (expired_at now q) = {x \<in> set (timers q). fst x \<le> now}" by (auto simp: expired_at_def)
qed (rule handleRead_eq [OF tq_reachable_inv [OF assms]])

theorem fire_runs_due_witness:
  "\<exists>q due. foldR (tq_step example_usr) example_run TimerQueue_new = Inr q
     \<and> set due = {(1000000, 16), (2000000, 32) :: entry} \<and> sorted due \<and> distinct due"
proof -
  obtain q where q: "foldR (tq_step example_usr) example_run TimerQueue_new = Inr q"
    and ts: "timers q = [(1000000, 16), (2000000, 32), (3000000, 24)]"
  proof -
    have "(case foldR (tq_step example_usr) example_run TimerQueue_new of
      Inl _ \<Rightarrow> False | Inr q \<Rightarrow> timers q = [(1000000, 16), (2000000, 32), (3000000, 24)])" by code_simp
    then show ?thesis using that by (auto split: sum.splits)
  qed
  have P: "tq_pending example_run [] = Some []" by code_simp
  have "{x \<in> set (timers q). fst x \<le> 2500000} = {(1000000, 16), (2000000, 32)}" by (auto simp: ts)
  with fire_runs_due [OF q P, of 2500000 2500100]
  obtain due :: "entry list" where "set due = {(1000000, 16), (2000000, 32)}" "sorted due" "distinct due" by auto
  with q show ?thesis by blast
qed





text \<open>Claim C18: a callback that cancels a due timer, its own or another one of the same firing, stops it: after
  the firing the timer is freed, although it was already taken out of the sets.\<close>

theorem callback_cancels:
  assumes run: "foldR (tq_step usr) evs TimerQueue_new = Inr q" "tq_pending evs [] = Some P"
    and now: "0 \<le> now" and due: "(e, p) \<in> set (timers q)" "e \<le> now"
    and t: "tq_heap q p = Some t" "\<forall>q. \<exists>c. OpCancel c \<lparr>tid_timer = p, tid_sequence = sequence t\<rparr> \<in> set (usr cb q)"
    and canceller: "(e2, p2) \<in> set (timers q)" "e2 \<le> now" "tq_heap q p2 = Some t2" "callback t2 = cb"
  shows "wpM (handleRead (exec_callback usr) True now now' q) (\<lambda>q'. tq_heap q' p = None)"
proof -
  note inv = tq_reachable_inv [OF run]
  let ?es = "expired_at now q" and ?i = "\<lparr>tid_timer = p, tid_sequence = sequence t\<rparr>"
  let ?cbs = "map (\<lambda>x. callback (the (tq_heap q (snd x)))) ?es"
  have p: "(e, p) \<in> set ?es" using due by (simp add: expired_at_def)
  have "(e2, p2) \<in> set ?es" using canceller by (simp add: expired_at_def)
  then have cb: "cb \<in> set ?cbs" using canceller(3,4) by force
  have "wpM (foldR (exec_callback usr) ?cbs (running now q)) (\<lambda>q2. (p, sequence t) \<in> set (cancelingTimers q2))"
    using callbacks_mark [OF tq_inv_running(1) [OF inv, of now] _ _ cb, of ?i usr] p t(2) by force
  moreover have "foldR (runTimer (exec_callback usr)) ?es (running now q)
      = foldR (exec_callback usr) ?cbs (running now q)"
    using runTimers_callbacks [OF tq_inv_running(1) [OF inv, of now], of ?es usr] by simp
  ultimately have mark: "wpM (foldR (runTimer (exec_callback usr)) ?es (running now q))
      (\<lambda>q2. (p, sequence t) \<in> set (cancelingTimers q2))" by simp
  have "tq_heap q' p = None" if q2: "foldR (runTimer (exec_callback usr)) ?es (running now q) = Inr q2"
      and f: "fired now q (q2\<lparr>callingExpiredTimers := False\<rparr>) q'" for q2 q'
  proof -
    have "\<not> rescheduled (q2\<lparr>callingExpiredTimers := False\<rparr>) (x, p)" for x
      using mark q2 f p t(1) by (force simp: fired_def rescheduled_def)
    then have "p \<notin> snd ` {x \<in> set ?es. rescheduled (q2\<lparr>callingExpiredTimers := False\<rparr>) x}" by force
    then show ?thesis using f p by (force simp: fired_def reset_effect_def)
  qed
  with handleRead_spec [OF inv now, of usr now'] show ?thesis by (auto elim!: wpF_mono)
qed

text \<open>A repeating timer whose callback cancels it.\<close>

definition self_cancel :: "nat reactions" where
  "self_cancel cb q = [OpCancel 5 \<lparr>tid_timer = 16, tid_sequence = 1\<rparr>]"

theorem callback_cancels_witness:
  "\<exists>q. foldR (tq_step self_cancel) example_run TimerQueue_new = Inr q \<and> tq_heap q 16 \<noteq> None
     \<and> wpM (handleRead (exec_callback self_cancel) True 1000000 1000100 q) (\<lambda>q'. tq_heap q' 16 = None)"
proof -
  let ?t = "\<lparr>callback = 7, expiration = 1000000, interval = 500, repeat = True, sequence = 1\<rparr> :: nat timer"
  obtain q where q: "foldR (tq_step self_cancel) example_run TimerQueue_new = Inr q"
    and ts: "(1000000, 16) \<in> set (timers q)" and t: "tq_heap q 16 = Some ?t"
  proof -
    have "(case foldR (tq_step self_cancel) example_run TimerQueue_new of
      Inl _ \<Rightarrow> False | Inr q \<Rightarrow> (1000000, 16) \<in> set (timers q) \<and> tq_heap q 16 = Some ?t)" by code_simp
    then show ?thesis using that by (auto split: sum.splits)
  qed
  have P: "tq_pending example_run [] = Some []" by code_simp
  have "wpM (handleRead (exec_callback self_cancel) True 1000000 1000100 q) (\<lambda>q'. tq_heap q' 16 = None)"
    by (rule callback_cancels [OF q P _ ts _ t, where cb = 7]) (use ts t in \<open>auto simp: self_cancel_def\<close>)
  with q t show ?thesis by auto
qed

text \<open>Claim C19: an identifier outlives its timer safely. Once no live timer carries the identifier's address and
  sequence number, cancelling it later has no effect on any timer, even when the allocator has given
  the same address to a new timer in the meantime.\<close>

theorem stale_id_harmless:
  assumes run: "foldR (tq_step usr) evs TimerQueue_new = Inr q" "foldR (tq_step usr) evs' q = Inr q'"
      "tq_pending (evs @ evs') [] = Some P"
    and dead: "tid_sequence i \<le> numCreated q"
      "\<forall>t. tq_heap q (tid_timer i) = Some t \<longrightarrow> sequence t \<noteq> tid_sequence i"
  shows "wpR (cancelInLoop True now i q') (\<lambda>q''. tq_heap q'' = tq_heap q' \<and> timers q'' = timers q'
    \<and> activeTimers q'' = activeTimers q' \<and> tq_timerfd q'' = tq_timerfd q')"
proof -
  have inv: "tq_inv (set P) q'" and mono: "seq_mono q q'"
    using tq_reachable_seq_mono [OF run] by auto
  have "sequence t \<noteq> tid_sequence i" if "tq_heap q' (tid_timer i) = Some t" for t
    using mono dead that by (force simp: seq_mono_def)
  then have "(tid_timer i, tid_sequence i) \<notin> set (activeTimers q')"
    using tq_inv_active [OF inv] by blast
  then show ?thesis by (simp add: cancelInLoop_inactive [OF inv])
qed

text \<open>The one-shot timer 1 at address 16 fires; address 16 is reused by timer 2; cancelling timer 1 keeps it.\<close>

theorem stale_id_harmless_witness:
  "\<exists>q. foldR (tq_step example_usr) [Api (OpAdd 0 16 7 1000000 0), Fire 1000000 1000100,
       Api (OpAdd 2000000 16 7 5000000 0)] TimerQueue_new = Inr q
     \<and> timers q = [(5000000, 16)]
     \<and> wpR (cancelInLoop True 3000000 \<lparr>tid_timer = 16, tid_sequence = 1\<rparr> q) (\<lambda>q'. timers q' = timers q)"
proof -
  let ?a = "[Api (OpAdd 0 16 7 1000000 0), Fire 1000000 1000100]"
  let ?b = "[Api (OpAdd 2000000 16 7 5000000 0)] :: nat tq_event list"
  obtain q q' where q: "foldR (tq_step example_usr) ?a TimerQueue_new = Inr q"
    and q': "foldR (tq_step example_usr) ?b q = Inr q'"
    and n: "numCreated q = 1" "tq_heap q 16 = None" "timers q' = [(5000000, 16)]"
  proof -
    have "(case foldR (tq_step example_usr) ?a TimerQueue_new of Inl _ \<Rightarrow> False
      | Inr q \<Rightarrow> numCreated q = 1 \<and> tq_heap q 16 = None \<and>
         (case foldR (tq_step example_usr) ?b q of Inl _ \<Rightarrow> False
          | Inr q' \<Rightarrow> timers q' = [(5000000, 16)]))" by code_simp
    then show ?thesis using that by (auto split: sum.splits)
  qed
  have P: "tq_pending (?a @ ?b) [] = Some []" by code_simp
  have "foldR (tq_step example_usr) (?a @ ?b) TimerQueue_new = Inr q'"
    by (simp only: foldR_append q bindR_simps q')
  moreover have "wpR (cancelInLoop True 3000000 \<lparr>tid_timer = 16, tid_sequence = 1\<rparr> q') (\<lambda>q''. timers q'' = timers q')"
    using stale_id_harmless [OF q q' P, of "\<lparr>tid_timer = 16, tid_sequence = 1\<rparr>" 3000000] n
    by (auto elim!: wpF_mono)
  ultimately show ?thesis using n(3) by (intro exI [of _ q']) simp
qed


end
