(* ===== verification/EventLoop.thy ===== *)
theory EventLoop
  imports Channel Mpsc Timers "HOL-Library.Multiset"
begin

text \<open>
  \<open>include/hvnetpp/EventLoop.h\<close> and \<open>src/EventLoop.cpp\<close>, on one thread: the members as functions on a
  record that extends the channel store with the loop's own state. \<open>il\<close> is the value of
  \<open>isInLoopThread()\<close> for the caller. The work queued for the loop (a \<open>std::function\<close> in the source)
  is a value of a type \<open>'f\<close>; the parameter \<open>exec\<close> says what running one does to the state and \<open>dispose\<close> what
  destroying it does. The
  \<open>eventfd\<close> counter is \<open>lp_wakeups\<close>.

  \<open>doPendingFunctors\<close> runs functors until it finds the lock-free queue empty, including those that are
  queued meanwhile, so it need not return: it is a partial function and \<open>None\<close> means that it
  does not return. The lemmas relate it to a loop on two lists, show that it returns and runs
  everything when the functors queue finitely much, and that it never returns when a functor queues
  itself. A call from another thread is a call with \<open>il\<close> false.
\<close>

subsection \<open>State\<close>

record 'f loop = reactor +
  lp_looping :: bool
  lp_quit :: bool
  lp_eventHandling :: bool
  lp_callingPending :: bool
  lp_active :: "ptr list"
  lp_current :: "ptr option"
  lp_queue :: "'f mpsc"
  lp_functors :: "'f list"
  lp_wakeups :: nat

definition kPollTimeMs :: int where "kPollTimeMs = 10000"

definition pending_order :: nat where "pending_order = 16"

text \<open>
  The constructor: \<open>epollfd\<close>, \<open>timerfd\<close> and \<open>eventfd\<close> are the descriptors the system calls return, \<open>tp\<close> and
  \<open>wp\<close> the addresses of the timer queue's channel and of the wakeup channel, \<open>other\<close> says whether
  the thread already has a loop.
\<close>

definition createEventfd :: "int \<Rightarrow> fd res" where
  "createEventfd evtfd = checkR Aborted (0 \<le> evtfd) (Inr evtfd)"

definition loop_channel ::
  "(ctl_call \<Rightarrow> bool) \<Rightarrow> ptr \<Rightarrow> fd \<Rightarrow> ('f, 'm) loop_scheme \<Rightarrow> ('f, 'm) loop_scheme res" where
  "loop_channel ctl p f w =
     bindR (setCallback ReadCb p (w\<lparr>chans := (chans w)(p \<mapsto> Channel_new f)\<rparr>)) (enableReading ctl True p)"

definition EventLoop_new ::
  "(ctl_call \<Rightarrow> bool) \<Rightarrow> mirror_os \<Rightarrow> int \<Rightarrow> int \<Rightarrow> int \<Rightarrow> ptr \<Rightarrow> ptr \<Rightarrow> bool \<Rightarrow> 'f loop res" where
  "EventLoop_new ctl os epollfd timerfd evtfd tp wp other =
     bindR (Poller_new epollfd) (\<lambda>r.
       let w = reactor.extend r \<lparr>lp_looping = False, lp_quit = False, lp_eventHandling = False,
             lp_callingPending = False, lp_active = [], lp_current = None,
             lp_queue = MpscQueue_new os pending_order, lp_functors = [], lp_wakeups = 0\<rparr>
       in bindR (checkR Aborted (0 \<le> timerfd) (loop_channel ctl tp timerfd w)) (\<lambda>w1.
            bindR (createEventfd evtfd) (\<lambda>evtfd'.
              checkR Aborted (\<not> other) (loop_channel ctl wp evtfd' w1))))"

definition EventLoop_destroy :: "(ctl_call \<Rightarrow> bool) \<Rightarrow> ptr \<Rightarrow> ('f, 'm) loop_scheme \<Rightarrow> ('f, 'm) loop_scheme res" where
  "EventLoop_destroy ctl wp w =
     bindR (disableAll ctl True wp w) (\<lambda>w1. bindR (Channel_remove ctl True wp w1) (\<lambda>w2.
       Inr (w2\<lparr>chans := (chans w2)(wp := None)\<rparr>)))"

subsection \<open>Members\<close>

definition assertInLoopThread :: "bool \<Rightarrow> 'a res \<Rightarrow> 'a res" where
  "assertInLoopThread il m = checkR Aborted il m"

definition wakeup :: "('f, 'm) loop_scheme \<Rightarrow> ('f, 'm) loop_scheme" where
  "wakeup w = w\<lparr>lp_wakeups := lp_wakeups w + 1\<rparr>"

definition loop_handleRead :: "('f, 'm) loop_scheme \<Rightarrow> ('f, 'm) loop_scheme" where
  "loop_handleRead w = w\<lparr>lp_wakeups := 0\<rparr>"

definition quit :: "bool \<Rightarrow> ('f, 'm) loop_scheme \<Rightarrow> ('f, 'm) loop_scheme" where
  "quit il w = (let w' = w\<lparr>lp_quit := True\<rparr> in if \<not> il then wakeup w' else w')"

definition queueInLoop :: "bool \<Rightarrow> 'f \<Rightarrow> ('f, 'm) loop_scheme \<Rightarrow> ('f, 'm) loop_scheme" where
  "queueInLoop il f w =
     (let w' = (case (if isValid (lp_queue w) then reserve (lp_queue w) else (None, lp_queue w)) of
                  (Some node, q) \<Rightarrow> w\<lparr>lp_queue := commit node 1 (write_data node f q)\<rparr>
                | (None, q) \<Rightarrow> w\<lparr>lp_queue := q, lp_functors := lp_functors w @ [f]\<rparr>)
      in if \<not> il \<or> lp_callingPending w' then wakeup w' else w')"

definition runInLoop ::
  "('f \<Rightarrow> ('f, 'm) loop_scheme \<Rightarrow> ('f, 'm) loop_scheme res) \<Rightarrow> bool \<Rightarrow> 'f \<Rightarrow> ('f, 'm) loop_scheme \<Rightarrow> ('f, 'm) loop_scheme res"
where
  "runInLoop exec il f w = (if il then exec f w else Inr (queueInLoop il f w))"

definition run_node ::
  "('f \<Rightarrow> ('f, 'm) loop_scheme \<Rightarrow> ('f, 'm) loop_scheme res) \<Rightarrow> 
   ('f \<Rightarrow> ('f, 'm) loop_scheme \<Rightarrow> ('f, 'm) loop_scheme res) \<Rightarrow> nat \<Rightarrow> ('f, 'm) loop_scheme \<Rightarrow> ('f, 'm) loop_scheme res"
where
  "run_node exec dispose p w = bindR
     (case node_data (mq_mem (lp_queue w) p) of None \<Rightarrow> Inr w | Some f \<Rightarrow> bindR (exec f w) (dispose f))
     (\<lambda>w'. Inr (w'\<lparr>lp_queue := consume p (lp_queue w')\<rparr>))"

partial_function (option) drain ::
  "('f \<Rightarrow> ('f, 'm) loop_scheme \<Rightarrow> ('f, 'm) loop_scheme res) \<Rightarrow> 
   ('f \<Rightarrow> ('f, 'm) loop_scheme \<Rightarrow> ('f, 'm) loop_scheme res) \<Rightarrow> ('f, 'm) loop_scheme \<Rightarrow> ('f, 'm) loop_scheme res option"
where
  "drain exec dispose w =
     (case mpsc_peek (lp_queue w) of None \<Rightarrow> Some (Inr w)
      | Some p \<Rightarrow> (case run_node exec dispose p w of Inl e \<Rightarrow> Some (Inl e) | Inr w' \<Rightarrow> drain exec dispose w'))"

declare drain.simps [code]

definition run_fallback ::
  "('f \<Rightarrow> ('f, 'm) loop_scheme \<Rightarrow> ('f, 'm) loop_scheme res) \<Rightarrow> ('f, 'm) loop_scheme \<Rightarrow> ('f, 'm) loop_scheme res"
where
  "run_fallback exec w = foldR exec (lp_functors w) (w\<lparr>lp_functors := []\<rparr>)"

definition doPendingFunctors ::
  "('f \<Rightarrow> ('f, 'm) loop_scheme \<Rightarrow> ('f, 'm) loop_scheme res) \<Rightarrow> 
   ('f \<Rightarrow> ('f, 'm) loop_scheme \<Rightarrow> ('f, 'm) loop_scheme res) \<Rightarrow> ('f, 'm) loop_scheme \<Rightarrow> ('f, 'm) loop_scheme res option"
where
  "doPendingFunctors exec dispose w =
     (let w1 = w\<lparr>lp_callingPending := True\<rparr> in
      case (if isValid (lp_queue w1) then drain exec dispose w1 else Some (Inr w1)) of
        None \<Rightarrow> None
      | Some r \<Rightarrow> Some (bindR r (\<lambda>w2. bindR (run_fallback exec w2) (\<lambda>w3.
                          foldR dispose (lp_functors w2) (w3\<lparr>lp_callingPending := False\<rparr>)))))"

text \<open>
  One turn of \<open>loop()\<close>, given what \<open>epoll_wait\<close> returned, and the loop for a sequence of such results.
\<close>

definition handle_active ::
  "(ptr \<Rightarrow> ('f, 'm) loop_scheme \<Rightarrow> ('f, 'm) loop_scheme option) \<Rightarrow> (ptr \<Rightarrow> ('f, 'm) loop_scheme \<Rightarrow> ('f, 'm) loop_scheme res) \<Rightarrow>
   (cb_kind \<Rightarrow> ptr \<Rightarrow> ('f, 'm) loop_scheme \<Rightarrow> ('f, 'm) loop_scheme res) \<Rightarrow>
   ptr \<Rightarrow> ('f, 'm) loop_scheme \<Rightarrow> ('f, 'm) loop_scheme res"
where
  "handle_active lock unlock run p w = handleEvent lock unlock run p (w\<lparr>lp_current := Some p\<rparr>)"

definition loop_turn ::
  "(ptr \<Rightarrow> ('f, 'm) loop_scheme \<Rightarrow> ('f, 'm) loop_scheme option) \<Rightarrow> (ptr \<Rightarrow> ('f, 'm) loop_scheme \<Rightarrow> ('f, 'm) loop_scheme res) \<Rightarrow>
   (cb_kind \<Rightarrow> ptr \<Rightarrow> ('f, 'm) loop_scheme \<Rightarrow> ('f, 'm) loop_scheme res) \<Rightarrow>
   ('f \<Rightarrow> ('f, 'm) loop_scheme \<Rightarrow> ('f, 'm) loop_scheme res) \<Rightarrow> 
   ('f \<Rightarrow> ('f, 'm) loop_scheme \<Rightarrow> ('f, 'm) loop_scheme res) \<Rightarrow> int \<times> (ptr \<times> events) list \<Rightarrow>
   ('f, 'm) loop_scheme \<Rightarrow> ('f, 'm) loop_scheme res option"
where
  "loop_turn lock unlock run exec dispose = (\<lambda>(n, evs) w.
     case bindR (Poller_poll n evs (w\<lparr>lp_active := []\<rparr>)) (\<lambda>(act, w1).
            bindR (foldR (handle_active lock unlock run) act (w1\<lparr>lp_active := act, lp_eventHandling := True\<rparr>)) (\<lambda>w2.
              Inr (w2\<lparr>lp_current := None, lp_eventHandling := False\<rparr>))) of
       Inl e \<Rightarrow> Some (Inl e)
     | Inr w3 \<Rightarrow> doPendingFunctors exec dispose w3)"

fun loop_turns ::
  "(ptr \<Rightarrow> ('f, 'm) loop_scheme \<Rightarrow> ('f, 'm) loop_scheme option) \<Rightarrow> (ptr \<Rightarrow> ('f, 'm) loop_scheme \<Rightarrow> ('f, 'm) loop_scheme res) \<Rightarrow>
   (cb_kind \<Rightarrow> ptr \<Rightarrow> ('f, 'm) loop_scheme \<Rightarrow> ('f, 'm) loop_scheme res) \<Rightarrow>
   ('f \<Rightarrow> ('f, 'm) loop_scheme \<Rightarrow> ('f, 'm) loop_scheme res) \<Rightarrow> 
   ('f \<Rightarrow> ('f, 'm) loop_scheme \<Rightarrow> ('f, 'm) loop_scheme res) \<Rightarrow> (int \<times> (ptr \<times> events) list) list \<Rightarrow>
   ('f, 'm) loop_scheme \<Rightarrow> ('f, 'm) loop_scheme res option"
where
  "loop_turns lock unlock run exec dispose [] w = Some (Inr w)"
| "loop_turns lock unlock run exec dispose (x # xs) w =
     (if lp_quit w then Some (Inr w)
      else case loop_turn lock unlock run exec dispose x w of None \<Rightarrow> None
        | Some (Inl e) \<Rightarrow> Some (Inl e)
        | Some (Inr w') \<Rightarrow> loop_turns lock unlock run exec dispose xs w')"

definition loop_start :: "bool \<Rightarrow> ('f, 'm) loop_scheme \<Rightarrow> ('f, 'm) loop_scheme res" where
  "loop_start il w = assertInLoopThread il (Inr (w\<lparr>lp_looping := True\<rparr>))"

definition loop_stop :: "('f, 'm) loop_scheme \<Rightarrow> ('f, 'm) loop_scheme" where
  "loop_stop w = w\<lparr>lp_looping := False\<rparr>"

subsection \<open>Timers of the loop\<close>

text \<open>
  The members that schedule timers, called on the loop thread: \<open>now\<close> is the clock reading, \<open>p\<close> the
  address of the new timer. The overloads that take seconds as \<open>double\<close> are not modelled.
\<close>

definition runAt :: "timestamp \<Rightarrow> ptr \<Rightarrow> timestamp \<Rightarrow> 'cb \<Rightarrow> 'cb tq \<Rightarrow> (timer_id \<times> 'cb tq) res" where
  "runAt now p time cb q = addTimer_inLoop now p cb time 0 q"

definition runAfter :: "timestamp \<Rightarrow> ptr \<Rightarrow> timedelta \<Rightarrow> 'cb \<Rightarrow> 'cb tq \<Rightarrow> (timer_id \<times> 'cb tq) res" where
  "runAfter now p delay cb q = runAt now p (now + us_to_ns delay) cb q"

definition runEvery :: "timestamp \<Rightarrow> ptr \<Rightarrow> timedelta \<Rightarrow> 'cb \<Rightarrow> 'cb tq \<Rightarrow> (timer_id \<times> 'cb tq) res" where
  "runEvery now p itv cb q = addTimer_inLoop now p cb (now + us_to_ns itv) itv q"

definition loop_cancel :: "timestamp \<Rightarrow> timer_id \<Rightarrow> 'cb tq \<Rightarrow> 'cb tq res" where
  "loop_cancel now i q = cancelInLoop True now i q"

subsection \<open>The queue of the loop as two lists\<close>

definition pending_cap :: nat where "pending_cap = ring_slots pending_order"

definition loop_rep :: "('f, 'm) loop_scheme \<Rightarrow> 'f list \<Rightarrow> 'f list \<Rightarrow> bool" where
  "loop_rep w xs ys \<longleftrightarrow> mq_rep pending_order (lp_queue w) xs \<and> lp_functors w = ys"

lemma mq_rep_valid: "mq_rep order q xs \<Longrightarrow> isValid q"
  using mst_invD(1) ring_ok_valid by (fastforce simp: mq_rep_def)

lemma reserve_None_same: "reserve q = (None, q') \<Longrightarrow> mq_rep order q xs \<Longrightarrow> q' = q"
proof -
  assume r: "reserve q = (None, q')" and rep: "mq_rep order q xs"
  then obtain ys where "mst_inv order \<lparr>mq = q, ppc = (\<lambda>_. PIdle), cpc = CIdle, hist = ys @ xs, taken = ys\<rparr>"
    by (auto simp: mq_rep_def)
  from mst_invD(1) [OF this] have "getPointer (mq_ring q1) w \<noteq> None"
    if "cas_tail w q = Some q1" for w q1
    using that by (auto simp: cas_tail_def getPointer_def ring_ok_def split: if_splits)
  with r show ?thesis
    by (fastforce simp: reserve_def Let_def split: if_splits option.splits)
qed

text \<open>\<open>queueInLoop\<close> is the client of the bounded queue that keeps rejected functors in its own list.\<close>

lemma queueInLoop_spill:
  assumes "mq_rep pending_order (lp_queue w) xs"
  shows "fifo_spill mpsc_put f (lp_queue w, lp_functors w)
      = (lp_queue (queueInLoop il f w), lp_functors (queueInLoop il f w))"
  using mq_rep_valid [OF assms] reserve_None_same [OF _ assms]
  by (auto simp: fifo_spill_def mpsc_put_def queueInLoop_def wakeup_def Let_def split: option.splits prod.splits)

lemma queueInLoop_frame:
  "lp_callingPending (queueInLoop il f w) = lp_callingPending w"
  "lp_wakeups w \<le> lp_wakeups (queueInLoop il f w)"
  "\<not> il \<or> lp_callingPending w \<Longrightarrow> 0 < lp_wakeups (queueInLoop il f w)"
  "loop.more (queueInLoop il f w) = loop.more w"
  "chans (queueInLoop il f w) = chans w"
  by (auto simp: queueInLoop_def wakeup_def Let_def split: option.splits prod.splits)

lemma queueInLoop_rep:
  assumes "loop_rep w xs ys" and "spill_abs pending_cap f (xs, ys) = (xs', ys')"
  shows "loop_rep (queueInLoop il f w) xs' ys'"
    and "mpsc_peek (lp_queue w) = Some p \<Longrightarrow> mpsc_peek (lp_queue (queueInLoop il f w)) = Some p"
proof -
  have rep: "mq_rep pending_order (lp_queue w) xs" and ys: "lp_functors w = ys"
    using assms(1) by (auto simp: loop_rep_def)
  from mq.spill_step [OF rep queueInLoop_spill [OF rep, of f il]] assms(2) ys
  show "loop_rep (queueInLoop il f w) xs' ys'"
    and "mpsc_peek (lp_queue w) = Some p \<Longrightarrow> mpsc_peek (lp_queue (queueInLoop il f w)) = Some p"
    by (auto simp: loop_rep_def pending_cap_def)
qed

text \<open>A log of the functors run, and functors that queue others from the loop thread.\<close>

record 'f logged = "'f loop" +
  lp_log :: "'f list"

definition exec_react :: "('f \<Rightarrow> 'f list) \<Rightarrow> 'f \<Rightarrow> 'f logged \<Rightarrow> 'f logged res" where
  "exec_react react f w = Inr (fold (queueInLoop True) (react f) (w\<lparr>lp_log := lp_log w @ [f]\<rparr>))"

text \<open>Destroying one of these functors has no effect.\<close>

abbreviation keep :: "'f \<Rightarrow> 's \<Rightarrow> 's res" where
  "keep \<equiv> \<lambda>_. Inr"

lemma foldR_keep [simp]: "foldR keep fs w = Inr w"
  by (induction fs) simp_all

lemma queueInLoop_log [simp]: "lp_log (queueInLoop il f w) = lp_log w"
  by (auto simp: queueInLoop_def wakeup_def Let_def split: option.splits prod.splits)

lemma queue_list:
  assumes "loop_rep w xs ys" and "fold (spill_abs pending_cap) fs (xs, ys) = (xs', ys')"
  shows "loop_rep (fold (queueInLoop il) fs w) xs' ys'
    \<and> (\<forall>p. mpsc_peek (lp_queue w) = Some p \<longrightarrow> mpsc_peek (lp_queue (fold (queueInLoop il) fs w)) = Some p)
    \<and> lp_log (fold (queueInLoop il) fs w) = lp_log w
    \<and> lp_callingPending (fold (queueInLoop il) fs w) = lp_callingPending w
    \<and> lp_wakeups w \<le> lp_wakeups (fold (queueInLoop il) fs w)
    \<and> (lp_callingPending w \<and> fs \<noteq> [] \<longrightarrow> 0 < lp_wakeups (fold (queueInLoop il) fs w))"
  using assms
proof (induction fs arbitrary: w xs ys)
  case Nil
  then show ?case by simp
next
  case (Cons f fs)
  obtain x1 y1 where 1: "spill_abs pending_cap f (xs, ys) = (x1, y1)" by force
  note q = queueInLoop_rep [OF Cons.prems(1) 1, where il = il]
  have "fold (spill_abs pending_cap) fs (x1, y1) = (xs', ys')" using Cons.prems(2) 1 by simp
  from Cons.IH [OF q(1) this] q(2) show ?case
    using queueInLoop_frame [where il = il and f = f and w = w] by fastforce
qed

lemma exec_react_rep:
  assumes "loop_rep w xs ys" and "fold (spill_abs pending_cap) (react f) (xs, ys) = (xs', ys')"
  shows "\<exists>w'. exec_react react f w = Inr w' \<and> loop_rep w' xs' ys' \<and> lp_log w' = lp_log w @ [f]
    \<and> (\<forall>p. mpsc_peek (lp_queue w) = Some p \<longrightarrow> mpsc_peek (lp_queue w') = Some p)
    \<and> lp_callingPending w' = lp_callingPending w \<and> lp_wakeups w \<le> lp_wakeups w'
    \<and> (lp_callingPending w \<and> react f \<noteq> [] \<longrightarrow> 0 < lp_wakeups w')"
proof -
  have "loop_rep (w\<lparr>lp_log := lp_log w @ [f]\<rparr>) xs ys" using assms(1) by (simp add: loop_rep_def)
  from queue_list [OF this assms(2), of True] show ?thesis by (simp add: exec_react_def)
qed

text \<open>Running the front node: the functor is still in the queue while it runs, and leaves it afterwards.\<close>

lemma run_node_rep:
  assumes rep: "loop_rep w (f # xs) ys" and p: "mpsc_peek (lp_queue w) = Some p"
    and fold: "fold (spill_abs pending_cap) (react f) (f # xs, ys) = (xs', ys')"
  shows "\<exists>w'. run_node (exec_react react) keep p w = Inr w' \<and> loop_rep w' (tl xs') ys' \<and> lp_log w' = lp_log w @ [f]
    \<and> lp_callingPending w' = lp_callingPending w \<and> lp_wakeups w \<le> lp_wakeups w'
    \<and> (lp_callingPending w \<and> react f \<noteq> [] \<longrightarrow> 0 < lp_wakeups w')"
proof -
  have q: "mq_rep pending_order (lp_queue w) (f # xs)" using rep by (simp add: loop_rep_def)
  obtain w1 where w1: "exec_react react f w = Inr w1" "loop_rep w1 xs' ys'" "lp_log w1 = lp_log w @ [f]"
      "mpsc_peek (lp_queue w1) = Some p" "lp_callingPending w1 = lp_callingPending w"
      "lp_wakeups w \<le> lp_wakeups w1" "lp_callingPending w \<and> react f \<noteq> [] \<longrightarrow> 0 < lp_wakeups w1"
    using exec_react_rep [OF rep, of react f xs' ys'] fold p by auto
  have "mq_rep pending_order (consume p (lp_queue w1)) (tl xs')"
    using mq.pop_front [of pending_order "lp_queue w1" xs' p] w1(2,4) by (simp add: loop_rep_def)
  then show ?thesis
    using mq.front_val [OF q p] w1 by (simp add: run_node_def loop_rep_def)
qed

lemma peek_rep:
  assumes "loop_rep w xs ys"
  shows "mpsc_peek (lp_queue w) = None \<longleftrightarrow> xs = []"
  using mq.front_empty assms by (auto simp: loop_rep_def)

lemma fold_spill_prefix:
  "fold (spill_abs cap) fs (xs, ys) = (xs', ys') \<Longrightarrow>
     \<exists>as bs. xs' = xs @ as \<and> ys' = ys @ bs \<and> mset as + mset bs = mset fs"
proof (induction fs arbitrary: xs ys)
  case Nil
  then show ?case by simp
next
  case (Cons f fs)
  show ?case
  proof (cases "length xs < cap")
    case True
    with Cons.prems Cons.IH [of "xs @ [f]" ys] obtain as bs
      where "xs' = (xs @ [f]) @ as" "ys' = ys @ bs" "mset as + mset bs = mset fs"
      by (auto simp: spill_abs_def)
    then show ?thesis by (intro exI [of _ "f # as"] exI [of _ bs]) simp
  next
    case False
    with Cons.prems Cons.IH [of xs "ys @ [f]"] obtain as bs
      where "xs' = xs @ as" "ys' = (ys @ [f]) @ bs" "mset as + mset bs = mset fs"
      by (auto simp: spill_abs_def)
    then show ?thesis by (intro exI [of _ as] exI [of _ "f # bs"]) simp
  qed
qed

subsection \<open>Draining\<close>

text \<open>
  \<open>sz\<close> bounds the work a functor leads to: it counts more for a functor than for all it queues
  together. The functors \<open>zs\<close> are run in this order; \<open>run_balance\<close> says that what is run or left was there
  before or was queued by one of \<open>zs\<close>.
\<close>

definition run_balance :: "('f \<Rightarrow> 'f list) \<Rightarrow> 'f list \<Rightarrow> 'f multiset \<Rightarrow> 'f multiset \<Rightarrow> bool" where
  "run_balance react zs before left \<longleftrightarrow> mset zs + left = before + mset (concat (map react zs))"

lemma run_balance_trans:
  "run_balance react zs A B \<Longrightarrow> run_balance react zs' B C \<Longrightarrow> run_balance react (zs @ zs') A C"
  by (simp add: run_balance_def) (metis (no_types, lifting) add.assoc add.commute)

lemma drain_runs:
  assumes sz: "\<And>f. sum_list (map sz (react f)) < (sz f :: nat)"
  shows "loop_rep w xs ys \<Longrightarrow> \<exists>w' zs ys'. drain (exec_react react) keep w = Some (Inr w') \<and> loop_rep w' [] (ys @ ys')
    \<and> lp_log w' = lp_log w @ xs @ zs \<and> run_balance react (xs @ zs) (mset xs) (mset ys')
    \<and> lp_callingPending w' = lp_callingPending w"
proof (induction "sum_list (map sz xs)" arbitrary: w xs ys rule: less_induct)
  case less
  show ?case
  proof (cases xs)
    case Nil
    with less.prems peek_rep [OF less.prems] show ?thesis
      by (subst drain.simps) (auto simp: run_balance_def)
  next
    case (Cons f fs)
    obtain p where p: "mpsc_peek (lp_queue w) = Some p" using peek_rep [OF less.prems] Cons by force
    obtain xs1 ys1 where f: "fold (spill_abs pending_cap) (react f) (f # fs, ys) = (xs1, ys1)" by force
    then obtain as bs where ab: "xs1 = (f # fs) @ as" "ys1 = ys @ bs" "mset as + mset bs = mset (react f)"
      using fold_spill_prefix by blast
    obtain w1 where w1: "run_node (exec_react react) keep p w = Inr w1" "loop_rep w1 (fs @ as) (ys @ bs)"
        "lp_log w1 = lp_log w @ [f]" "lp_callingPending w1 = lp_callingPending w"
      using run_node_rep [OF less.prems [unfolded Cons] p, of react xs1 ys1] f ab by auto
    have "sum_list (map sz as) \<le> sum_list (map sz (react f))"
    proof -
      have "sum_mset (image_mset sz (mset as)) \<le> sum_mset (image_mset sz (mset (react f)))"
        unfolding ab(3) [symmetric] by simp
      then show ?thesis by (simp only: mset_map [symmetric] sum_mset_sum_list)
    qed
    then have "sum_list (map sz (fs @ as)) < sum_list (map sz xs)" using sz [of f] Cons by simp
    from less.hyps [OF this w1(2)] obtain w' zs ys' where ih: "drain (exec_react react) keep w1 = Some (Inr w')"
        "loop_rep w' [] ((ys @ bs) @ ys')" "lp_log w' = lp_log w1 @ (fs @ as) @ zs"
        "run_balance react ((fs @ as) @ zs) (mset (fs @ as)) (mset ys')"
        "lp_callingPending w' = lp_callingPending w1"
      by blast
    have "drain (exec_react react) keep w = Some (Inr w')"
      using p w1(1) ih(1) by (subst drain.simps) simp
    moreover have "run_balance react (xs @ as @ zs) (mset xs) (mset (bs @ ys'))"
      using ih(4) ab(3) [symmetric] by (simp add: run_balance_def Cons)
    ultimately show ?thesis
      using ih w1 Cons by (intro exI [of _ w'] exI [of _ "as @ zs"] exI [of _ "bs @ ys'"]) simp
  qed
qed

lemma run_fallback_runs:
  assumes "loop_rep w xs []" and "lp_callingPending w" and "xs = [] \<or> 0 < lp_wakeups w"
  shows "\<exists>w' xs' ys'. foldR (exec_react react) fs w = Inr w' \<and> loop_rep w' xs' ys' \<and> lp_log w' = lp_log w @ fs
    \<and> run_balance react fs (mset fs + mset xs) (mset xs' + mset ys') \<and> lp_callingPending w'
    \<and> (xs' = [] \<and> ys' = [] \<or> 0 < lp_wakeups w')"
proof -
  have "\<exists>w' xs' ys'. foldR (exec_react react) fs w = Inr w' \<and> loop_rep w' xs' ys' \<and> lp_log w' = lp_log w @ fs
    \<and> run_balance react fs (mset fs + mset xs + mset ys) (mset xs' + mset ys') \<and> lp_callingPending w'
    \<and> (xs' = [] \<and> ys' = [] \<or> 0 < lp_wakeups w')"
    if "loop_rep w xs ys" "lp_callingPending w" "xs = [] \<and> ys = [] \<or> 0 < lp_wakeups w" for w xs ys
    using that
  proof (induction fs arbitrary: w xs ys)
    case Nil
    then show ?case by (auto simp: run_balance_def)
  next
    case (Cons f fs)
    obtain x1 y1 where f: "fold (spill_abs pending_cap) (react f) (xs, ys) = (x1, y1)" by force
    then obtain as bs where ab: "x1 = xs @ as" "y1 = ys @ bs" "mset as + mset bs = mset (react f)"
      using fold_spill_prefix by blast
    obtain w1 where w1: "exec_react react f w = Inr w1" "loop_rep w1 x1 y1" "lp_log w1 = lp_log w @ [f]"
        "lp_callingPending w1" "lp_wakeups w \<le> lp_wakeups w1" "react f \<noteq> [] \<longrightarrow> 0 < lp_wakeups w1"
      using exec_react_rep [OF Cons.prems(1), of react f x1 y1] f Cons.prems(2) by auto
    have "x1 = [] \<and> y1 = [] \<or> 0 < lp_wakeups w1"
      using Cons.prems(3) w1(5,6) ab by (cases "react f = []") auto
    from Cons.IH [OF w1(2,4) this] obtain w' xs' ys' where ih:
        "foldR (exec_react react) fs w1 = Inr w'" "loop_rep w' xs' ys'" "lp_log w' = lp_log w1 @ fs"
        "run_balance react fs (mset fs + mset x1 + mset y1) (mset xs' + mset ys')"
        "lp_callingPending w'" "xs' = [] \<and> ys' = [] \<or> 0 < lp_wakeups w'"
      by blast
    have "run_balance react (f # fs) (mset (f # fs) + mset xs + mset ys) (mset xs' + mset ys')"
      using ih(4) ab by (simp add: run_balance_def ab(3) [symmetric] ac_simps)
    with ih w1 show ?case by (intro exI [of _ w'] exI [of _ xs'] exI [of _ ys']) auto
  qed
  from this [OF assms(1,2)] assms(3) show ?thesis by simp
qed

lemma doPendingFunctors_runs:
  assumes sz: "\<And>f. sum_list (map sz (react f)) < (sz f :: nat)" and rep: "loop_rep w xs ys"
  shows "\<exists>w' zs xs' ys'. doPendingFunctors (exec_react react) keep w = Some (Inr w')
    \<and> loop_rep w' xs' ys' \<and> lp_log w' = lp_log w @ xs @ zs \<and> set ys \<subseteq> set zs
    \<and> run_balance react (xs @ zs) (mset xs + mset ys) (mset xs' + mset ys')
    \<and> (xs' = [] \<and> ys' = [] \<or> 0 < lp_wakeups w') \<and> \<not> lp_callingPending w'"
proof -
  let ?w1 = "w\<lparr>lp_callingPending := True\<rparr>"
  have rep1: "loop_rep ?w1 xs ys" using rep by (simp add: loop_rep_def)
  obtain w2 zs1 ys1 where d: "drain (exec_react react) keep ?w1 = Some (Inr w2)" "loop_rep w2 [] (ys @ ys1)"
      "lp_log w2 = lp_log w @ xs @ zs1" "run_balance react (xs @ zs1) (mset xs) (mset ys1)" "lp_callingPending w2"
    using drain_runs [where sz = sz, OF sz rep1] by auto
  have fn: "lp_functors w2 = ys @ ys1" and "loop_rep (w2\<lparr>lp_functors := []\<rparr>) [] []"
    using d(2) by (auto simp: loop_rep_def)
  from run_fallback_runs [OF this(2), where react = react and fs = "ys @ ys1"] d(5)
  obtain w3 xs' ys' where r: "foldR (exec_react react) (ys @ ys1) (w2\<lparr>lp_functors := []\<rparr>) = Inr w3"
      "loop_rep w3 xs' ys'" "lp_log w3 = lp_log w2 @ ys @ ys1"
      "run_balance react (ys @ ys1) (mset (ys @ ys1)) (mset xs' + mset ys')"
      "xs' = [] \<and> ys' = [] \<or> 0 < lp_wakeups w3"
    by auto
  let ?w4 = "w3\<lparr>lp_callingPending := False\<rparr>"
  have valid: "isValid (lp_queue ?w1)" using rep mq_rep_valid by (auto simp: loop_rep_def)
  have "doPendingFunctors (exec_react react) keep w = Some (Inr ?w4)"
    using valid d(1) r(1) fn by (simp add: doPendingFunctors_def run_fallback_def Let_def)
  moreover have "run_balance react ((xs @ zs1) @ ys @ ys1) (mset xs + mset ys) (mset xs' + mset ys')"
  proof (rule run_balance_trans)
    show "run_balance react (xs @ zs1) (mset xs + mset ys) (mset (ys @ ys1))"
      using d(4) by (simp add: run_balance_def ac_simps)
  qed (rule r(4))
  moreover have "loop_rep ?w4 xs' ys'" using r(2) by (simp add: loop_rep_def)
  ultimately show ?thesis
    using d(3) r(3,5) by (intro exI [of _ ?w4] exI [of _ "zs1 @ ys @ ys1"] exI [of _ xs'] exI [of _ ys']) auto
qed

subsection \<open>A functor that queues itself\<close>

lemma pending_cap_1024: "pending_cap = 1024"
  by (simp add: pending_cap_def pending_order_def ring_slots_def)

lemma drain_diverges:
  assumes "react f = [f]" and "loop_rep w [f] ys"
  shows "drain (exec_react react) keep w = None"
proof (rule ccontr)
  assume "drain (exec_react react) keep w \<noteq> None"
  then obtain r where r: "drain (exec_react react) keep w = Some r" by blast
  have "exec_react react = exec_react react \<and> keep = (keep :: 'a \<Rightarrow> 'a logged \<Rightarrow> 'a logged res) \<longrightarrow> (\<forall>ys. \<not> loop_rep w [f] ys)"
  proof (rule drain.raw_induct [OF _ r, of "\<lambda>e d w r. e = exec_react react \<and> d = keep \<longrightarrow> (\<forall>ys. \<not> loop_rep w [f] ys)"])
    fix dr :: "('a \<Rightarrow> 'a logged \<Rightarrow> 'a logged res) \<Rightarrow> ('a \<Rightarrow> 'a logged \<Rightarrow> 'a logged res) \<Rightarrow> 'a logged \<Rightarrow> 'a logged res option"
      and e d w r
    assume ih: "\<And>e d w r. dr e d w = Some r \<Longrightarrow> e = exec_react react \<and> d = keep \<longrightarrow> (\<forall>ys. \<not> loop_rep w [f] ys)"
      and eq: "(case mpsc_peek (lp_queue w) of None \<Rightarrow> Some (Inr w)
        | Some p \<Rightarrow> (case run_node e d p w of Inl e \<Rightarrow> Some (Inl e) | Inr w' \<Rightarrow> dr e d w')) = Some r"
    show "e = exec_react react \<and> d = keep \<longrightarrow> (\<forall>ys. \<not> loop_rep w [f] ys)"
    proof (intro impI allI notI)
      fix ys assume e: "e = exec_react react \<and> d = keep" and rep: "loop_rep w [f] ys"
      obtain p where p: "mpsc_peek (lp_queue w) = Some p" using peek_rep [OF rep] by force
      have "fold (spill_abs pending_cap) (react f) ([f], ys) = ([f, f], ys)"
        by (simp add: assms(1) spill_abs_def pending_cap_1024)
      from run_node_rep [OF rep p, of react, OF this]
      obtain w' where "run_node e d p w = Inr w'" "loop_rep w' [f] ys" by (auto simp: e)
      with ih [of e d w' r] eq p e show False by auto
    qed
  qed
  with assms(2) show False by blast
qed

lemma fold_spill_room:
  "length xs + length fs \<le> cap \<Longrightarrow> fold (spill_abs cap) fs (xs, ys) = (xs @ fs, ys)"
  by (induction fs arbitrary: xs) (auto simp: spill_abs_def)

definition fresh_loop :: "'f logged" where
  "fresh_loop = \<lparr>chans = Map.empty, pl_channels = Map.empty, pl_size = 16, ctl_trace = [],
     lp_looping = False, lp_quit = False, lp_eventHandling = False, lp_callingPending = False, lp_active = [],
     lp_current = None, lp_queue = MpscQueue_new example_os pending_order, lp_functors = [], lp_wakeups = 0, lp_log = []\<rparr>"

lemma fresh_loop_rep: "loop_rep (fresh_loop :: 'f logged) [] []"
  using mq_rep_new [OF example_queue, where 'a = 'f]
  by (simp add: loop_rep_def fresh_loop_def pending_order_def)

lemma filled_loop_rep:
  assumes "length fs \<le> pending_cap"
  shows "loop_rep (fold (queueInLoop False) fs fresh_loop) fs []"
    and "lp_log (fold (queueInLoop False) fs fresh_loop) = []"
proof -
  have "fold (spill_abs pending_cap) fs ([], []) = (fs, [])"
    using fold_spill_room [of "[]" fs pending_cap "[]"] assms by simp
  from queue_list [OF fresh_loop_rep this, of False]
  show "loop_rep (fold (queueInLoop False) fs fresh_loop) fs []"
    and "lp_log (fold (queueInLoop False) fs fresh_loop) = []"
    by (auto simp: fresh_loop_def)
qed

subsection \<open>Properties\<close>



text \<open>
  Claim C35. \<open>doPendingFunctors\<close> also runs what is queued while it runs. A functor that queues itself keeps it
  from ever returning: the loop serves no descriptor and no timer any more, and does not see \<open>quit\<close>.
\<close>

theorem requeue_starves_loop:
  "doPendingFunctors (exec_react (\<lambda>f. [f])) keep (queueInLoop False (7 :: nat) fresh_loop) = None"
proof -
  let ?w = "queueInLoop False (7 :: nat) fresh_loop"
  have rep: "loop_rep ?w [7] []"
    using filled_loop_rep(1) [of "[7 :: nat]"] by (simp add: pending_cap_1024)
  then have "isValid (lp_queue ?w)" using mq_rep_valid by (auto simp: loop_rep_def)
  moreover have "loop_rep (?w\<lparr>lp_callingPending := True\<rparr>) [7] []" using rep by (simp add: loop_rep_def)
  from drain_diverges [OF _ this, of "\<lambda>f. [f]"]
  have "drain (exec_react (\<lambda>f. [f])) keep (?w\<lparr>lp_callingPending := True\<rparr>) = None" by simp
  ultimately show ?thesis by (simp add: doPendingFunctors_def Let_def)
qed

definition swap_react :: "nat \<Rightarrow> nat list" where
  "swap_react f = (if f = 0 then [2] else if f = 1 then [3] else [])"

text \<open>
  Claim C36. When the lock-free queue is full the functor goes to the fallback list, which is run after
  the queue is empty: a functor queued later, when there is room again, overtakes it.
\<close>

theorem fallback_reorders:
  "\<exists>w :: nat logged. loop_rep w (0 # 1 # replicate 1022 4) [] \<and> lp_log w = []
     \<and> (\<exists>w'. drain (exec_react swap_react) keep w = Some (Inr w') \<and> 3 \<in> set (lp_log w')
          \<and> 2 \<notin> set (lp_log w') \<and> 2 \<in> set (lp_functors w'))"
proof -
  let ?r = "replicate 1022 (4 :: nat)"
  let ?w = "fold (queueInLoop False) (0 # 1 # ?r) fresh_loop :: nat logged"
  have rep: "loop_rep ?w (0 # 1 # ?r) []" and log: "lp_log ?w = []"
    using filled_loop_rep [of "0 # 1 # ?r"] by (simp_all add: pending_cap_1024)
  obtain p0 where p0: "mpsc_peek (lp_queue ?w) = Some p0" using peek_rep [OF rep] by force
  have "fold (spill_abs pending_cap) (swap_react 0) (0 # 1 # ?r, []) = (0 # 1 # ?r, [2])"
    by (simp add: swap_react_def spill_abs_def pending_cap_1024)
  from run_node_rep [OF rep p0, of swap_react, OF this] log obtain w1
    where w1: "run_node (exec_react swap_react) keep p0 ?w = Inr w1" "loop_rep w1 (1 # ?r) [2]" "lp_log w1 = [0]"
    by auto
  obtain p1 where p1: "mpsc_peek (lp_queue w1) = Some p1" using peek_rep [OF w1(2)] by force
  have "fold (spill_abs pending_cap) (swap_react 1) (1 # ?r, [2]) = (1 # ?r @ [3], [2])"
    by (simp add: swap_react_def spill_abs_def pending_cap_1024)
  from run_node_rep [OF w1(2) p1, of swap_react, OF this] w1(3) obtain w2
    where w2: "run_node (exec_react swap_react) keep p1 w1 = Inr w2" "loop_rep w2 (?r @ [3]) [2]" "lp_log w2 = [0, 1]"
    by auto
  have "sum_list (map (\<lambda>f. if f \<le> 1 then 2 else 1) (swap_react f)) < (if f \<le> 1 then 2 else 1 :: nat)" for f
    by (auto simp: swap_react_def)
  from drain_runs [where sz = "\<lambda>f. if f \<le> 1 then 2 else 1", OF this w2(2)]
  obtain w' zs ys' where d: "drain (exec_react swap_react) keep w2 = Some (Inr w')" "loop_rep w' [] ([2] @ ys')"
      "lp_log w' = lp_log w2 @ (?r @ [3]) @ zs" "run_balance swap_react ((?r @ [3]) @ zs) (mset (?r @ [3])) (mset ys')"
    by blast
  have "concat (map swap_react ((?r @ [3]) @ zs)) = concat (map swap_react zs)"
    by (simp add: swap_react_def)
  then have zs: "mset zs + mset ys' = mset (concat (map swap_react zs))"
    using d(4) by (simp add: run_balance_def)
  have "drain (exec_react swap_react) keep ?w = Some (Inr w')"
    using p0 w1(1) p1 w2(1) d(1) by (subst drain.simps, simp) (subst drain.simps, simp)
  moreover have "set zs \<subseteq> {2, 3}"
    using arg_cong [OF zs, of set_mset] by (auto simp: swap_react_def split: if_splits)
  then have none: "concat (map swap_react zs) = []" by (auto simp: swap_react_def)
  have "zs = []" using zs unfolding none by simp
  ultimately show ?thesis
    using rep log d(2,3) w2(3) by (intro exI [of _ ?w]) (auto simp: loop_rep_def)
qed
end
