(* ===== verification/Buffer.thy ===== *)
theory Buffer
  imports Prelude "HOL-Library.Sublist"
begin

text \<open>
  The byte buffer of \<open>include/hvnetpp/Buffer.h\<close> and \<open>src/Buffer.cpp\<close>: a vector with a reader and
  a writer index. The definitions follow the class member by member; the vector is a list of
  bytes, so its size is the length of the list. Sums of a caller-supplied length are taken
  modulo \<open>2 ^ 64\<close>, as \<open>size_t\<close> does; differences of the indices need no wrap-around because
  \<open>buffer_inv\<close> keeps them ordered. Allocation failure (\<open>std::bad_alloc\<close>) is not modelled.

  The lemmas show that every member keeps the invariant, that none of the assertions can fail
  under its documented precondition, and that the readable bytes behave as a first-in first-out
  byte queue: the contract is the locale \<open>fifo_bytes\<close>, interpreted on these definitions.
\<close>

subsection \<open>State\<close>

definition kCheapPrepend :: nat where "kCheapPrepend = 8"
definition kInitialSize :: nat where "kInitialSize = 1024"

text \<open>\<open>std::vector<char>::max_size()\<close>: the largest object size of a 64-bit target.\<close>

definition vec_max_size :: nat where "vec_max_size = 2 ^ 63 - 1"

definition size_add :: "nat \<Rightarrow> nat \<Rightarrow> nat" where
  "size_add a b = (a + b) mod 2 ^ 64"

record buffer =
  buf_data :: "byte list"
  readerIndex :: nat
  writerIndex :: nat

definition Buffer_new :: "nat \<Rightarrow> buffer" where
  "Buffer_new initialSize =
     \<lparr>buf_data = replicate (kCheapPrepend + initialSize) 0,
      readerIndex = kCheapPrepend, writerIndex = kCheapPrepend\<rparr>"

subsection \<open>Members\<close>

definition readableBytes :: "buffer \<Rightarrow> nat" where
  "readableBytes b = writerIndex b - readerIndex b"

definition writableBytes :: "buffer \<Rightarrow> nat" where
  "writableBytes b = length (buf_data b) - writerIndex b"

definition prependableBytes :: "buffer \<Rightarrow> nat" where
  "prependableBytes b = readerIndex b"

text \<open>\<open>peek\<close> is the address of the readable bytes; the model returns the bytes it points to.\<close>

definition peek :: "buffer \<Rightarrow> byte list" where
  "peek b = seg (readerIndex b) (writerIndex b) (buf_data b)"

definition retrieveAll :: "buffer \<Rightarrow> buffer" where
  "retrieveAll b = b\<lparr>readerIndex := kCheapPrepend, writerIndex := kCheapPrepend\<rparr>"

definition retrieve :: "nat \<Rightarrow> buffer \<Rightarrow> buffer res" where
  "retrieve len b =
     assertR (len \<le> readableBytes b)
       (if len < readableBytes b then Inr (b\<lparr>readerIndex := readerIndex b + len\<rparr>)
        else Inr (retrieveAll b))"

definition retrieveAsString :: "nat \<Rightarrow> buffer \<Rightarrow> (byte list \<times> buffer) res" where
  "retrieveAsString len b =
     assertR (len \<le> readableBytes b)
       (let result = take len (peek b)
        in bindR (retrieve len b) (\<lambda>b'. Inr (result, b')))"

definition retrieveAllAsString :: "buffer \<Rightarrow> (byte list \<times> buffer) res" where
  "retrieveAllAsString b = retrieveAsString (readableBytes b) b"

definition vec_resize :: "nat \<Rightarrow> byte list \<Rightarrow> byte list res" where
  "vec_resize n xs =
     (if vec_max_size < n then Inl LengthError
      else Inr (take n xs @ replicate (n - length xs) 0))"

definition makeSpace :: "nat \<Rightarrow> buffer \<Rightarrow> buffer res" where
  "makeSpace len b =
     (if size_add (writableBytes b) (prependableBytes b) < size_add len kCheapPrepend
      then bindR (vec_resize (size_add (writerIndex b) len) (buf_data b))
             (\<lambda>xs. Inr (b\<lparr>buf_data := xs\<rparr>))
      else assertR (kCheapPrepend < readerIndex b)
        (let readable = readableBytes b;
             b' = b\<lparr>buf_data := blit kCheapPrepend (peek b) (buf_data b),
                    readerIndex := kCheapPrepend,
                    writerIndex := kCheapPrepend + readable\<rparr>
         in assertR (readable = readableBytes b') (Inr b')))"

definition ensureWritableBytes :: "nat \<Rightarrow> buffer \<Rightarrow> buffer res" where
  "ensureWritableBytes len b =
     bindR (if writableBytes b < len then makeSpace len b else Inr b)
       (\<lambda>b'. assertR (len \<le> writableBytes b') (Inr b'))"

definition hasWritten :: "nat \<Rightarrow> buffer \<Rightarrow> buffer res" where
  "hasWritten len b =
     assertR (len \<le> writableBytes b) (Inr (b\<lparr>writerIndex := writerIndex b + len\<rparr>))"

definition append :: "byte list \<Rightarrow> buffer \<Rightarrow> buffer res" where
  "append data b =
     bindR (ensureWritableBytes (length data) b)
       (\<lambda>b'. hasWritten (length data)
               (b'\<lparr>buf_data := blit (writerIndex b') data (buf_data b')\<rparr>))"

definition prepend :: "byte list \<Rightarrow> buffer \<Rightarrow> buffer res" where
  "prepend data b =
     assertR (length data \<le> prependableBytes b)
       (let r = readerIndex b - length data
        in Inr (b\<lparr>readerIndex := r, buf_data := blit r data (buf_data b)\<rparr>))"

text \<open>
  \<open>readFd\<close>: \<open>readv\<close> is the system call, given the lengths of the buffers it may fill and returning
  its result, the error number and the bytes it delivered, in order. The result carries the
  returned count and, on failure, the error number stored through \<open>savedErrno\<close>.
\<close>

type_synonym readv_call = "nat list \<Rightarrow> int \<times> errno \<times> byte list"

definition extrabuf_size :: nat where "extrabuf_size = 65536"

definition readFd_iov :: "buffer \<Rightarrow> nat list" where
  "readFd_iov b =
     (if writableBytes b < extrabuf_size then [writableBytes b, extrabuf_size] else [writableBytes b])"

definition readFd :: "readv_call \<Rightarrow> buffer \<Rightarrow> (int \<times> errno option \<times> buffer) res" where
  "readFd readv b =
     (let writable = writableBytes b; (n, err, bytes) = readv (readFd_iov b) in
      if n < 0 then Inr (n, Some err, b)
      else
        let b' = b\<lparr>buf_data := blit (writerIndex b) (take writable bytes) (buf_data b)\<rparr> in
        if nat n \<le> writable then Inr (n, None, b'\<lparr>writerIndex := writerIndex b' + nat n\<rparr>)
        else bindR (append (drop writable bytes) (b'\<lparr>writerIndex := length (buf_data b')\<rparr>))
               (\<lambda>b''. Inr (n, None, b'')))"

text \<open>What the manual page of \<open>readv\<close> promises of a successful call.\<close>

definition readv_ok :: "readv_call \<Rightarrow> bool" where
  "readv_ok readv \<longleftrightarrow> (\<forall>lens. case readv lens of (n, err, bytes) \<Rightarrow>
     0 \<le> n \<longrightarrow> length bytes = nat n \<and> nat n \<le> sum_list lens)"

subsection \<open>Invariant and room\<close>

definition buffer_inv :: "buffer \<Rightarrow> bool" where
  "buffer_inv b \<longleftrightarrow> kCheapPrepend \<le> length (buf_data b) \<and> readerIndex b \<le> writerIndex b
     \<and> writerIndex b \<le> length (buf_data b) \<and> length (buf_data b) \<le> vec_max_size"

definition buffer_room :: "nat \<Rightarrow> buffer \<Rightarrow> bool" where
  "buffer_room n b \<longleftrightarrow> length (buf_data b) + n + kCheapPrepend \<le> vec_max_size"

lemmas buffer_defs = readableBytes_def writableBytes_def prependableBytes_def peek_def
  kCheapPrepend_def vec_max_size_def

lemma size_add_exact: "a + b < 2 ^ 64 \<Longrightarrow> size_add a b = a + b"
  by (simp add: size_add_def)

lemma buffer_inv_new: "kCheapPrepend + n \<le> vec_max_size \<Longrightarrow> buffer_inv (Buffer_new n)"
  by (simp add: buffer_inv_def Buffer_new_def)

lemma length_peek [simp]: "buffer_inv b \<Longrightarrow> length (peek b) = readableBytes b"
  by (simp add: buffer_inv_def peek_def readableBytes_def)

lemma peek_new [simp]: "peek (Buffer_new n) = []"
  by (simp add: peek_def Buffer_new_def)

lemma retrieveAll_spec: "buffer_inv b \<Longrightarrow> buffer_inv (retrieveAll b) \<and> peek (retrieveAll b) = []"
  by (simp add: buffer_inv_def retrieveAll_def peek_def)

lemma retrieve_spec:
  assumes "buffer_inv b" and "n \<le> readableBytes b"
  shows "wpR (retrieve n b)
    (\<lambda>b'. buffer_inv b' \<and> peek b' = drop n (peek b) \<and> buf_data b' = buf_data b)"
proof (cases "n < readableBytes b")
  case True
  with assms show ?thesis
    by (auto simp: retrieve_def buffer_inv_def readableBytes_def peek_def drop_seg)
next
  case False
  with assms have n: "n = readableBytes b" by simp
  with assms(1) have "drop n (peek b) = []" by simp
  with n assms retrieveAll_spec [of b] show ?thesis
    by (simp add: retrieve_def) (simp add: retrieveAll_def)
qed

lemma makeSpace_sums:
  assumes "buffer_inv b" and "len \<le> vec_max_size"
  shows "size_add (writableBytes b) (prependableBytes b) = writableBytes b + readerIndex b"
    "size_add len kCheapPrepend = len + kCheapPrepend" "size_add (writerIndex b) len = writerIndex b + len"
  using assms by (auto simp: size_add_def buffer_inv_def buffer_defs intro!: mod_less)

lemma makeSpace_eq:
  assumes "buffer_inv b" and "buffer_room len b"
  shows "makeSpace len b =
     (if writableBytes b + readerIndex b < len + kCheapPrepend
      then Inr (b\<lparr>buf_data := take (writerIndex b + len) (buf_data b)
                  @ replicate (writerIndex b + len - length (buf_data b)) 0\<rparr>)
      else assertR (kCheapPrepend < readerIndex b)
        (Inr (b\<lparr>buf_data := blit kCheapPrepend (peek b) (buf_data b),
                readerIndex := kCheapPrepend,
                writerIndex := kCheapPrepend + readableBytes b\<rparr>)))"
proof -
  have "len \<le> vec_max_size" using assms(2) by (simp add: buffer_room_def)
  note sums = makeSpace_sums [OF assms(1) this]
  have "writerIndex b + len \<le> vec_max_size"
    using assms by (auto simp: buffer_inv_def buffer_room_def)
  then show ?thesis
    by (simp add: makeSpace_def sums vec_resize_def Let_def readableBytes_def)
qed

lemma compact_spec:
  assumes "buffer_inv b" and "kCheapPrepend < readerIndex b"
    and b': "b' = b\<lparr>buf_data := blit kCheapPrepend (peek b) (buf_data b),
                readerIndex := kCheapPrepend,
                writerIndex := kCheapPrepend + readableBytes b\<rparr>"
  shows "buffer_inv b' \<and> peek b' = peek b \<and> length (buf_data b') = length (buf_data b)
    \<and> writableBytes b' = writableBytes b + (readerIndex b - kCheapPrepend)"
proof -
  have len: "kCheapPrepend + length (peek b) \<le> length (buf_data b)"
    using assms(1,2) by (auto simp: buffer_inv_def readableBytes_def peek_def)
  have "peek b' = peek b"
    using seg_blit_same [OF len] assms(1) by (simp add: b' peek_def [of "b\<lparr>buf_data := _\<rparr>"])
      (simp add: peek_def)
  moreover have "length (buf_data b') = length (buf_data b)"
    using len by (simp add: b')
  ultimately show ?thesis
    using assms(1,2) by (auto simp: b' buffer_inv_def writableBytes_def readableBytes_def)
qed

lemma makeSpace_spec:
  assumes inv: "buffer_inv b" and room: "buffer_room len b" and small: "writableBytes b < len"
  shows "wpR (makeSpace len b) (\<lambda>b'. buffer_inv b' \<and> peek b' = peek b
    \<and> len \<le> writableBytes b' \<and> length (buf_data b') \<le> length (buf_data b) + len)"
proof (cases "writableBytes b + readerIndex b < len + kCheapPrepend")
  case True
  have "writerIndex b + len \<le> vec_max_size" and "length (buf_data b) \<le> writerIndex b + len"
    using inv room small by (auto simp: buffer_inv_def buffer_room_def writableBytes_def)
  with inv True show ?thesis
    by (simp add: makeSpace_eq [OF inv room] buffer_inv_def peek_def writableBytes_def
        seg_append_left)
next
  case False
  then have "kCheapPrepend < readerIndex b" using small by simp
  with False compact_spec [OF inv this refl] show ?thesis
    by (simp add: makeSpace_eq [OF inv room])
qed

lemma ensureWritableBytes_spec:
  assumes "buffer_inv b" and "buffer_room len b"
  shows "wpR (ensureWritableBytes len b) (\<lambda>b'. buffer_inv b' \<and> peek b' = peek b
    \<and> len \<le> writableBytes b' \<and> length (buf_data b') \<le> length (buf_data b) + len)"
proof (cases "writableBytes b < len")
  case True
  with makeSpace_spec [OF assms True] show ?thesis
    by (auto simp: ensureWritableBytes_def elim: wpR_mono)
next
  case False
  with assms show ?thesis by (simp add: ensureWritableBytes_def)
qed

lemma write_spec:
  assumes "buffer_inv b" and "length d \<le> writableBytes b"
  shows "wpR (hasWritten (length d) (b\<lparr>buf_data := blit (writerIndex b) d (buf_data b)\<rparr>))
    (\<lambda>b'. buffer_inv b' \<and> peek b' = peek b @ d \<and> length (buf_data b') = length (buf_data b))"
proof -
  let ?xs = "blit (writerIndex b) d (buf_data b)"
  have fits: "writerIndex b + length d \<le> length (buf_data b)"
    using assms by (auto simp: buffer_inv_def writableBytes_def)
  have "seg (readerIndex b) (writerIndex b + length d) ?xs
      = seg (readerIndex b) (writerIndex b) ?xs @ seg (writerIndex b) (writerIndex b + length d) ?xs"
    using assms by (simp add: seg_append buffer_inv_def)
  also have "\<dots> = peek b @ d"
    using fits by (simp add: seg_blit_before seg_blit_same peek_def)
  finally show ?thesis
    using assms fits by (simp add: hasWritten_def buffer_inv_def writableBytes_def peek_def)
qed

lemma append_spec:
  assumes "buffer_inv b" and "buffer_room (length d) b"
  shows "wpR (append d b) (\<lambda>b'. buffer_inv b' \<and> peek b' = peek b @ d
    \<and> length (buf_data b') \<le> length (buf_data b) + length d)"
proof -
  have "wpR (ensureWritableBytes (length d) b) (\<lambda>b'. wpR (hasWritten (length d)
          (b'\<lparr>buf_data := blit (writerIndex b') d (buf_data b')\<rparr>))
      (\<lambda>b''. buffer_inv b'' \<and> peek b'' = peek b @ d
         \<and> length (buf_data b'') \<le> length (buf_data b) + length d))"
    using ensureWritableBytes_spec [OF assms]
    by (rule wpR_mono) (auto intro: wpR_mono [OF write_spec])
  then show ?thesis by (simp add: append_def)
qed

text \<open>Without room, appending can only fail because the vector cannot grow.\<close>

lemma makeSpace_total:
  assumes inv: "buffer_inv b" and len: "len \<le> vec_max_size" and small: "writableBytes b < len"
  shows "wpF {LengthError} (makeSpace len b) (\<lambda>b'. buffer_inv b' \<and> peek b' = peek b \<and> len \<le> writableBytes b')"
proof (cases "writableBytes b + readerIndex b < len + kCheapPrepend")
  case True
  moreover have "length (buf_data b) \<le> writerIndex b + len" using small by (simp add: writableBytes_def)
  ultimately show ?thesis
    using inv by (simp add: makeSpace_def makeSpace_sums [OF inv len] vec_resize_def)
      (simp add: buffer_inv_def peek_def writableBytes_def seg_append_left)
next
  case False
  then have "kCheapPrepend < readerIndex b" using small by simp
  with False compact_spec [OF inv this refl] show ?thesis
    by (simp add: makeSpace_def makeSpace_sums [OF inv len] Let_def readableBytes_def)
qed

lemma append_total:
  assumes "buffer_inv b" and "length d \<le> vec_max_size"
  shows "wpF {LengthError} (append d b) (\<lambda>b'. buffer_inv b' \<and> peek b' = peek b @ d)"
proof -
  have "wpF {LengthError} (ensureWritableBytes (length d) b)
      (\<lambda>b'. buffer_inv b' \<and> peek b' = peek b \<and> length d \<le> writableBytes b')"
    using makeSpace_total [OF assms] assms(1) by (auto simp: ensureWritableBytes_def elim: wpF_mono)
  then have "wpF {LengthError} (ensureWritableBytes (length d) b) (\<lambda>b'. wpF {LengthError} (hasWritten (length d)
          (b'\<lparr>buf_data := blit (writerIndex b') d (buf_data b')\<rparr>))
      (\<lambda>b''. buffer_inv b'' \<and> peek b'' = peek b @ d))"
    by (rule wpF_mono) (auto intro: wpF_weaken [OF write_spec])
  then show ?thesis by (simp add: append_def)
qed

lemma prepend_spec:
  assumes "buffer_inv b" and "length d \<le> prependableBytes b"
  shows "wpR (prepend d b) (\<lambda>b'. buffer_inv b' \<and> peek b' = d @ peek b)"
proof -
  let ?r = "readerIndex b - length d" and ?xs = "blit (readerIndex b - length d) d (buf_data b)"
  have r: "?r + length d = readerIndex b" and le: "readerIndex b \<le> length (buf_data b)"
    using assms by (auto simp: prependableBytes_def buffer_inv_def)
  have "seg ?r (writerIndex b) ?xs = seg ?r (readerIndex b) ?xs @ seg (readerIndex b) (writerIndex b) ?xs"
    using assms by (simp add: seg_append buffer_inv_def)
  also have "\<dots> = d @ peek b"
    using r le seg_blit_same [of ?r d "buf_data b"]
    by (simp add: seg_blit_after peek_def)
  finally show ?thesis
    using assms r le by (simp add: prepend_def Let_def buffer_inv_def peek_def)
qed

lemma retrieveAsString_spec:
  assumes "buffer_inv b" and "n \<le> readableBytes b"
  shows "wpR (retrieveAsString n b)
    (\<lambda>(s, b'). s = take n (peek b) \<and> buffer_inv b' \<and> peek b' = drop n (peek b))"
  using retrieve_spec [OF assms] assms(2)
  by (auto simp: retrieveAsString_def elim: wpR_mono)

subsection \<open>The contract: a byte queue\<close>

text \<open>
  A client pushes bytes at the end and pops bytes from the front. \<open>room k b\<close> says that \<open>k\<close> more
  bytes can be pushed before the container reaches its maximal size.
\<close>

datatype fifo_op = Push "byte list" | Pop nat

fun fifo_step :: "(byte list \<Rightarrow> 'b \<Rightarrow> 'b res) \<Rightarrow> (nat \<Rightarrow> 'b \<Rightarrow> 'b res) \<Rightarrow> fifo_op \<Rightarrow> 'b \<Rightarrow> 'b res" where
  "fifo_step push pop (Push d) b = push d b"
| "fifo_step push pop (Pop n) b = pop n b"

fun fifo_pushed :: "fifo_op list \<Rightarrow> byte list" where
  "fifo_pushed [] = []"
| "fifo_pushed (Push d # ops) = d @ fifo_pushed ops"
| "fifo_pushed (Pop n # ops) = fifo_pushed ops"

text \<open>The bytes the pops return, from a queue holding \<open>xs\<close>; \<open>None\<close> when a pop asks for too much.\<close>

fun fifo_popped :: "fifo_op list \<Rightarrow> byte list \<Rightarrow> byte list option" where
  "fifo_popped [] xs = Some []"
| "fifo_popped (Push d # ops) xs = fifo_popped ops (xs @ d)"
| "fifo_popped (Pop n # ops) xs =
     (if n \<le> length xs then map_option ((@) (take n xs)) (fifo_popped ops (drop n xs)) else None)"

locale fifo_bytes =
  fixes content :: "'b \<Rightarrow> byte list"
    and invar :: "'b \<Rightarrow> bool"
    and room :: "nat \<Rightarrow> 'b \<Rightarrow> bool"
    and push :: "byte list \<Rightarrow> 'b \<Rightarrow> 'b res"
    and pop :: "nat \<Rightarrow> 'b \<Rightarrow> 'b res"
  assumes push_law: "invar b \<Longrightarrow> room (length d + k) b \<Longrightarrow>
      wpR (push d b) (\<lambda>b'. invar b' \<and> content b' = content b @ d \<and> room k b')"
    and pop_law: "invar b \<Longrightarrow> n \<le> length (content b) \<Longrightarrow> room k b \<Longrightarrow>
      wpR (pop n b) (\<lambda>b'. invar b' \<and> content b' = drop n (content b) \<and> room k b')"
begin

lemma run_conserves:
  assumes "invar b" and "room (length (fifo_pushed ops) + k) b"
    and "fifo_popped ops (content b) = Some out"
  shows "wpR (foldR (fifo_step push pop) ops b)
    (\<lambda>b'. invar b' \<and> room k b' \<and> out @ content b' = content b @ fifo_pushed ops)"
  using assms
proof (induction ops arbitrary: b out)
  case Nil
  then show ?case by simp
next
  case (Cons op ops)
  show ?case
  proof (cases op)
    case (Push d)
    with Cons.prems have "wpR (push d b) (\<lambda>b'. invar b' \<and> content b' = content b @ d
        \<and> room (length (fifo_pushed ops) + k) b')"
      using push_law [of b d "length (fifo_pushed ops) + k"] by (simp add: add.assoc)
    moreover have "wpR (foldR (fifo_step push pop) ops b')
        (\<lambda>c. invar c \<and> room k c \<and> out @ content c = (content b @ d) @ fifo_pushed ops)"
      if "invar b'" "content b' = content b @ d" "room (length (fifo_pushed ops) + k) b'" for b'
      using Cons.IH [OF that(1,3)] Cons.prems(3) that(2) Push by simp
    ultimately show ?thesis
      using Push by (auto elim!: wpR_mono)
  next
    case (Pop n)
    with Cons.prems obtain out' where n: "n \<le> length (content b)"
      and out': "fifo_popped ops (drop n (content b)) = Some out'" "out = take n (content b) @ out'"
      by (auto split: if_splits)
    with Pop Cons.prems pop_law [of b n "length (fifo_pushed ops) + k"]
    have "wpR (pop n b) (\<lambda>b'. invar b' \<and> content b' = drop n (content b)
        \<and> room (length (fifo_pushed ops) + k) b')"
      by simp
    moreover have "wpR (foldR (fifo_step push pop) ops b')
        (\<lambda>c. invar c \<and> room k c \<and> out' @ content c = drop n (content b) @ fifo_pushed ops)"
      if "invar b'" "content b' = drop n (content b)" "room (length (fifo_pushed ops) + k) b'" for b'
      using Cons.IH [OF that(1,3)] out'(1) that(2) by simp
    ultimately show ?thesis
      using Pop out'(2) by (fastforce elim!: wpR_mono)
  qed
qed

text \<open>What is left after a push and a pop, in one step: the shape a draining client needs.\<close>

lemma push_pop:
  assumes "invar b" and "room (length d + k) b" and "n \<le> length (content b) + length d"
  shows "wpR (bindR (push d b) (pop n))
    (\<lambda>b'. invar b' \<and> content b' = drop n (content b @ d) \<and> room k b')"
proof -
  have "wpR (pop n b') (\<lambda>c. invar c \<and> content c = drop n (content b @ d) \<and> room k c)"
    if "invar b'" "content b' = content b @ d" "room k b'" for b'
    using pop_law [OF that(1) _ that(3)] that(2) assms(3) by simp
  with push_law [OF assms(1,2)] show ?thesis
    by (auto elim!: wpR_mono)
qed

end

interpretation buf: fifo_bytes peek buffer_inv buffer_room append retrieve
proof
  fix b :: buffer and d :: "byte list" and k :: nat
  assume inv: "buffer_inv b" and room: "buffer_room (length d + k) b"
  then have "buffer_room (length d) b" by (simp add: buffer_room_def)
  from append_spec [OF inv this]
  show "wpR (append d b) (\<lambda>b'. buffer_inv b' \<and> peek b' = peek b @ d \<and> buffer_room k b')"
    by (rule wpR_mono) (use room in \<open>auto simp: buffer_room_def\<close>)
next
  fix b n k
  assume "buffer_inv b" and "n \<le> length (peek b)" and room: "buffer_room k b"
  then have "wpR (retrieve n b) (\<lambda>b'. buffer_inv b' \<and> peek b' = drop n (peek b) \<and> buf_data b' = buf_data b)"
    by (intro retrieve_spec) simp_all
  then show "wpR (retrieve n b) (\<lambda>b'. buffer_inv b' \<and> peek b' = drop n (peek b) \<and> buffer_room k b')"
    by (rule wpR_mono) (use room in \<open>auto simp: buffer_room_def\<close>)
qed

subsection \<open>Reading from a descriptor\<close>

lemma readFd_error:
  assumes "readv (readFd_iov b) = (n, err, bytes)" and "n < 0"
  shows "readFd readv b = Inr (n, Some err, b)"
  using assms by (simp add: readFd_def)

lemma fill_spec:
  assumes "buffer_inv b" and "length d \<le> writableBytes b"
    and b': "b' = b\<lparr>buf_data := blit (writerIndex b) d (buf_data b), writerIndex := writerIndex b + length d\<rparr>"
  shows "buffer_inv b' \<and> peek b' = peek b @ d \<and> length (buf_data b') = length (buf_data b)"
proof -
  have "length d \<le> writableBytes (b\<lparr>buf_data := blit (writerIndex b) d (buf_data b)\<rparr>)"
    using assms(1,2) by (auto simp: writableBytes_def buffer_inv_def)
  with write_spec [OF assms(1,2)] show ?thesis
    by (simp only: hasWritten_def checkR_simps wpF_simps simp_thms b') simp
qed

lemma readFd_by_append:
  assumes inv: "buffer_inv b" and ok: "readv_ok readv" and call: "readv (readFd_iov b) = (n, err, bytes)" and n: "0 \<le> n"
    and app: "\<And>b' d. buffer_inv b' \<Longrightarrow> length (buf_data b') = length (buf_data b) \<Longrightarrow> length d \<le> extrabuf_size \<Longrightarrow>
      wpF A (append d b') (\<lambda>b''. buffer_inv b'' \<and> peek b'' = peek b' @ d)"
  shows "wpF A (readFd readv b) (\<lambda>(m, saved, b'). m = n \<and> saved = None
    \<and> buffer_inv b' \<and> peek b' = peek b @ bytes)"
proof -
  have len: "length bytes = nat n" and bound: "nat n \<le> sum_list (readFd_iov b)"
    using ok call n by (auto simp: readv_ok_def dest!: spec [of _ "readFd_iov b"])
  show ?thesis
  proof (cases "nat n \<le> writableBytes b")
    case True
    then show ?thesis
      using call n len fill_spec [OF inv _ refl, of bytes] by (simp add: readFd_def Let_def)
  next
    case False
    let ?fill = "take (writableBytes b) bytes" and ?rest = "drop (writableBytes b) bytes"
    let ?b' = "b\<lparr>buf_data := blit (writerIndex b) ?fill (buf_data b), writerIndex := writerIndex b + length ?fill\<rparr>"
    have full: "length ?fill = writableBytes b" using False len by simp
    from fill_spec [OF inv _ refl, of ?fill] full
    have b': "buffer_inv ?b'" "peek ?b' = peek b @ ?fill" "length (buf_data ?b') = length (buf_data b)"
      by auto
    have eq: "b\<lparr>buf_data := blit (writerIndex b) ?fill (buf_data b),
        writerIndex := length (blit (writerIndex b) ?fill (buf_data b))\<rparr> = ?b'"
      using full inv b'(3) by (simp add: buffer_inv_def writableBytes_def)
    have "length ?rest \<le> extrabuf_size"
      using False bound len by (auto simp: readFd_iov_def split: if_splits)
    from app [OF b'(1,3) this] show ?thesis
      using call n False b'(2) eq by (auto simp: readFd_def Let_def elim!: wpF_mono)
  qed
qed

lemma readFd_spec:
  assumes inv: "buffer_inv b" and room: "buffer_room extrabuf_size b" and ok: "readv_ok readv"
    and call: "readv (readFd_iov b) = (n, err, bytes)" and n: "0 \<le> n"
  shows "wpR (readFd readv b) (\<lambda>(m, saved, b'). m = n \<and> saved = None
    \<and> buffer_inv b' \<and> peek b' = peek b @ bytes)"
proof (rule readFd_by_append [OF inv ok call n])
  fix b' :: buffer and d :: "byte list"
  assume "buffer_inv b'" and "length (buf_data b') = length (buf_data b)" and "length d \<le> extrabuf_size"
  then show "wpR (append d b') (\<lambda>b''. buffer_inv b'' \<and> peek b'' = peek b' @ d)"
    using room by (intro wpR_mono [OF append_spec]) (auto simp: buffer_room_def)
qed

lemma readFd_total:
  assumes inv: "buffer_inv b" and ok: "readv_ok readv"
  shows "wpF {LengthError} (readFd readv b) (\<lambda>(n, saved, b'). buffer_inv b' \<and> prefix (peek b) (peek b'))"
proof -
  obtain n err bytes where call: "readv (readFd_iov b) = (n, err, bytes)" by (cases "readv (readFd_iov b)")
  show ?thesis
  proof (cases "n < 0")
    case True
    then show ?thesis using readFd_error [of readv b n err bytes] call inv by simp
  next
    case False
    have "wpF {LengthError} (readFd readv b) (\<lambda>(m, saved, b'). m = n \<and> saved = None \<and> buffer_inv b' \<and> peek b' = peek b @ bytes)"
      using False by (intro readFd_by_append [OF inv ok call] append_total) (auto simp: extrabuf_size_def vec_max_size_def)
    then show ?thesis by (rule wpF_mono) auto
  qed
qed

subsection \<open>Room for a header in front\<close>

definition header_room :: "buffer \<Rightarrow> bool" where
  "header_room b \<longleftrightarrow> kCheapPrepend \<le> readerIndex b"

lemma header_room_retrieve: "header_room b \<Longrightarrow> retrieve n b = Inr b' \<Longrightarrow> header_room b'"
  by (auto simp: header_room_def retrieve_def retrieveAll_def checkR_eq_Inr split: if_splits)

lemma header_room_makeSpace: "header_room b \<Longrightarrow> makeSpace n b = Inr b' \<Longrightarrow> header_room b'"
  by (auto simp: header_room_def makeSpace_def Let_def checkR_eq_Inr bindR_eq_Inr split: if_splits)

lemma append_readerIndex:
  "append d b = Inr b' \<Longrightarrow>
     \<exists>c. (c = b \<or> makeSpace (length d) b = Inr c) \<and> readerIndex b' = readerIndex c"
  by (force simp: append_def ensureWritableBytes_def hasWritten_def bindR_eq_Inr checkR_eq_Inr
      split: if_splits)

lemma header_room_append:
  assumes "header_room b" and "append d b = Inr b'"
  shows "header_room b'"
proof -
  from append_readerIndex [OF assms(2)] obtain c
    where "c = b \<or> makeSpace (length d) b = Inr c" and "readerIndex b' = readerIndex c" by blast
  moreover from this assms(1) have "header_room c" by (auto intro: header_room_makeSpace)
  ultimately show ?thesis by (simp add: header_room_def)
qed

lemma header_room_run:
  "header_room b \<Longrightarrow> foldR (fifo_step append retrieve) ops b = Inr b' \<Longrightarrow> header_room b'"
proof (induction ops arbitrary: b)
  case Nil
  then show ?case by simp
next
  case (Cons op ops)
  from Cons.prems(2) obtain c where c: "fifo_step append retrieve op b = Inr c"
      "foldR (fifo_step append retrieve) ops c = Inr b'"
    by (auto simp: bindR_eq_Inr)
  with Cons.prems(1) have "header_room c"
    by (cases op) (auto intro: header_room_append header_room_retrieve)
  with c(2) show ?case by (rule Cons.IH [rotated])
qed

subsection \<open>Properties\<close>

text \<open>
  Claim C12. A buffer used through \<open>append\<close> and \<open>retrieve\<close> is a first-in first-out byte queue: from
  a new buffer, any sequence of appends and retrieves that never asks for more than is readable
  runs without a failing assertion, keeps the invariant, and the bytes handed out followed by the
  bytes still readable are exactly the bytes appended, in order, however often the storage was
  grown or compacted on the way.
\<close>

theorem buffer_fifo_refines:
  assumes "kCheapPrepend + n + length (fifo_pushed ops) + kCheapPrepend \<le> vec_max_size"
    and "fifo_popped ops [] = Some out"
  shows "wpR (foldR (fifo_step append retrieve) ops (Buffer_new n))
    (\<lambda>b. buffer_inv b \<and> out @ peek b = fifo_pushed ops)"
proof -
  have "buffer_inv (Buffer_new n)" using assms(1) by (intro buffer_inv_new) simp
  moreover have "buffer_room (length (fifo_pushed ops) + 0) (Buffer_new n)"
    using assms(1) by (simp add: buffer_room_def Buffer_new_def)
  ultimately have "wpR (foldR (fifo_step append retrieve) ops (Buffer_new n))
      (\<lambda>b. buffer_inv b \<and> buffer_room 0 b \<and> out @ peek b = peek (Buffer_new n) @ fifo_pushed ops)"
    by (rule buf.run_conserves) (simp add: assms(2))
  then show ?thesis by (rule wpR_mono) simp
qed

theorem buffer_fifo_refines_witness:
  "wpR (foldR (fifo_step append retrieve) [Push [1, 2, 3], Pop 2, Push [4, 5], Pop 1] (Buffer_new 2))
    (\<lambda>b. buffer_inv b \<and> [1, 2, 3] @ peek b = [1, 2, 3, 4, 5])"
  using buffer_fifo_refines [of 2 "[Push [1, 2, 3], Pop 2, Push [4, 5], Pop 1]" "[1, 2, 3]"]
  by (simp add: kCheapPrepend_def vec_max_size_def)

text \<open>
  Claim C20. \<open>readFd\<close> loses and invents nothing: when \<open>readv\<close> fails the buffer is unchanged and the
  error number is reported; when it delivers bytes, spread over the free tail of the vector and
  the stack buffer, the readable bytes afterwards are the old ones followed by the delivered ones.
  One call asks for at most \<open>128k - 1\<close> bytes when the stack buffer takes part.
\<close>

theorem readFd_appends:
  assumes "buffer_inv b" and "buffer_room extrabuf_size b" and "readv_ok readv"
    and "readv (readFd_iov b) = (n, err, bytes)"
  shows "wpR (readFd readv b) (\<lambda>(m, saved, b'). m = n \<and> buffer_inv b' \<and>
      (if n < 0 then saved = Some err \<and> b' = b else saved = None \<and> peek b' = peek b @ bytes))
    \<and> (writableBytes b < extrabuf_size \<longrightarrow> sum_list (readFd_iov b) \<le> 128 * 1024 - 1)"
proof (cases "n < 0")
  case True
  with assms readFd_error [of readv b n err bytes] show ?thesis
    by (simp add: readFd_iov_def extrabuf_size_def)
next
  case False
  with readFd_spec [OF assms(1-3), of n err bytes] assms(4) show ?thesis
    by (auto simp: readFd_iov_def extrabuf_size_def elim!: wpR_mono)
qed

definition example_readv :: readv_call where
  "example_readv lens =
     (if 12 \<le> sum_list lens then (12, 0, [1, 2, 3, 4, 5, 6, 7, 8, 9, 10, 11, 12]) else (-1, EAGAIN, []))"

theorem readFd_appends_witness:
  "wpR (readFd example_readv (Buffer_new 4)) (\<lambda>(m, saved, b'). m = 12 \<and> buffer_inv b' \<and>
      saved = None \<and> peek b' = [1, 2, 3, 4, 5, 6, 7, 8, 9, 10, 11, 12])
    \<and> sum_list (readFd_iov (Buffer_new 4)) \<le> 128 * 1024 - 1"
proof -
  have "readv_ok example_readv"
    by (simp add: readv_ok_def example_readv_def)
  moreover have "example_readv (readFd_iov (Buffer_new 4))
      = (12, 0, [1, 2, 3, 4, 5, 6, 7, 8, 9, 10, 11, 12])"
    by (simp add: example_readv_def readFd_iov_def Buffer_new_def writableBytes_def
        extrabuf_size_def kCheapPrepend_def)
  moreover have "buffer_inv (Buffer_new 4)" "buffer_room extrabuf_size (Buffer_new 4)"
      "writableBytes (Buffer_new 4) < extrabuf_size"
    by (simp_all add: buffer_inv_def buffer_room_def Buffer_new_def extrabuf_size_def
        kCheapPrepend_def vec_max_size_def writableBytes_def)
  ultimately show ?thesis
    using readFd_appends [of "Buffer_new 4" example_readv 12 0 "[1, 2, 3, 4, 5, 6, 7, 8, 9, 10, 11, 12]"]
    by simp
qed

text \<open>
  Claim C21. A header of up to \<open>kCheapPrepend\<close> bytes always fits in front of the readable bytes: after
  any such use of a new buffer, \<open>prepend\<close> does not fail its assertion and puts the header
  directly before the bytes still readable.
\<close>

theorem prepend_header_fits:
  assumes "kCheapPrepend + n + length (fifo_pushed ops) + kCheapPrepend \<le> vec_max_size"
    and "fifo_popped ops [] = Some out" and "length h \<le> kCheapPrepend"
  shows "wpR (bindR (foldR (fifo_step append retrieve) ops (Buffer_new n)) (prepend h))
    (\<lambda>b. buffer_inv b \<and> (\<exists>rest. peek b = h @ rest \<and> out @ rest = fifo_pushed ops))"
proof -
  have "buffer_inv (Buffer_new n)" using assms(1) by (intro buffer_inv_new) simp
  moreover have "buffer_room (length (fifo_pushed ops) + 0) (Buffer_new n)"
    using assms(1) by (simp add: buffer_room_def Buffer_new_def)
  ultimately have "wpR (foldR (fifo_step append retrieve) ops (Buffer_new n))
      (\<lambda>b. buffer_inv b \<and> buffer_room 0 b \<and> out @ peek b = peek (Buffer_new n) @ fifo_pushed ops)"
    by (rule buf.run_conserves) (simp add: assms(2))
  then obtain b where b: "foldR (fifo_step append retrieve) ops (Buffer_new n) = Inr b"
      "buffer_inv b" "out @ peek b = fifo_pushed ops"
    by (auto simp: wpR_iff_Inr)
  have "header_room b"
    by (rule header_room_run [OF _ b(1)]) (simp add: header_room_def Buffer_new_def)
  with assms(3) have "length h \<le> prependableBytes b"
    by (simp add: header_room_def prependableBytes_def)
  from prepend_spec [OF b(2) this] show ?thesis
    using b by (auto elim!: wpR_mono)
qed

theorem prepend_header_fits_witness:
  "wpR (bindR (foldR (fifo_step append retrieve) [Push [1, 2, 3], Pop 2] (Buffer_new 2)) (prepend [7, 7, 7, 7]))
    (\<lambda>b. buffer_inv b \<and> (\<exists>rest. peek b = [7, 7, 7, 7] @ rest \<and> [1, 2] @ rest = [1, 2, 3]))"
  using prepend_header_fits [of 2 "[Push [1, 2, 3], Pop 2]" "[1, 2]" "[7, 7, 7, 7]"]
  by (simp add: kCheapPrepend_def vec_max_size_def)

end
