(* ===== verification/Address.thy ===== *)
theory Address
  imports Prelude
begin

text \<open>
  Socket addresses: \<open>include/hvnetpp/InetAddress.h\<close>, \<open>src/InetAddress.cpp\<close>, the address part of
  \<open>src/SocketsOps.cpp\<close> and \<open>src/Resolver.cpp\<close>.

  An address is the 128 bytes of a \<open>sockaddr_storage\<close>; the structures \<open>sockaddr_in\<close> and
  \<open>sockaddr_in6\<close> are records with their layout on a little-endian machine, and a \<open>memcpy\<close> between
  them is a list operation. \<open>inet_pton\<close>, \<open>inet_ntop\<close>, \<open>getaddrinfo\<close>, \<open>getsockname\<close> and \<open>getpeername\<close> are
  parameters. The lemmas show that an address read from text has the family and the port that were
  asked for, prints without truncation and parses back to the same bytes, that the resolver
  returns the first usable entry with the port filled in and reports an error exactly when it
  fails, and that \<open>isSelfConnect\<close> compares endpoints.
\<close>

subsection \<open>Bytes of machine words\<close>

type_synonym sa_family = "16 word"

definition AF_UNSPEC :: sa_family where "AF_UNSPEC = 0"
definition AF_INET :: sa_family where "AF_INET = 2"
definition AF_INET6 :: sa_family where "AF_INET6 = 10"

lemmas af_defs = AF_UNSPEC_def AF_INET_def AF_INET6_def

definition htons :: "16 word \<Rightarrow> 16 word" where
  "htons x = push_bit 8 x OR drop_bit 8 x"

definition ntohs :: "16 word \<Rightarrow> 16 word" where
  "ntohs = htons"

definition htonl :: "32 word \<Rightarrow> 32 word" where
  "htonl x = push_bit 24 x OR (push_bit 8 x AND 0xFF0000) OR (drop_bit 8 x AND 0xFF00) OR drop_bit 24 x"

definition bytes16 :: "16 word \<Rightarrow> byte list" where
  "bytes16 x = [ucast x, ucast (drop_bit 8 x)]"

definition bytes32 :: "32 word \<Rightarrow> byte list" where
  "bytes32 x = [ucast x, ucast (drop_bit 8 x), ucast (drop_bit 16 x), ucast (drop_bit 24 x)]"

definition word16 :: "byte list \<Rightarrow> 16 word" where
  "word16 xs = ucast (xs ! 0) OR push_bit 8 (ucast (xs ! 1))"

definition word32 :: "byte list \<Rightarrow> 32 word" where
  "word32 xs = ucast (xs ! 0) OR push_bit 8 (ucast (xs ! 1)) OR push_bit 16 (ucast (xs ! 2))
     OR push_bit 24 (ucast (xs ! 3))"

lemma length_bytes [simp]: "length (bytes16 x) = 2" "length (bytes32 y) = 4"
  by (simp_all add: bytes16_def bytes32_def)

lemma word16_bytes16 [simp]: "word16 (bytes16 x) = x"
  unfolding word16_def bytes16_def
  by (rule bit_word_eqI) (auto simp: bit_simps)

lemma ntohs_htons [simp]: "ntohs (htons x) = x"
  unfolding ntohs_def htons_def
  by (rule bit_word_eqI) (auto simp: bit_simps)

lemma htons_inject [simp]: "htons x = htons y \<longleftrightarrow> x = y"
  by (metis ntohs_htons)

subsection \<open>Text\<close>

text \<open>\<open>%u\<close> of \<open>printf\<close>, the text a \<open>char\<close> pointer denotes, and the truncation of \<open>snprintf\<close>.\<close>

definition digit :: "nat \<Rightarrow> char" where
  "digit n = char_of (48 + n)"

fun decimal :: "nat \<Rightarrow> string" where
  "decimal n = (if n < 10 then [digit n] else decimal (n div 10) @ [digit (n mod 10)])"

declare decimal.simps [simp del]

definition c_str :: "string \<Rightarrow> string" where
  "c_str s = takeWhile (\<lambda>c. c \<noteq> CHR 0x00) s"

definition snprintf :: "nat \<Rightarrow> string \<Rightarrow> string \<Rightarrow> string" where
  "snprintf n old s = (if n = 0 then old else take (n - 1) s)"

subsection \<open>The structures of the socket interface\<close>

record sockaddr_in =
  sin_family :: sa_family
  sin_port :: "16 word"
  sin_addr :: "byte list"
  sin_zero :: "byte list"

record sockaddr_in6 =
  sin6_family :: sa_family
  sin6_port :: "16 word"
  sin6_flowinfo :: "byte list"
  sin6_addr :: "byte list"
  sin6_scope_id :: "byte list"

definition sizeof_in :: nat where "sizeof_in = 16"
definition sizeof_in6 :: nat where "sizeof_in6 = 28"
definition sizeof_storage :: nat where "sizeof_storage = 128"

lemmas sizeof_defs = sizeof_in_def sizeof_in6_def sizeof_storage_def

definition in_bytes :: "sockaddr_in \<Rightarrow> byte list" where
  "in_bytes a = bytes16 (sin_family a) @ bytes16 (sin_port a) @ sin_addr a @ sin_zero a"

definition in6_bytes :: "sockaddr_in6 \<Rightarrow> byte list" where
  "in6_bytes a = bytes16 (sin6_family a) @ bytes16 (sin6_port a) @ sin6_flowinfo a @ sin6_addr a @ sin6_scope_id a"

definition as_in :: "byte list \<Rightarrow> sockaddr_in" where
  "as_in xs = \<lparr>sin_family = word16 (seg 0 2 xs), sin_port = word16 (seg 2 4 xs),
     sin_addr = seg 4 8 xs, sin_zero = seg 8 16 xs\<rparr>"

definition as_in6 :: "byte list \<Rightarrow> sockaddr_in6" where
  "as_in6 xs = \<lparr>sin6_family = word16 (seg 0 2 xs), sin6_port = word16 (seg 2 4 xs),
     sin6_flowinfo = seg 4 8 xs, sin6_addr = seg 8 24 xs, sin6_scope_id = seg 24 28 xs\<rparr>"

definition in_zero :: sockaddr_in where
  "in_zero = \<lparr>sin_family = 0, sin_port = 0, sin_addr = replicate 4 0, sin_zero = replicate 8 0\<rparr>"

definition in6_zero :: sockaddr_in6 where
  "in6_zero = \<lparr>sin6_family = 0, sin6_port = 0, sin6_flowinfo = replicate 4 0, sin6_addr = replicate 16 0,
     sin6_scope_id = replicate 4 0\<rparr>"

definition storage_zero :: "byte list" where
  "storage_zero = replicate sizeof_storage 0"

text \<open>\<open>sa_family\<close> is the first field of every one of the structures.\<close>

definition sa_family :: "byte list \<Rightarrow> sa_family" where
  "sa_family xs = word16 (seg 0 2 xs)"

subsection \<open>\<open>SocketsOps.cpp\<close>: text and addresses\<close>

definition INET_ADDRSTRLEN :: nat where "INET_ADDRSTRLEN = 16"
definition INET6_ADDRSTRLEN :: nat where "INET6_ADDRSTRLEN = 46"

type_synonym inet_pton = "sa_family \<Rightarrow> string \<Rightarrow> int \<times> byte list"
type_synonym inet_ntop = "sa_family \<Rightarrow> byte list \<Rightarrow> nat \<Rightarrow> string option"

definition sockaddrLength :: "byte list \<Rightarrow> nat" where
  "sockaddrLength addr = (if sa_family addr = AF_INET6 then sizeof_in6 else sizeof_in)"

definition toIp :: "inet_ntop \<Rightarrow> nat \<Rightarrow> string \<Rightarrow> byte list \<Rightarrow> string res" where
  "toIp ntop n buf addr =
     (if sa_family addr = AF_INET then
        assertR (INET_ADDRSTRLEN \<le> n)
          (Inr (case ntop AF_INET (sin_addr (as_in addr)) n of None \<Rightarrow> buf | Some s \<Rightarrow> s))
      else if sa_family addr = AF_INET6 then
        assertR (INET6_ADDRSTRLEN \<le> n)
          (Inr (case ntop AF_INET6 (sin6_addr (as_in6 addr)) n of None \<Rightarrow> buf | Some s \<Rightarrow> s))
      else Inr (if 0 < n then [] else buf))"

definition toIpPort :: "inet_ntop \<Rightarrow> nat \<Rightarrow> string \<Rightarrow> byte list \<Rightarrow> string res" where
  "toIpPort ntop n buf addr =
     bindR (toIp ntop INET6_ADDRSTRLEN [] addr) (\<lambda>ip.
       if sa_family addr = AF_INET then
         Inr (snprintf n buf (ip @ '':'' @ decimal (unat (ntohs (sin_port (as_in addr))))))
       else if sa_family addr = AF_INET6 then
         Inr (snprintf n buf (''['' @ ip @ '']:'' @ decimal (unat (ntohs (sin6_port (as_in6 addr))))))
       else Inr (if 0 < n then [] else buf))"

definition fromIpPort :: "inet_pton \<Rightarrow> string \<Rightarrow> 16 word \<Rightarrow> sockaddr_in \<Rightarrow> bool \<times> sockaddr_in" where
  "fromIpPort pton ip port addr =
     (let a = addr\<lparr>sin_family := AF_INET, sin_port := htons port\<rparr>;
          (ret, bytes) = pton AF_INET ip
      in if ret = 0 then (False, a) else if ret < 0 then (False, a) else (True, a\<lparr>sin_addr := bytes\<rparr>))"

definition fromIpPort6 :: "inet_pton \<Rightarrow> string \<Rightarrow> 16 word \<Rightarrow> sockaddr_in6 \<Rightarrow> bool \<times> sockaddr_in6" where
  "fromIpPort6 pton ip port addr =
     (let a = addr\<lparr>sin6_family := AF_INET6, sin6_port := htons port\<rparr>;
          (ret, bytes) = pton AF_INET6 ip
      in if ret = 0 then (False, a) else if ret < 0 then (False, a) else (True, a\<lparr>sin6_addr := bytes\<rparr>))"

subsection \<open>\<open>InetAddress\<close>\<close>

record inet_address =
  ia_addr :: "byte list"
  ia_length :: nat

definition INADDR_ANY :: "32 word" where "INADDR_ANY = 0"
definition INADDR_LOOPBACK :: "32 word" where "INADDR_LOOPBACK = 0x7f000001"
definition in6addr_any :: "byte list" where "in6addr_any = replicate 16 0"
definition in6addr_loopback :: "byte list" where "in6addr_loopback = replicate 15 0 @ [1]"

definition InetAddress_port :: "16 word \<Rightarrow> bool \<Rightarrow> bool \<Rightarrow> inet_address" where
  "InetAddress_port port loopbackOnly ipv6 =
     (if ipv6 then
        let addr6 = in6_zero\<lparr>sin6_family := AF_INET6,
              sin6_addr := if loopbackOnly then in6addr_loopback else in6addr_any, sin6_port := htons port\<rparr>
        in \<lparr>ia_addr = blit 0 (in6_bytes addr6) storage_zero, ia_length = sizeof_in6\<rparr>
      else
        let addr4 = in_zero\<lparr>sin_family := AF_INET,
              sin_addr := bytes32 (htonl (if loopbackOnly then INADDR_LOOPBACK else INADDR_ANY)), sin_port := htons port\<rparr>
        in \<lparr>ia_addr = blit 0 (in_bytes addr4) storage_zero, ia_length = sizeof_in\<rparr>)"

definition InetAddress_ip :: "inet_pton \<Rightarrow> string \<Rightarrow> 16 word \<Rightarrow> bool \<Rightarrow> inet_address" where
  "InetAddress_ip pton ip port ipv6 =
     (let a0 = \<lparr>ia_addr = storage_zero, ia_length = 0\<rparr> in
      if ipv6 then
        (case fromIpPort6 pton (c_str ip) port in6_zero of
           (True, addr6) \<Rightarrow> a0\<lparr>ia_addr := blit 0 (in6_bytes addr6) storage_zero, ia_length := sizeof_in6\<rparr>
         | (False, _) \<Rightarrow> a0)
      else
        (case fromIpPort pton (c_str ip) port in_zero of
           (True, addr4) \<Rightarrow> a0\<lparr>ia_addr := blit 0 (in_bytes addr4) storage_zero, ia_length := sizeof_in\<rparr>
         | (False, _) \<Rightarrow> a0))"

definition InetAddress_in :: "sockaddr_in \<Rightarrow> inet_address" where
  "InetAddress_in addr = \<lparr>ia_addr = blit 0 (in_bytes addr) storage_zero, ia_length = sizeof_in\<rparr>"

definition InetAddress_in6 :: "sockaddr_in6 \<Rightarrow> inet_address" where
  "InetAddress_in6 addr = \<lparr>ia_addr = blit 0 (in6_bytes addr) storage_zero, ia_length = sizeof_in6\<rparr>"

text \<open>\<open>mem\<close> is the memory at the pointer: it holds at least the bytes that are copied.\<close>

definition InetAddress_sockaddr :: "byte list \<Rightarrow> nat \<Rightarrow> inet_address" where
  "InetAddress_sockaddr mem len =
     (let copyLen = if len < sizeof_storage then len else sizeof_storage
      in \<lparr>ia_addr = blit 0 (take copyLen mem) storage_zero, ia_length = len\<rparr>)"

definition InetAddress_loopback :: "16 word \<Rightarrow> bool \<Rightarrow> inet_address" where
  "InetAddress_loopback port ipv6 = InetAddress_port port True ipv6"

definition InetAddress_any :: "16 word \<Rightarrow> bool \<Rightarrow> inet_address" where
  "InetAddress_any port ipv6 = InetAddress_port port False ipv6"

definition family :: "inet_address \<Rightarrow> sa_family" where "family a = sa_family (ia_addr a)"
definition isIpv4 :: "inet_address \<Rightarrow> bool" where "isIpv4 a \<longleftrightarrow> family a = AF_INET"
definition isIpv6 :: "inet_address \<Rightarrow> bool" where "isIpv6 a \<longleftrightarrow> family a = AF_INET6"
definition addr_isValid :: "inet_address \<Rightarrow> bool" where
  "addr_isValid a \<longleftrightarrow> ia_length a \<noteq> 0 \<and> (isIpv4 a \<or> isIpv6 a)"

text \<open>\<open>result\<close> is \<open>None\<close> for a null pointer; the new content of \<open>*result\<close> is returned.\<close>

definition tryParse ::
  "inet_pton \<Rightarrow> string \<Rightarrow> 16 word \<Rightarrow> inet_address option \<Rightarrow> bool \<Rightarrow> (bool \<times> inet_address) res" where
  "tryParse pton ip port result ipv6 =
     assertR (result \<noteq> None)
       (let a = InetAddress_ip pton ip port ipv6 in Inr (addr_isValid a, a))"

definition addr_toIpPort :: "inet_ntop \<Rightarrow> inet_address \<Rightarrow> string res" where
  "addr_toIpPort ntop a = toIpPort ntop 64 [] (ia_addr a)"

definition addr_toIp :: "inet_ntop \<Rightarrow> inet_address \<Rightarrow> string res" where
  "addr_toIp ntop a = toIp ntop 64 [] (ia_addr a)"

definition ipNetEndian :: "inet_address \<Rightarrow> 32 word res" where
  "ipNetEndian a = assertR (isIpv4 a) (Inr (word32 (sin_addr (as_in (ia_addr a)))))"

definition portNetEndian :: "inet_address \<Rightarrow> 16 word" where
  "portNetEndian a = (if isIpv6 a then sin6_port (as_in6 (ia_addr a)) else sin_port (as_in (ia_addr a)))"

definition toPort :: "inet_address \<Rightarrow> 16 word" where
  "toPort a = ntohs (portNetEndian a)"

subsection \<open>\<open>Resolver\<close>\<close>

definition EAI_NONAME :: int where "EAI_NONAME = -2"
definition EAI_FAMILY :: int where "EAI_FAMILY = -6"

record addrinfo =
  ai_family :: sa_family
  ai_addrlen :: nat
  ai_addr :: "byte list"

text \<open>
  \<open>getaddrinfo\<close> takes the name, the family and the socket type of the hints and returns its result code
  and the list of entries (empty for a null pointer).
\<close>

type_synonym getaddrinfo = "string \<Rightarrow> sa_family \<Rightarrow> int \<Rightarrow> int \<times> addrinfo list"

text \<open>What a call leaves behind: its result, \<open>*result\<close>, \<open>*error_code\<close> and the number of lists it freed.\<close>

record resolve_ret =
  rv_ok :: bool
  rv_result :: inet_address
  rv_error :: "int option"
  rv_freed :: nat

fun resolve_scan :: "16 word \<Rightarrow> addrinfo list \<Rightarrow> inet_address option" where
  "resolve_scan portNet [] = None"
| "resolve_scan portNet (ai # ais) =
     (if ai_family ai = AF_INET \<and> sizeof_in \<le> ai_addrlen ai then
        Some (InetAddress_in ((as_in (ai_addr ai))\<lparr>sin_port := portNet\<rparr>))
      else if ai_family ai = AF_INET6 \<and> sizeof_in6 \<le> ai_addrlen ai then
        Some (InetAddress_in6 ((as_in6 (ai_addr ai))\<lparr>sin6_port := portNet\<rparr>))
      else resolve_scan portNet ais)"

definition resolve ::
  "getaddrinfo \<Rightarrow> string \<Rightarrow> inet_address option \<Rightarrow> 16 word \<Rightarrow> sa_family \<Rightarrow> int \<Rightarrow> int option \<Rightarrow> resolve_ret res"
where
  "resolve gai hostname result port fam socktype error_code =
     assertR (result \<noteq> None) (let out = the result in
       let set_error = (\<lambda>e. map_option (\<lambda>_. e) error_code) in
       if fam \<noteq> AF_UNSPEC \<and> fam \<noteq> AF_INET \<and> fam \<noteq> AF_INET6 then
         Inr \<lparr>rv_ok = False, rv_result = out, rv_error = set_error EAI_FAMILY, rv_freed = 0\<rparr>
       else
         let (ret, resolved) = gai (c_str hostname) fam socktype in
         if ret \<noteq> 0 \<or> resolved = [] then
           Inr \<lparr>rv_ok = False, rv_result = out,
                rv_error = set_error (if ret \<noteq> 0 then ret else EAI_NONAME), rv_freed = 0\<rparr>
         else case resolve_scan (htons port) resolved of
           Some a \<Rightarrow> Inr \<lparr>rv_ok = True, rv_result = a, rv_error = set_error 0, rv_freed = 1\<rparr>
         | None \<Rightarrow> Inr \<lparr>rv_ok = False, rv_result = out, rv_error = set_error EAI_NONAME, rv_freed = 1\<rparr>)"

definition SOCK_STREAM :: int where "SOCK_STREAM = 1"

definition InetAddress_resolve ::
  "getaddrinfo \<Rightarrow> string \<Rightarrow> inet_address option \<Rightarrow> 16 word \<Rightarrow> sa_family \<Rightarrow> int option \<Rightarrow> resolve_ret res"
where
  "InetAddress_resolve gai hostname out port fam error_code =
     resolve gai hostname out port fam SOCK_STREAM error_code"

subsection \<open>\<open>SocketsOps.cpp\<close>: the addresses of a socket\<close>

text \<open>
  \<open>getsockname\<close> and \<open>getpeername\<close> fail (\<open>None\<close>) or deliver the bytes of the address, which the kernel cuts to
  the size of the caller's structure, and the length of the address before the cut.
\<close>

type_synonym getname = "fd \<Rightarrow> (byte list \<times> nat) option"

definition addr_of_name :: "getname \<Rightarrow> fd \<Rightarrow> inet_address" where
  "addr_of_name getname sockfd =
     (case getname sockfd of
        None \<Rightarrow> InetAddress_sockaddr storage_zero sizeof_storage
      | Some (bytes, addrlen) \<Rightarrow>
          InetAddress_sockaddr (blit 0 (take sizeof_storage bytes) storage_zero) addrlen)"

definition getLocalAddr :: "getname \<Rightarrow> fd \<Rightarrow> inet_address" where
  "getLocalAddr getsockname sockfd = addr_of_name getsockname sockfd"

definition getPeerAddr :: "getname \<Rightarrow> fd \<Rightarrow> inet_address" where
  "getPeerAddr getpeername sockfd = addr_of_name getpeername sockfd"

definition isSelfConnect :: "getname \<Rightarrow> getname \<Rightarrow> fd \<Rightarrow> bool" where
  "isSelfConnect getsockname getpeername sockfd =
     (let localaddr = getLocalAddr getsockname sockfd; peeraddr = getPeerAddr getpeername sockfd in
      if isIpv4 localaddr \<and> isIpv4 peeraddr then
        let laddr4 = as_in (ia_addr localaddr); raddr4 = as_in (ia_addr peeraddr)
        in sin_port laddr4 = sin_port raddr4 \<and> word32 (sin_addr laddr4) = word32 (sin_addr raddr4)
      else if isIpv6 localaddr \<and> isIpv6 peeraddr then
        let laddr6 = as_in6 (ia_addr localaddr); raddr6 = as_in6 (ia_addr peeraddr)
        in sin6_port laddr6 = sin6_port raddr6 \<and> sin6_addr laddr6 = sin6_addr raddr6
      else False)"

subsection \<open>Layout lemmas\<close>

lemma bytes32_word32: "length xs = 4 \<Longrightarrow> bytes32 (word32 xs) = xs"
proof -
  assume "length xs = 4"
  then obtain a b c d where xs: "xs = [a, b, c, d]" by (auto simp: length_Suc_conv eval_nat_numeral)
  have high: "\<not> bit x n" if "8 \<le> n" for x :: byte and n
    using that bit_imp_le_length [of x n] by auto
  have "ucast (word32 xs) = a" "ucast (drop_bit 8 (word32 xs)) = b"
    "ucast (drop_bit 16 (word32 xs)) = c" "ucast (drop_bit 24 (word32 xs)) = d"
    unfolding xs word32_def by (rule bit_word_eqI; simp add: bit_simps high)+
  then show ?thesis by (simp add: bytes32_def xs)
qed

lemma word32_inject: "length xs = 4 \<Longrightarrow> length ys = 4 \<Longrightarrow> word32 xs = word32 ys \<longleftrightarrow> xs = ys"
  by (metis bytes32_word32)

definition in_wf :: "sockaddr_in \<Rightarrow> bool" where
  "in_wf a \<longleftrightarrow> length (sin_addr a) = 4 \<and> length (sin_zero a) = 8"

definition in6_wf :: "sockaddr_in6 \<Rightarrow> bool" where
  "in6_wf a \<longleftrightarrow> length (sin6_flowinfo a) = 4 \<and> length (sin6_addr a) = 16 \<and> length (sin6_scope_id a) = 4"

lemma in_storage:
  assumes "in_wf a"
  shows "length (blit 0 (in_bytes a) storage_zero) = sizeof_storage"
    and "as_in (blit 0 (in_bytes a) storage_zero) = a"
    and "sa_family (blit 0 (in_bytes a) storage_zero) = sin_family a"
  using assms
  by (simp_all add: in_wf_def in_bytes_def as_in_def sa_family_def seg_def blit_def storage_zero_def sizeof_defs)

lemma in6_storage:
  assumes "in6_wf a"
  shows "length (blit 0 (in6_bytes a) storage_zero) = sizeof_storage"
    and "as_in6 (blit 0 (in6_bytes a) storage_zero) = a"
    and "sa_family (blit 0 (in6_bytes a) storage_zero) = sin6_family a"
  using assms
  by (simp_all add: in6_wf_def in6_bytes_def as_in6_def sa_family_def seg_def blit_def storage_zero_def sizeof_defs)

lemma in_wf_zero [simp]: "in_wf in_zero" "in6_wf in6_zero"
  by (simp_all add: in_wf_def in6_wf_def in_zero_def in6_zero_def)

lemma in_wf_as [simp]:
  "sizeof_in \<le> length xs \<Longrightarrow> in_wf (as_in xs)" "sizeof_in6 \<le> length xs \<Longrightarrow> in6_wf (as_in6 xs)"
  by (simp_all add: in_wf_def in6_wf_def as_in_def as_in6_def sizeof_defs)

lemma in_wf_upd [simp]:
  "in_wf (a\<lparr>sin_family := f\<rparr>) = in_wf a" "in_wf (a\<lparr>sin_port := p\<rparr>) = in_wf a"
  "in6_wf (b\<lparr>sin6_family := f\<rparr>) = in6_wf b" "in6_wf (b\<lparr>sin6_port := p\<rparr>) = in6_wf b"
  by (simp_all add: in_wf_def in6_wf_def)

lemma decimal_length: "n < 10 ^ k \<Longrightarrow> 0 < k \<Longrightarrow> length (decimal n) \<le> k"
proof (induction n arbitrary: k rule: decimal.induct)
  case (1 n)
  show ?case
  proof (cases "n < 10")
    case True
    then show ?thesis using 1(3) by (simp add: decimal.simps [of n])
  next
    case False
    with 1(2) obtain j where k: "k = Suc j" "0 < j" by (cases k; cases "k - 1") auto
    with 1(1) [OF False, of j] 1(2) False show ?thesis by (subst decimal.simps) (simp add: less_mult_imp_div_less)
  qed
qed

text \<open>
  What the manual pages promise of \<open>inet_pton\<close> and \<open>inet_ntop\<close>: a parsed address has the size of its family;
  an address prints into a buffer of the documented size, always as the same text, which parses
  back to the address.
\<close>

definition inet_text_ok :: "sa_family \<Rightarrow> nat \<Rightarrow> nat \<Rightarrow> inet_pton \<Rightarrow> inet_ntop \<Rightarrow> bool" where
  "inet_text_ok af len strlen pton ntop \<longleftrightarrow>
     (\<forall>ip r b. pton af ip = (r, b) \<and> 0 < r \<longrightarrow> length b = len)
   \<and> (\<forall>b. length b = len \<longrightarrow> (\<exists>s. (\<forall>n. strlen \<le> n \<longrightarrow> ntop af b n = Some s)
        \<and> length s < strlen \<and> CHR 0x00 \<notin> set s \<and> pton af s = (1, b)))"

lemma c_str_id: "CHR 0x00 \<notin> set s \<Longrightarrow> c_str s = s"
  by (auto simp: c_str_def takeWhile_eq_all_conv)

lemma InetAddress_ip_valid:
  assumes "inet_text_ok AF_INET 4 INET_ADDRSTRLEN pton ntop" and "inet_text_ok AF_INET6 16 INET6_ADDRSTRLEN pton ntop"
    and "addr_isValid (InetAddress_ip pton ip port ipv6)"
  obtains (v4) b where "\<not> ipv6" "length b = 4"
      "InetAddress_ip pton ip port ipv6 = InetAddress_in (in_zero\<lparr>sin_family := AF_INET, sin_port := htons port, sin_addr := b\<rparr>)"
    | (v6) b where "ipv6" "length b = 16"
      "InetAddress_ip pton ip port ipv6 = InetAddress_in6 (in6_zero\<lparr>sin6_family := AF_INET6, sin6_port := htons port, sin6_addr := b\<rparr>)"
proof (cases ipv6)
  case True
  obtain r b where r: "pton AF_INET6 (c_str ip) = (r, b)" by force
  with assms(3) True have "0 < r"
    by (auto simp: InetAddress_ip_def fromIpPort6_def Let_def addr_isValid_def split: if_splits)
  moreover from this have "length b = 16" using assms(2) r unfolding inet_text_ok_def by blast
  ultimately show thesis
    using True r v6 by (simp add: InetAddress_ip_def fromIpPort6_def Let_def InetAddress_in6_def)
next
  case False
  obtain r b where r: "pton AF_INET (c_str ip) = (r, b)" by force
  with assms(3) False have "0 < r"
    by (auto simp: InetAddress_ip_def fromIpPort_def Let_def addr_isValid_def split: if_splits)
  moreover from this have "length b = 4" using assms(1) r unfolding inet_text_ok_def by blast
  ultimately show thesis
    using False r v4 by (simp add: InetAddress_ip_def fromIpPort_def Let_def InetAddress_in_def)
qed

lemma InetAddress_in_facts:
  assumes "in_wf a" and "sin_family a = AF_INET"
  shows "family (InetAddress_in a) = AF_INET" "isIpv4 (InetAddress_in a)" "\<not> isIpv6 (InetAddress_in a)"
    "addr_isValid (InetAddress_in a)" "toPort (InetAddress_in a) = ntohs (sin_port a)"
    "as_in (ia_addr (InetAddress_in a)) = a" "length (ia_addr (InetAddress_in a)) = sizeof_storage"
    "sa_family (ia_addr (InetAddress_in a)) = AF_INET" "ia_length (InetAddress_in a) = sizeof_in"
  using in_storage [OF assms(1)] assms(2)
  by (simp_all add: InetAddress_in_def family_def isIpv4_def isIpv6_def addr_isValid_def toPort_def
      portNetEndian_def af_defs sizeof_in_def)

lemma InetAddress_in6_facts:
  assumes "in6_wf a" and "sin6_family a = AF_INET6"
  shows "family (InetAddress_in6 a) = AF_INET6" "isIpv6 (InetAddress_in6 a)" "\<not> isIpv4 (InetAddress_in6 a)"
    "addr_isValid (InetAddress_in6 a)" "toPort (InetAddress_in6 a) = ntohs (sin6_port a)"
    "as_in6 (ia_addr (InetAddress_in6 a)) = a" "length (ia_addr (InetAddress_in6 a)) = sizeof_storage"
    "sa_family (ia_addr (InetAddress_in6 a)) = AF_INET6" "ia_length (InetAddress_in6 a) = sizeof_in6"
  using in6_storage [OF assms(1)] assms(2)
  by (simp_all add: InetAddress_in6_def family_def isIpv4_def isIpv6_def addr_isValid_def toPort_def
      portNetEndian_def af_defs sizeof_in6_def)

subsection \<open>Properties\<close>

text \<open>
  Claim C24. An address that \<open>tryParse\<close> accepts has the family and the port that were asked for and
  the length of its structure; its text is never truncated, and the text parses to the same address
  again, byte for byte.
\<close>

theorem address_text_roundtrip:
  assumes inet: "inet_text_ok AF_INET 4 INET_ADDRSTRLEN pton ntop" "inet_text_ok AF_INET6 16 INET6_ADDRSTRLEN pton ntop"
    and ok: "tryParse pton ip port (Some old) ipv6 = Inr (True, a)"
  shows "toPort a = port \<and> isIpv6 a = ipv6 \<and> isIpv4 a = (\<not> ipv6) \<and> ia_length a = sockaddrLength (ia_addr a)
    \<and> (\<exists>s. addr_toIp ntop a = Inr s \<and> tryParse pton s port (Some old') ipv6 = Inr (True, a)
         \<and> addr_toIpPort ntop a =
             Inr ((if ipv6 then ''['' @ s @ '']'' else s) @ '':'' @ decimal (unat port)))"
proof -
  have a: "a = InetAddress_ip pton ip port ipv6" and valid: "addr_isValid (InetAddress_ip pton ip port ipv6)"
    using ok by (auto simp: tryParse_def Let_def)
  have "unat port < 2 ^ LENGTH(16)" by (rule unsigned_less)
  then have port: "length (decimal (unat port)) \<le> 5" by (intro decimal_length) simp_all
  show ?thesis
    using inet valid
  proof (cases rule: InetAddress_ip_valid)
    case (v4 b)
    let ?a = "in_zero\<lparr>sin_family := AF_INET, sin_port := htons port, sin_addr := b\<rparr>"
    have wf: "in_wf ?a" using v4(2) by (simp add: in_wf_def in_zero_def)
    obtain s where s: "\<forall>n. INET_ADDRSTRLEN \<le> n \<longrightarrow> ntop AF_INET b n = Some s" "length s < INET_ADDRSTRLEN"
        "CHR 0x00 \<notin> set s" "pton AF_INET s = (1, b)"
      using inet(1) v4(2) unfolding inet_text_ok_def by blast
    have "InetAddress_ip pton s port ipv6 = InetAddress_in ?a"
      using v4(1) s(3,4) by (simp add: InetAddress_ip_def fromIpPort_def InetAddress_in_def c_str_id)
    with InetAddress_in_facts [OF wf] v4 s port show ?thesis
      by (auto simp: a tryParse_def addr_toIp_def toIp_def addr_toIpPort_def toIpPort_def snprintf_def
          sockaddrLength_def INET_ADDRSTRLEN_def INET6_ADDRSTRLEN_def af_defs)
  next
    case (v6 b)
    let ?a = "in6_zero\<lparr>sin6_family := AF_INET6, sin6_port := htons port, sin6_addr := b\<rparr>"
    have wf: "in6_wf ?a" using v6(2) by (simp add: in6_wf_def in6_zero_def)
    obtain s where s: "\<forall>n. INET6_ADDRSTRLEN \<le> n \<longrightarrow> ntop AF_INET6 b n = Some s" "length s < INET6_ADDRSTRLEN"
        "CHR 0x00 \<notin> set s" "pton AF_INET6 s = (1, b)"
      using inet(2) v6(2) unfolding inet_text_ok_def by blast
    have "InetAddress_ip pton s port ipv6 = InetAddress_in6 ?a"
      using v6(1) s(3,4) by (simp add: InetAddress_ip_def fromIpPort6_def InetAddress_in6_def c_str_id)
    with InetAddress_in6_facts [OF wf] v6 s port show ?thesis
      by (auto simp: a tryParse_def addr_toIp_def toIp_def addr_toIpPort_def toIpPort_def snprintf_def
          sockaddrLength_def INET_ADDRSTRLEN_def INET6_ADDRSTRLEN_def af_defs)
  qed
qed

text \<open>
  A concrete pair of functions with the promised behaviour: dotted decimal text for the first
  family, eight groups of four hexadecimal digits for the second.
\<close>

fun split_on :: "char \<Rightarrow> string \<Rightarrow> string list" where
  "split_on c [] = [[]]"
| "split_on c (x # xs) = (if x = c then [] # split_on c xs else (x # hd (split_on c xs)) # tl (split_on c xs))"

definition undecimal :: "string \<Rightarrow> nat" where
  "undecimal s = foldl (\<lambda>n c. 10 * n + (of_char c - 48)) 0 s"

definition dotted :: "byte list \<Rightarrow> string" where
  "dotted b = decimal (unat (b ! 0)) @ ''.'' @ decimal (unat (b ! 1)) @ ''.'' @ decimal (unat (b ! 2)) @ ''.''
     @ decimal (unat (b ! 3))"

fun hexdigit :: "nat \<Rightarrow> char" where
  "hexdigit n = (if n < 10 then digit n else char_of (87 + n))"

definition unhexdigit :: "char \<Rightarrow> nat" where
  "unhexdigit c = (if of_char c < (58 :: nat) then of_char c - 48 else of_char c - 87)"

definition hexpair :: "byte \<Rightarrow> string" where
  "hexpair b = [hexdigit (unat b div 16), hexdigit (unat b mod 16)]"

fun hextext :: "byte list \<Rightarrow> string" where
  "hextext (a # b # xs) = hexpair a @ hexpair b @ (if xs = [] then [] else CHR '':'' # hextext xs)"
| "hextext _ = []"

fun unhextext :: "string \<Rightarrow> byte list" where
  "unhextext (w # x # y # z # xs) =
     word_of_nat (16 * unhexdigit w + unhexdigit x) # word_of_nat (16 * unhexdigit y + unhexdigit z) # unhextext (tl xs)"
| "unhextext _ = []"

definition example_ntop :: inet_ntop where
  "example_ntop af b n =
     (let s = if af = AF_INET then dotted b else hextext b in if length s < n then Some s else None)"

definition example_pton :: inet_pton where
  "example_pton af s =
     (let b = (if af = AF_INET then map (word_of_nat \<circ> undecimal) (split_on CHR ''.'' s) else unhextext s)
      in if length b = (if af = AF_INET then 4 else 16) then (1, b) else (0, []))"

lemma digit_of: "n < 10 \<Longrightarrow> of_char (digit n) = 48 + n"
  by (simp add: digit_def)

lemma decimal_digits: "c \<in> set (decimal n) \<Longrightarrow> 48 \<le> (of_char c :: nat)"
proof (induction n rule: decimal.induct)
  case (1 n)
  then show ?case
    by (cases "n < 10") (auto simp: decimal.simps [of n] digit_of)
qed

lemma decimal_no: "of_char c < (48 :: nat) \<Longrightarrow> c \<notin> set (decimal n)"
  using decimal_digits by fastforce

lemma undecimal_decimal [simp]: "undecimal (decimal n) = n"
proof (induction n rule: decimal.induct)
  case (1 n)
  show ?case
  proof (cases "n < 10")
    case True
    then show ?thesis by (simp add: decimal.simps [of n] undecimal_def digit_of)
  next
    case False
    with 1 show ?thesis by (simp add: decimal.simps [of n] undecimal_def digit_of)
  qed
qed

lemma split_on_append: "c \<notin> set s \<Longrightarrow> split_on c (s @ c # t) = s # split_on c t"
  by (induction s) auto

lemma split_on_none: "c \<notin> set s \<Longrightarrow> split_on c s = [s]"
  by (induction s) auto

lemma hexpair_facts:
  "unhexdigit (hexdigit (unat b div 16)) = unat b div 16" "unhexdigit (hexdigit (unat b mod 16)) = unat b mod 16"
  "hexdigit (unat b div 16) \<noteq> CHR 0x00" "hexdigit (unat b mod 16) \<noteq> CHR 0x00" for b :: byte
proof -
  have "unat b < 2 ^ LENGTH(8)" by (rule unsigned_less)
  then have "unat b div 16 < 16" by auto
  have "\<forall>n \<in> set [0..<16]. unhexdigit (hexdigit n) = n \<and> hexdigit n \<noteq> CHR 0x00" by code_simp
  then have *: "unhexdigit (hexdigit n) = n \<and> hexdigit n \<noteq> CHR 0x00" if "n < 16" for n using that by simp
  show "unhexdigit (hexdigit (unat b div 16)) = unat b div 16" "unhexdigit (hexdigit (unat b mod 16)) = unat b mod 16"
    "hexdigit (unat b div 16) \<noteq> CHR 0x00" "hexdigit (unat b mod 16) \<noteq> CHR 0x00"
    using * \<open>unat b div 16 < 16\<close> by auto
qed


lemma hextext_facts:
  "even (length b) \<Longrightarrow> unhextext (hextext b) = b \<and> CHR 0x00 \<notin> set (hextext b)
     \<and> (b \<noteq> [] \<longrightarrow> 2 * length (hextext b) + 2 = 5 * length b)"
  by (induction b rule: hextext.induct)
    (auto simp: hexpair_def hexpair_facts hexpair_facts(3,4) [symmetric] simp del: hexdigit.simps)

lemma example_text_v4: "inet_text_ok AF_INET 4 INET_ADDRSTRLEN example_pton example_ntop"
proof -
  have "\<exists>s. (\<forall>n. INET_ADDRSTRLEN \<le> n \<longrightarrow> example_ntop AF_INET b n = Some s)
      \<and> length s < INET_ADDRSTRLEN \<and> CHR 0x00 \<notin> set s \<and> example_pton AF_INET s = (1, b)"
    if len: "length b = 4" for b :: "byte list"
  proof -
    obtain w x y z where b: "b = [w, x, y, z]" using len by (auto simp: length_Suc_conv eval_nat_numeral)
    have "length (decimal (unat v)) \<le> 3" for v :: byte
    proof -
      have "unat v < 2 ^ LENGTH(8)" by (rule unsigned_less)
      then show ?thesis by (intro decimal_length) simp_all
    qed
    from this [of w] this [of x] this [of y] this [of z] have "length (dotted b) < INET_ADDRSTRLEN"
      by (simp add: dotted_def b INET_ADDRSTRLEN_def)
    moreover have "CHR 0x00 \<notin> set (dotted b)"
      by (simp add: dotted_def decimal_no)
    moreover have "split_on CHR ''.'' (dotted b) = map (decimal \<circ> unat) b"
      by (simp add: dotted_def b split_on_append split_on_none decimal_no)
    then have "example_pton AF_INET (dotted b) = (1, b)" by (simp add: example_pton_def b comp_def)
    ultimately show ?thesis by (intro exI [of _ "dotted b"]) (simp add: example_ntop_def)
  qed
  then show ?thesis by (auto simp: inet_text_ok_def example_pton_def Let_def split: if_splits)
qed

lemma example_text_v6: "inet_text_ok AF_INET6 16 INET6_ADDRSTRLEN example_pton example_ntop"
proof -
  have "\<exists>s. (\<forall>n. INET6_ADDRSTRLEN \<le> n \<longrightarrow> example_ntop AF_INET6 b n = Some s)
      \<and> length s < INET6_ADDRSTRLEN \<and> CHR 0x00 \<notin> set s \<and> example_pton AF_INET6 s = (1, b)"
    if len: "length b = 16" for b :: "byte list"
  proof -
    have "even (length b)" "b \<noteq> []" using len by auto
    with hextext_facts [of b] len have "unhextext (hextext b) = b" "CHR 0x00 \<notin> set (hextext b)"
      "length (hextext b) < INET6_ADDRSTRLEN" by (auto simp: INET6_ADDRSTRLEN_def)
    with len show ?thesis
      by (intro exI [of _ "hextext b"]) (simp add: example_ntop_def example_pton_def af_defs)
  qed
  then show ?thesis by (auto simp: inet_text_ok_def example_pton_def Let_def af_defs split: if_splits)
qed

theorem address_text_roundtrip_witness:
  "\<exists>a. tryParse example_pton ''192.168.0.17'' 8080 (Some \<lparr>ia_addr = storage_zero, ia_length = 0\<rparr>) False = Inr (True, a)
     \<and> toPort a = 8080 \<and> ia_length a = 16
     \<and> addr_toIpPort example_ntop a = Inr ''192.168.0.17:8080''"
proof -
  let ?old = "\<lparr>ia_addr = storage_zero, ia_length = 0\<rparr>"
  have "(case tryParse example_pton ''192.168.0.17'' 8080 (Some ?old) False of
     Inr (True, a) \<Rightarrow> ia_length a = 16 \<and> addr_toIpPort example_ntop a = Inr ''192.168.0.17:8080'' | _ \<Rightarrow> False)" by code_simp
  then obtain a where "tryParse example_pton ''192.168.0.17'' 8080 (Some ?old) False = Inr (True, a)"
      "ia_length a = 16 \<and> addr_toIpPort example_ntop a = Inr ''192.168.0.17:8080''"
    by (auto split: sum.splits prod.splits bool.splits)
  with address_text_roundtrip [OF example_text_v4 example_text_v6 this(1)] show ?thesis by blast
qed


text \<open>The address part of a socket address.\<close>

definition ip_of :: "byte list \<Rightarrow> byte list" where
  "ip_of mem = (if sa_family mem = AF_INET6 then sin6_addr (as_in6 mem) else sin_addr (as_in mem))"

text \<open>
  What \<open>getaddrinfo\<close> promises of its entries: the address has the announced length and the announced
  family, which is the requested one when one was requested.
\<close>

definition gai_ok :: "getaddrinfo \<Rightarrow> bool" where
  "gai_ok gai \<longleftrightarrow> (\<forall>host fam st ret ais. gai host fam st = (ret, ais) \<longrightarrow> (\<forall>ai \<in> set ais.
     length (ai_addr ai) = ai_addrlen ai \<and> sa_family (ai_addr ai) = ai_family ai
   \<and> (fam \<noteq> AF_UNSPEC \<longrightarrow> ai_family ai = fam)))"

definition ai_usable :: "addrinfo \<Rightarrow> bool" where
  "ai_usable ai \<longleftrightarrow> ai_family ai = AF_INET \<and> sizeof_in \<le> ai_addrlen ai
     \<or> ai_family ai = AF_INET6 \<and> sizeof_in6 \<le> ai_addrlen ai"

lemma InetAddress_in_of:
  assumes "sizeof_in \<le> length xs" and "sa_family xs = AF_INET"
  shows "addr_isValid (InetAddress_in ((as_in xs)\<lparr>sin_port := htons port\<rparr>))
    \<and> toPort (InetAddress_in ((as_in xs)\<lparr>sin_port := htons port\<rparr>)) = port
    \<and> family (InetAddress_in ((as_in xs)\<lparr>sin_port := htons port\<rparr>)) = AF_INET
    \<and> ip_of (ia_addr (InetAddress_in ((as_in xs)\<lparr>sin_port := htons port\<rparr>))) = ip_of xs"
proof -
  have "in_wf ((as_in xs)\<lparr>sin_port := htons port\<rparr>)" "sin_family ((as_in xs)\<lparr>sin_port := htons port\<rparr>) = AF_INET"
    using assms by (simp_all add: as_in_def sa_family_def sizeof_in_def in_wf_def)
  from InetAddress_in_facts [OF this] assms show ?thesis by (simp add: ip_of_def af_defs)
qed

lemma InetAddress_in6_of:
  assumes "sizeof_in6 \<le> length xs" and "sa_family xs = AF_INET6"
  shows "addr_isValid (InetAddress_in6 ((as_in6 xs)\<lparr>sin6_port := htons port\<rparr>))
    \<and> toPort (InetAddress_in6 ((as_in6 xs)\<lparr>sin6_port := htons port\<rparr>)) = port
    \<and> family (InetAddress_in6 ((as_in6 xs)\<lparr>sin6_port := htons port\<rparr>)) = AF_INET6
    \<and> ip_of (ia_addr (InetAddress_in6 ((as_in6 xs)\<lparr>sin6_port := htons port\<rparr>))) = ip_of xs"
proof -
  have "in6_wf ((as_in6 xs)\<lparr>sin6_port := htons port\<rparr>)" "sin6_family ((as_in6 xs)\<lparr>sin6_port := htons port\<rparr>) = AF_INET6"
    using assms by (simp_all add: as_in6_def sa_family_def sizeof_in6_def in6_wf_def)
  from InetAddress_in6_facts [OF this] assms show ?thesis by (simp add: ip_of_def)
qed

text \<open>The scan is the first usable entry.\<close>

lemma resolve_scan_filter:
  assumes "\<forall>ai \<in> set ais. length (ai_addr ai) = ai_addrlen ai \<and> sa_family (ai_addr ai) = ai_family ai"
  shows "case filter ai_usable ais of [] \<Rightarrow> resolve_scan (htons port) ais = None
    | ai # _ \<Rightarrow> \<exists>a. resolve_scan (htons port) ais = Some a \<and> addr_isValid a \<and> toPort a = port
        \<and> family a = ai_family ai \<and> ip_of (ia_addr a) = ip_of (ai_addr ai)"
  using assms
proof (induction ais)
  case Nil
  then show ?case by simp
next
  case (Cons ai ais)
  then show ?case
    using InetAddress_in_of [of "ai_addr ai" port] InetAddress_in6_of [of "ai_addr ai" port]
    by (auto simp: ai_usable_def split: list.splits)
qed

text \<open>
  Claim C25. \<open>resolve\<close> succeeds exactly when the requested family is known and \<open>getaddrinfo\<close> delivers a
  usable entry. It then returns the first usable entry with the requested port and error code 0.
  Otherwise it leaves \<open>*result\<close> alone and stores a nonzero error code. The list of entries is freed
  exactly once, on every path on which there is one.
\<close>

theorem resolve_first_usable:
  assumes "gai_ok gai" and "gai (c_str host) fam st = (ret, ais)"
  shows "wpR (resolve gai host (Some old) port fam st (Some e)) (\<lambda>r.
      rv_ok r = (fam \<in> {AF_UNSPEC, AF_INET, AF_INET6} \<and> ret = 0 \<and> (\<exists>ai \<in> set ais. ai_usable ai))
    \<and> (if rv_ok r then rv_error r = Some 0 \<and> addr_isValid (rv_result r) \<and> toPort (rv_result r) = port
         \<and> family (rv_result r) = ai_family (hd (filter ai_usable ais))
         \<and> ip_of (ia_addr (rv_result r)) = ip_of (ai_addr (hd (filter ai_usable ais)))
         \<and> (fam \<noteq> AF_UNSPEC \<longrightarrow> family (rv_result r) = fam)
       else rv_result r = old \<and> rv_error r \<noteq> Some 0 \<and> rv_error r \<noteq> None)
    \<and> rv_freed r = (if fam \<in> {AF_UNSPEC, AF_INET, AF_INET6} \<and> ret = 0 \<and> ais \<noteq> [] then 1 else 0))"
proof -
  have ais: "\<forall>ai \<in> set ais. length (ai_addr ai) = ai_addrlen ai \<and> sa_family (ai_addr ai) = ai_family ai"
      "\<forall>ai \<in> set ais. fam \<noteq> AF_UNSPEC \<longrightarrow> ai_family ai = fam"
    using assms unfolding gai_ok_def by blast+
  show ?thesis
  proof (cases "filter ai_usable ais")
    case Nil
    then have "\<not> (\<exists>ai \<in> set ais. ai_usable ai)" by (auto simp: filter_empty_conv)
    moreover have "resolve_scan (htons port) ais = None" using resolve_scan_filter [OF ais(1), of port] Nil by simp
    ultimately show ?thesis
      using assms(2) by (auto simp: resolve_def Let_def EAI_NONAME_def EAI_FAMILY_def)
  next
    case (Cons ai rest)
    then have ai: "ai \<in> set ais" "ai_usable ai" by (auto dest: filter_eq_ConsD)
    obtain a where "resolve_scan (htons port) ais = Some a" "addr_isValid a" "toPort a = port"
        "family a = ai_family ai" "ip_of (ia_addr a) = ip_of (ai_addr ai)"
      using resolve_scan_filter [OF ais(1), of port] Cons by auto
    with ai Cons ais(2) assms(2) show ?thesis
      by (auto simp: resolve_def Let_def EAI_NONAME_def EAI_FAMILY_def)
  qed
qed

text \<open>A name server that knows one name, with an unusable entry first.\<close>

definition example_gai :: getaddrinfo where
  "example_gai host fam st =
     (if host = ''host'' \<and> fam \<in> {AF_UNSPEC, AF_INET} then
        (0, [\<lparr>ai_family = AF_INET, ai_addrlen = 8, ai_addr = bytes16 AF_INET @ replicate 6 0\<rparr>,
             \<lparr>ai_family = AF_INET, ai_addrlen = 16, ai_addr = bytes16 AF_INET @ [0, 0, 10, 0, 0, 7] @ replicate 8 0\<rparr>])
      else (EAI_NONAME, []))"

lemma gai_ok_example: "gai_ok example_gai"
  by (auto simp: gai_ok_def example_gai_def sa_family_def seg_def split: if_splits)

theorem resolve_first_usable_witness:
  "\<exists>r. resolve example_gai ''host'' (Some \<lparr>ia_addr = storage_zero, ia_length = 0\<rparr>) 53 AF_UNSPEC 2 (Some 7) = Inr r
     \<and> rv_ok r \<and> toPort (rv_result r) = 53 \<and> ip_of (ia_addr (rv_result r)) = [10, 0, 0, 7] \<and> rv_freed r = 1"
proof -
  obtain ret ais where g: "example_gai (c_str ''host'') AF_UNSPEC 2 = (ret, ais)" by force
  then have "ret = 0 \<and> ai_addr (hd (filter ai_usable ais)) = bytes16 AF_INET @ [0, 0, 10, 0, 0, 7] @ replicate 8 0
      \<and> (\<exists>ai \<in> set ais. ai_usable ai)"
    by (auto simp: example_gai_def c_str_def ai_usable_def sizeof_defs af_defs)
  moreover have "ip_of (bytes16 AF_INET @ [0, 0, 10, 0, 0, 7] @ replicate 8 0) = [10, 0, 0, 7]" by code_simp
  ultimately show ?thesis
    using resolve_first_usable [OF gai_ok_example g, of "\<lparr>ia_addr = storage_zero, ia_length = 0\<rparr>" 53 7]
    by (auto simp: wpR_iff_Inr)
qed

lemma length_addr_of_name [simp]: "length (ia_addr (addr_of_name g s)) = sizeof_storage"
  by (auto simp: addr_of_name_def InetAddress_sockaddr_def blit_def storage_zero_def sizeof_defs Let_def
      split: option.splits)

lemma addr_of_name_None: "g s = None \<Longrightarrow> family (addr_of_name g s) = AF_UNSPEC"
  by (simp add: addr_of_name_def InetAddress_sockaddr_def family_def sa_family_def blit_def storage_zero_def
      sizeof_defs seg_def word16_def AF_UNSPEC_def)

text \<open>
  Claim C26. \<open>isSelfConnect\<close> holds exactly when both addresses of the socket can be read, are of the same
  internet family and agree in port and address.
\<close>

theorem isSelfConnect_endpoints:
  "isSelfConnect gs gp s \<longleftrightarrow> gs s \<noteq> None \<and> gp s \<noteq> None
     \<and> family (getLocalAddr gs s) \<in> {AF_INET, AF_INET6}
     \<and> family (getLocalAddr gs s) = family (getPeerAddr gp s)
     \<and> toPort (getLocalAddr gs s) = toPort (getPeerAddr gp s)
     \<and> ip_of (ia_addr (getLocalAddr gs s)) = ip_of (ia_addr (getPeerAddr gp s))"
proof -
  have len: "length (sin_addr (as_in (ia_addr (addr_of_name g s)))) = 4" for g
    by (simp add: as_in_def sizeof_defs)
  have ntohs: "ntohs x = ntohs y \<longleftrightarrow> x = y" for x y unfolding ntohs_def by simp
  show ?thesis
  proof (cases "gs s = None \<or> gp s = None")
    case True
    then show ?thesis
      using addr_of_name_None [of gs s] addr_of_name_None [of gp s]
      by (auto simp: isSelfConnect_def getLocalAddr_def getPeerAddr_def Let_def isIpv4_def isIpv6_def af_defs)
  next
    case False
    then show ?thesis
      using word32_inject [OF len len, of gs gp]
      by (auto simp: isSelfConnect_def getLocalAddr_def getPeerAddr_def Let_def isIpv4_def isIpv6_def ip_of_def
          toPort_def portNetEndian_def ntohs family_def af_defs)
  qed
qed

end
