(* ===== verification/Net.thy ===== *)
theory Net
  imports EventLoop Buffer Address
begin

text \<open>
  The state shared by the network components, and the system calls of \<open>src/SocketsOps.cpp\<close>.

  The event loop record is extended by the objects of the library: TCP connections, acceptors,
  servers and UDP sockets live in stores from addresses to records, because they refer to each
  other by pointers. Objects held by \<open>std::shared_ptr\<close> have a reference count in \<open>refs\<close>; \<open>held\<close> counts
  the references that the application keeps. A \<open>weak_ptr\<close> to an object that is gone must not refer to a
  later object at the same address, so the addresses of such objects (\<open>expired\<close>) are not used again. The kernel is the parameter \<open>os\<close>: the answer to a
  system call is a function of the calls made so far, so it is arbitrary, and every call is
  recorded in \<open>calls\<close>. The closures that the library queues are the constructors of \<open>task\<close>, with
  the values they capture. \<open>obs\<close> lists the callbacks of the application that were invoked.
\<close>

subsection \<open>System calls\<close>

datatype sock_option = TCP_NODELAY | SO_REUSEADDR | SO_REUSEPORT | SO_KEEPALIVE

datatype sys_call =
    SysSocket sa_family bool fd            \<comment> \<open>datagram socket?, descriptor or -1\<close>
  | SysBind fd bool
  | SysListen fd bool
  | SysAccept fd int                       \<comment> \<open>new descriptor or -1\<close>
  | SysConnect fd "byte list" nat
  | SysRead fd int
  | SysWrite fd "byte list"                \<comment> \<open>the bytes the kernel took\<close>
  | SysSendTo fd "byte list" inet_address int
  | SysRecvFrom fd int
  | SysClose fd
  | SysShutdown fd
  | SysSetOpt fd sock_option int
  | SysGetError fd
  | SysOpen fd                             \<comment> \<open>of \<open>/dev/null\<close>\<close>

type_synonym history = "sys_call list"

record os =
  os_ctl :: "ctl_call \<Rightarrow> bool"
  os_new :: "history \<Rightarrow> nat \<Rightarrow> ptr"
  os_socket :: "history \<Rightarrow> sa_family \<Rightarrow> bool \<Rightarrow> int"
  os_bind :: "history \<Rightarrow> fd \<Rightarrow> inet_address \<Rightarrow> bool"
  os_listen :: "history \<Rightarrow> fd \<Rightarrow> bool"
  os_accept :: "history \<Rightarrow> fd \<Rightarrow> int \<times> errno \<times> byte list \<times> nat"
  os_backlog :: "history \<Rightarrow> fd \<Rightarrow> nat"
  os_connect :: "history \<Rightarrow> fd \<Rightarrow> int"
  os_readv :: "history \<Rightarrow> fd \<Rightarrow> readv_call"
  os_write :: "history \<Rightarrow> fd \<Rightarrow> byte list \<Rightarrow> int \<times> errno"
  os_soerror :: "history \<Rightarrow> fd \<Rightarrow> int + errno"
  os_open :: "history \<Rightarrow> int"
  os_sockname :: getname
  os_peername :: getname
  os_sendto :: "history \<Rightarrow> fd \<Rightarrow> byte list \<Rightarrow> inet_address \<Rightarrow> int \<times> errno"
  os_recvfrom :: "history \<Rightarrow> fd \<Rightarrow> nat \<Rightarrow> int \<times> errno \<times> byte list \<times> byte list \<times> nat"

subsection \<open>Objects\<close>

datatype stateE = kDisconnected | kConnecting | kConnected | kDisconnecting

record conn =
  cn_name :: string
  cn_state :: stateE
  cn_channel :: ptr
  cn_socketFd :: fd
  cn_localAddr :: inet_address
  cn_peerAddr :: inet_address
  cn_connectionCb :: bool
  cn_messageCb :: bool
  cn_writeCompleteCb :: bool
  cn_highWaterMarkCb :: bool
  cn_closeCb :: "ptr option"
  cn_highWaterMark :: nat
  cn_input :: buffer
  cn_output :: buffer
  cn_sent :: "byte list"                   \<comment> \<open>ghost: the bytes given to \<open>sendInLoop\<close> so far\<close>

record acceptor =
  ac_listenAddr :: inet_address
  ac_reuseport :: bool
  ac_acceptSocket :: fd
  ac_acceptChannel :: "ptr option"
  ac_newConnectionCb :: "ptr option"
  ac_listening :: bool
  ac_idleFd :: fd

datatype server_state = kIdle | kStarting | kListening

record server =
  sv_name :: string
  sv_acceptor :: "ptr option"
  sv_connectionCb :: bool
  sv_messageCb :: bool
  sv_writeCompleteCb :: bool
  sv_state :: server_state
  sv_nextConnId :: int
  sv_connections :: "(string \<times> ptr) list"

datatype udp_state = kClosed | kOpened | kBound | kReceiving

record udp =
  ud_family :: sa_family
  ud_sockfd :: fd
  ud_state :: udp_state
  ud_channel :: "ptr option"
  ud_readCb :: bool
  ud_bufSize :: nat

text \<open>The closures given to \<open>queueInLoop\<close> and \<open>runInLoop\<close>.\<close>

datatype task =
    WriteComplete ptr
  | HighWaterMark ptr nat
  | SendTask ptr "byte list"
  | ShutdownTask ptr
  | ConnectEstablished ptr
  | ConnectDestroyed ptr
  | RemoveConnection ptr ptr               \<comment> \<open>server, connection\<close>
  | StartServer ptr "ptr option"           \<comment> \<open>server, acceptor\<close>
  | CleanupAcceptor "ptr option" fd fd
  | CleanupUdp "ptr option" fd
  | EnableReadingTask ptr
  | DisableReadingTask ptr
  | KeepChannel ptr
  | UserTask nat

text \<open>What the callbacks of a channel are bound to.\<close>

datatype owner = OwnConn ptr | OwnAcceptor ptr | OwnUdp ptr | OwnWakeup | OwnTimers

datatype obs =
    CbConnection ptr stateE
  | CbMessage ptr
  | CbWriteComplete ptr
  | CbHighWaterMark ptr nat
  | CbDatagram ptr inet_address "byte list"
  | CbTimers
  | CbUser nat

record world = "task loop" +
  calls :: history
  refs :: "ptr \<Rightarrow> nat"
  held :: "ptr \<Rightarrow> nat"
  expired :: "ptr \<Rightarrow> bool"
  bound :: "ptr \<rightharpoonup> owner"
  conns :: "ptr \<rightharpoonup> conn"
  acceptors :: "ptr \<rightharpoonup> acceptor"
  servers :: "ptr \<rightharpoonup> server"
  udps :: "ptr \<rightharpoonup> udp"
  obs :: "obs list"

definition log_call :: "sys_call \<Rightarrow> world \<Rightarrow> world" where
  "log_call c w = w\<lparr>calls := calls w @ [c]\<rparr>"

definition log_obs :: "obs \<Rightarrow> world \<Rightarrow> world" where
  "log_obs e w = w\<lparr>obs := obs w @ [e]\<rparr>"

subsection \<open>\<open>SocketsOps.cpp\<close>\<close>

definition createNonblocking :: "os \<Rightarrow> sa_family \<Rightarrow> world \<Rightarrow> fd \<times> world" where
  "createNonblocking os fam w = (let f = os_socket os (calls w) fam False in (f, log_call (SysSocket fam False f) w))"

definition createNonblockingUdp :: "os \<Rightarrow> sa_family \<Rightarrow> world \<Rightarrow> fd \<times> world" where
  "createNonblockingUdp os fam w = (let f = os_socket os (calls w) fam True in (f, log_call (SysSocket fam True f) w))"

definition sock_bind :: "os \<Rightarrow> fd \<Rightarrow> inet_address \<Rightarrow> world \<Rightarrow> bool \<times> world" where
  "sock_bind os f addr w = (let ok = os_bind os (calls w) f addr in (ok, log_call (SysBind f ok) w))"

definition sock_listen :: "os \<Rightarrow> fd \<Rightarrow> world \<Rightarrow> bool \<times> world" where
  "sock_listen os f w = (let ok = os_listen os (calls w) f in (ok, log_call (SysListen f ok) w))"

text \<open>\<open>accept\<close> returns the errors that may pass and ends the process on the others.\<close>

definition accept_transient :: "errno list" where
  "accept_transient = [EAGAIN, ECONNABORTED, EINTR, EPROTO, EPERM, EMFILE]"

definition sock_accept :: "os \<Rightarrow> fd \<Rightarrow> world \<Rightarrow> (fd \<times> errno \<times> byte list \<times> nat \<times> world) res" where
  "sock_accept os f w =
     (let (connfd, err, addr, addrlen) = os_accept os (calls w) f;
          w' = log_call (SysAccept f connfd) w
      in if connfd < 0 then
           (if err \<in> set accept_transient then Inr (connfd, err, addr, addrlen, w') else Inl Aborted)
         else Inr (connfd, err, addr, addrlen, w'))"

definition sock_connect :: "os \<Rightarrow> fd \<Rightarrow> byte list \<Rightarrow> world \<Rightarrow> int \<times> world" where
  "sock_connect os f addr w =
     (os_connect os (calls w) f, log_call (SysConnect f addr (sockaddrLength addr)) w)"

definition sock_write :: "os \<Rightarrow> fd \<Rightarrow> byte list \<Rightarrow> world \<Rightarrow> int \<times> errno \<times> world" where
  "sock_write os f data w =
     (let (n, err) = os_write os (calls w) f data in (n, err, log_call (SysWrite f (take (nat n) data)) w))"

definition sock_close :: "fd \<Rightarrow> world \<Rightarrow> world" where
  "sock_close f w = log_call (SysClose f) w"

definition shutdownWrite :: "fd \<Rightarrow> world \<Rightarrow> world" where
  "shutdownWrite f w = log_call (SysShutdown f) w"

definition getSocketError :: "os \<Rightarrow> fd \<Rightarrow> world \<Rightarrow> errno \<times> world" where
  "getSocketError os f w =
     (case os_soerror os (calls w) f of Inl optval \<Rightarrow> optval | Inr err \<Rightarrow> err, log_call (SysGetError f) w)"

definition setTcpNoDelay :: "fd \<Rightarrow> bool \<Rightarrow> world \<Rightarrow> world" where
  "setTcpNoDelay f on w = log_call (SysSetOpt f TCP_NODELAY (if on then 1 else 0)) w"

definition setReuseAddr :: "fd \<Rightarrow> bool \<Rightarrow> world \<Rightarrow> world" where
  "setReuseAddr f on w = log_call (SysSetOpt f SO_REUSEADDR (if on then 1 else 0)) w"

definition setReusePort :: "fd \<Rightarrow> bool \<Rightarrow> world \<Rightarrow> world" where
  "setReusePort f on w = log_call (SysSetOpt f SO_REUSEPORT (if on then 1 else 0)) w"

definition setKeepAlive :: "fd \<Rightarrow> bool \<Rightarrow> world \<Rightarrow> world" where
  "setKeepAlive f on w = log_call (SysSetOpt f SO_KEEPALIVE (if on then 1 else 0)) w"

subsection \<open>Descriptors\<close>

text \<open>The descriptors that a history of calls leaves open, and that every close was of an open one.\<close>

fun fd_apply :: "sys_call \<Rightarrow> fd set \<Rightarrow> fd set" where
  "fd_apply (SysSocket fam dgram f) S = (if 0 \<le> f then insert f S else S)"
| "fd_apply (SysAccept s f) S = (if 0 \<le> f then insert f S else S)"
| "fd_apply (SysOpen f) S = (if 0 \<le> f then insert f S else S)"
| "fd_apply (SysClose f) S = S - {f}"
| "fd_apply _ S = S"

definition open_fds :: "history \<Rightarrow> fd set" where
  "open_fds h = fold fd_apply h {}"

fun fd_valid :: "sys_call \<Rightarrow> fd set \<Rightarrow> bool" where
  "fd_valid (SysSocket fam dgram f) S = (f \<notin> S)"
| "fd_valid (SysAccept s f) S = (s \<in> S \<and> f \<notin> S)"
| "fd_valid (SysOpen f) S = (f \<notin> S)"
| "fd_valid (SysClose f) S = (f \<in> S)"
| "fd_valid (SysBind f ok) S = (f \<in> S)"
| "fd_valid (SysListen f ok) S = (f \<in> S)"
| "fd_valid (SysConnect f a n) S = (f \<in> S)"
| "fd_valid (SysRead f n) S = (f \<in> S)"
| "fd_valid (SysWrite f d) S = (f \<in> S)"
| "fd_valid (SysSendTo f d a n) S = (f \<in> S)"
| "fd_valid (SysRecvFrom f n) S = (f \<in> S)"
| "fd_valid (SysShutdown f) S = (f \<in> S)"
| "fd_valid (SysSetOpt f opt v) S = (f \<in> S)"
| "fd_valid (SysGetError f) S = (f \<in> S)"

fun fd_wf :: "history \<Rightarrow> fd set \<Rightarrow> bool" where
  "fd_wf [] S = True"
| "fd_wf (c # h) S = (fd_valid c S \<and> fd_wf h (fd_apply c S))"

lemma open_fds_snoc [simp]: "open_fds (h @ [c]) = fd_apply c (open_fds h)"
  by (simp add: open_fds_def)

lemma fd_wf_append: "fd_wf (h @ g) S \<longleftrightarrow> fd_wf h S \<and> fd_wf g (fold fd_apply h S)"
  by (induction h arbitrary: S) auto

lemma fd_wf_snoc: "fd_wf (h @ [c]) {} \<longleftrightarrow> fd_wf h {} \<and> fd_valid c (open_fds h)"
  by (simp add: fd_wf_append open_fds_def)

end
