(* ===== verification/TcpConnection.thy ===== *)
theory TcpConnection
  imports Net
begin

text \<open>
  \<open>include/hvnetpp/TcpConnection.h\<close> and \<open>src/TcpConnection.cpp\<close>.

  The members are functions on the shared state, for the connection at address \<open>p\<close>. The environment
  \<open>e\<close> holds the kernel, what the callbacks of the application do (\<open>e_cb\<close>) and what the close callback
  installed by a server does (\<open>e_close\<close>); \<open>il\<close> is the value of \<open>isInLoopThread()\<close>. A callback may change
  anything, so the members read the connection again after one. \<open>sendInLoop\<close> also records the bytes it is
  given in the ghost field \<open>cn_sent\<close>.
\<close>

record env =
  e_os :: os
  e_cb :: "obs \<Rightarrow> world \<Rightarrow> world res"
  e_close :: "ptr \<Rightarrow> ptr \<Rightarrow> world \<Rightarrow> world res"

subsection \<open>References\<close>

definition acquire :: "ptr \<Rightarrow> world \<Rightarrow> world" where
  "acquire p w = w\<lparr>refs := (refs w)(p := refs w p + 1)\<rparr>"

text \<open>The shared pointers that a closure captures.\<close>

fun captures :: "task \<Rightarrow> ptr list" where
  "captures (WriteComplete p) = [p]"
| "captures (HighWaterMark p n) = [p]"
| "captures (SendTask p m) = [p]"
| "captures (ShutdownTask p) = [p]"
| "captures (ConnectEstablished p) = [p]"
| "captures (ConnectDestroyed p) = [p]"
| "captures (RemoveConnection s p) = [p]"
| "captures (StartServer s a) = (case a of None \<Rightarrow> [] | Some a \<Rightarrow> [a])"
| "captures (CleanupAcceptor c f g) = (case c of None \<Rightarrow> [] | Some c \<Rightarrow> [c])"
| "captures (CleanupUdp c f) = (case c of None \<Rightarrow> [] | Some c \<Rightarrow> [c])"
| "captures (EnableReadingTask c) = [c]"
| "captures (DisableReadingTask c) = [c]"
| "captures (KeepChannel c) = [c]"
| "captures (UserTask n) = []"

definition queueTask :: "bool \<Rightarrow> task \<Rightarrow> world \<Rightarrow> world" where
  "queueTask il t w = queueInLoop il t (fold acquire (captures t) w)"

definition upd_conn :: "ptr \<Rightarrow> (conn \<Rightarrow> conn) \<Rightarrow> world \<Rightarrow> world res" where
  "upd_conn p f w = derefR (conns w p) (\<lambda>k. Inr (w\<lparr>conns := (conns w)(p \<mapsto> f k)\<rparr>))"

definition setState :: "ptr \<Rightarrow> stateE \<Rightarrow> world \<Rightarrow> world res" where
  "setState p s = upd_conn p (\<lambda>k. k\<lparr>cn_state := s\<rparr>)"

definition unused :: "ptr \<Rightarrow> world \<Rightarrow> bool" where
  "unused p w \<longleftrightarrow> chans w p = None \<and> conns w p = None \<and> acceptors w p = None \<and> servers w p = None \<and> udps w p = None
     \<and> \<not> expired w p"

subsection \<open>Members\<close>

definition kHighWaterMark :: nat where "kHighWaterMark = 64 * 1024 * 1024"

definition TcpConnection_init :: "string \<Rightarrow> ptr \<Rightarrow> fd \<Rightarrow> inet_address \<Rightarrow> inet_address \<Rightarrow> conn" where
  "TcpConnection_init name c sockfd localAddr peerAddr =
     \<lparr>cn_name = name, cn_state = kConnecting, cn_channel = c, cn_socketFd = sockfd,
      cn_localAddr = localAddr, cn_peerAddr = peerAddr, cn_connectionCb = False, cn_messageCb = False,
      cn_writeCompleteCb = False, cn_highWaterMarkCb = False, cn_closeCb = None,
      cn_highWaterMark = kHighWaterMark, cn_input = Buffer_new kInitialSize, cn_output = Buffer_new kInitialSize, cn_sent = []\<rparr>"

definition TcpConnection_new ::
  "os \<Rightarrow> string \<Rightarrow> fd \<Rightarrow> inet_address \<Rightarrow> inet_address \<Rightarrow> world \<Rightarrow> (ptr \<times> world) res" where
  "TcpConnection_new os name sockfd localAddr peerAddr w =
     (let p = os_new os (calls w) 0; c = os_new os (calls w) 1 in
      checkR OutOfMemory (unused p w \<and> unused c w \<and> p \<noteq> c)
        (bindR (foldR (\<lambda>k. setCallback k c) [ReadCb, WriteCb, CloseCb, ErrorCb]
             (w\<lparr>chans := (chans w)(c \<mapsto> Channel_new sockfd), refs := (refs w)(p := 1),
                bound := (bound w)(c \<mapsto> OwnConn p),
                conns := (conns w)(p \<mapsto> TcpConnection_init name c sockfd localAddr peerAddr)\<rparr>))
           (\<lambda>w'. Inr (p, w'))))"

definition closeSocket :: "ptr \<Rightarrow> world \<Rightarrow> world res" where
  "closeSocket p w = derefR (conns w p) (\<lambda>k.
     if 0 \<le> cn_socketFd k then upd_conn p (\<lambda>k. k\<lparr>cn_socketFd := -1\<rparr>) (sock_close (cn_socketFd k) w)
     else Inr w)"

text \<open>The destructor; the channel is destroyed with the other members.\<close>

definition TcpConnection_destroy :: "ptr \<Rightarrow> world \<Rightarrow> world res" where
  "TcpConnection_destroy p w = derefR (conns w p) (\<lambda>k.
     assertR (cn_state k = kDisconnected)
       (bindR (closeSocket p w) (\<lambda>w1.
          Inr (w1\<lparr>chans := (chans w1)(cn_channel k := None), bound := (bound w1)(cn_channel k := None),
                  conns := (conns w1)(p := None)\<rparr>))))"

text \<open>Dropping a \<open>TcpConnectionPtr\<close>: the last one destroys the connection.\<close>

definition release_conn :: "ptr \<Rightarrow> world \<Rightarrow> world res" where
  "release_conn p w =
     checkR UseAfterFree (0 < refs w p)
       (let w' = w\<lparr>refs := (refs w)(p := refs w p - 1)\<rparr>
        in if refs w' p = 0 then TcpConnection_destroy p w' else Inr w')"

definition connectEstablished :: "env \<Rightarrow> bool \<Rightarrow> ptr \<Rightarrow> world \<Rightarrow> world res" where
  "connectEstablished e il p w = assertInLoopThread il (derefR (conns w p) (\<lambda>k.
     assertR (cn_state k = kConnecting)
       (bindR (setState p kConnected w) (\<lambda>w1.
        bindR (Channel_tie p (cn_channel k) w1) (\<lambda>w2.
        bindR (enableReading (os_ctl (e_os e)) il (cn_channel k) w2) (\<lambda>w3.
          if cn_connectionCb k then e_cb e (CbConnection p kConnected) w3 else Inr w3))))))"

definition connectDestroyed :: "env \<Rightarrow> bool \<Rightarrow> ptr \<Rightarrow> world \<Rightarrow> world res" where
  "connectDestroyed e il p w = assertInLoopThread il (derefR (conns w p) (\<lambda>k.
     bindR (if cn_state k \<noteq> kDisconnected then
              bindR (setState p kDisconnected w) (\<lambda>w1.
              bindR (disableAll (os_ctl (e_os e)) il (cn_channel k) w1) (\<lambda>w2.
                if cn_connectionCb k then e_cb e (CbConnection p kDisconnected) w2 else Inr w2))
            else Inr w) (\<lambda>w3.
     derefR (conns w3 p) (\<lambda>k'.
       bindR (Channel_remove (os_ctl (e_os e)) il (cn_channel k') w3) (closeSocket p)))))"

definition handleClose :: "env \<Rightarrow> bool \<Rightarrow> ptr \<Rightarrow> world \<Rightarrow> world res" where
  "handleClose e il p w = assertInLoopThread il (derefR (conns w p) (\<lambda>k.
     assertR (cn_state k = kConnected \<or> cn_state k = kDisconnecting)
       (bindR (setState p kDisconnected w) (\<lambda>w1.
        bindR (disableAll (os_ctl (e_os e)) il (cn_channel k) w1) (\<lambda>w2.
        let w3 = acquire p w2 in
        bindR (if cn_connectionCb k then e_cb e (CbConnection p kDisconnected) w3 else Inr w3) (\<lambda>w4.
        bindR (derefR (conns w4 p) (\<lambda>k'.
            case cn_closeCb k' of None \<Rightarrow> Inr w4 | Some s \<Rightarrow> e_close e s p w4))
          (release_conn p)))))))"

definition handleError_err :: "env \<Rightarrow> bool \<Rightarrow> errno \<Rightarrow> ptr \<Rightarrow> world \<Rightarrow> world res" where
  "handleError_err e il err p w =
     (if err = 0 \<or> err = EAGAIN \<or> err = EWOULDBLOCK \<or> err = EINTR then Inr w
      else derefR (conns w p) (\<lambda>k.
        if cn_state k = kConnected \<or> cn_state k = kDisconnecting then handleClose e il p w else Inr w))"

definition conn_handleError :: "env \<Rightarrow> bool \<Rightarrow> ptr \<Rightarrow> world \<Rightarrow> world res" where
  "conn_handleError e il p w = derefR (conns w p) (\<lambda>k. derefR (chans w (cn_channel k)) (\<lambda>c.
     let (err, w1) = getSocketError (e_os e) (ch_fd c) w in
     if err \<noteq> 0 then handleError_err e il err p w1 else Inr w1))"

definition conn_handleRead :: "env \<Rightarrow> bool \<Rightarrow> ptr \<Rightarrow> world \<Rightarrow> world res" where
  "conn_handleRead e il p w = assertInLoopThread il (derefR (conns w p) (\<lambda>k.
     if cn_state k = kDisconnected then Inr w
     else derefR (chans w (cn_channel k)) (\<lambda>c.
       bindR (readFd (os_readv (e_os e) (calls w) (ch_fd c)) (cn_input k)) (\<lambda>(n, savedErrno, b).
       bindR (upd_conn p (\<lambda>k. k\<lparr>cn_input := b\<rparr>) (log_call (SysRead (ch_fd c) n) w)) (\<lambda>w1.
         if 0 < n then (if cn_messageCb k then e_cb e (CbMessage p) w1 else Inr w1)
         else if n = 0 then handleClose e il p w1
         else handleError_err e il (case savedErrno of None \<Rightarrow> 0 | Some err \<Rightarrow> err) p w1)))))"

definition shutdownInLoop :: "bool \<Rightarrow> ptr \<Rightarrow> world \<Rightarrow> world res" where
  "shutdownInLoop il p w = assertInLoopThread il (derefR (conns w p) (\<lambda>k.
     if 0 \<le> cn_socketFd k then derefR (chans w (cn_channel k)) (\<lambda>c.
       if \<not> isWriting c then Inr (shutdownWrite (cn_socketFd k) w) else Inr w)
     else Inr w))"

definition conn_handleWrite :: "env \<Rightarrow> bool \<Rightarrow> ptr \<Rightarrow> world \<Rightarrow> world res" where
  "conn_handleWrite e il p w = assertInLoopThread il (derefR (conns w p) (\<lambda>k.
     if cn_state k = kDisconnected then Inr w
     else derefR (chans w (cn_channel k)) (\<lambda>c.
       if isWriting c then
         let (n, err, w1) = sock_write (e_os e) (ch_fd c) (peek (cn_output k)) w in
         if 0 < n then
           bindR (retrieve (nat n) (cn_output k)) (\<lambda>b.
           bindR (upd_conn p (\<lambda>k. k\<lparr>cn_output := b\<rparr>) w1) (\<lambda>w2.
             if readableBytes b = 0 then
               bindR (disableWriting (os_ctl (e_os e)) il (cn_channel k) w2) (\<lambda>w3.
               let w4 = (if cn_writeCompleteCb k then queueTask il (WriteComplete p) w3 else w3) in
               if cn_state k = kDisconnecting then shutdownInLoop il p w4 else Inr w4)
             else Inr w2))
         else handleError_err e il (if n = 0 then EPIPE else err) p w1
       else Inr w)))"

text \<open>
  The second half of \<open>sendInLoop\<close>: what the direct write left over is appended to the output buffer.
\<close>

definition sendRest :: "env \<Rightarrow> bool \<Rightarrow> ptr \<Rightarrow> byte list \<Rightarrow> world \<Rightarrow> world res" where
  "sendRest e il p rest w = derefR (conns w p) (\<lambda>k.
     let oldLen = readableBytes (cn_output k); remaining = length rest;
         w1 = (if cn_highWaterMark k \<le> size_add oldLen remaining \<and> oldLen < cn_highWaterMark k \<and> cn_highWaterMarkCb k
               then queueTask il (HighWaterMark p (size_add oldLen remaining)) w else w)
     in bindR (append rest (cn_output k)) (\<lambda>b.
        bindR (upd_conn p (\<lambda>k. k\<lparr>cn_output := b\<rparr>) w1) (\<lambda>w2.
        derefR (chans w2 (cn_channel k)) (\<lambda>c.
          if \<not> isWriting c then enableWriting (os_ctl (e_os e)) il (cn_channel k) w2 else Inr w2))))"

definition sendInLoop :: "env \<Rightarrow> bool \<Rightarrow> ptr \<Rightarrow> byte list \<Rightarrow> world \<Rightarrow> world res" where
  "sendInLoop e il p data w = assertInLoopThread il (derefR (conns w p) (\<lambda>k.
     if cn_state k = kDisconnected then Inr w
     else bindR (upd_conn p (\<lambda>k. k\<lparr>cn_sent := cn_sent k @ data\<rparr>) w) (\<lambda>w. derefR (chans w (cn_channel k)) (\<lambda>c.
       if \<not> isWriting c \<and> readableBytes (cn_output k) = 0 then
         let (nwrote, savedErrno, w1) = sock_write (e_os e) (ch_fd c) data w in
         if 0 \<le> nwrote then
           let rest = drop (nat nwrote) data in
           if rest = [] then Inr (if cn_writeCompleteCb k then queueTask il (WriteComplete p) w1 else w1)
           else sendRest e il p rest w1
         else if savedErrno \<noteq> EWOULDBLOCK \<and> savedErrno \<noteq> EAGAIN \<and> savedErrno \<noteq> EINTR then
           handleError_err e il savedErrno p w1
         else if data = [] then Inr w1 else sendRest e il p data w1
       else if data = [] then Inr w else sendRest e il p data w))))"

text \<open>\<open>send\<close>: the data is \<open>None\<close> for a null pointer.\<close>

definition conn_send :: "env \<Rightarrow> bool \<Rightarrow> ptr \<Rightarrow> byte list option \<Rightarrow> world \<Rightarrow> world res" where
  "conn_send e il p data w = (case data of None \<Rightarrow> Inr w | Some message \<Rightarrow>
     if message = [] then Inr w
     else derefR (conns w p) (\<lambda>k.
       if il then (if cn_state k = kConnected then sendInLoop e il p message w else Inr w)
       else if cn_state k = kConnected then Inr (queueTask il (SendTask p message) w)
       else Inr w))"

definition send_string :: "env \<Rightarrow> bool \<Rightarrow> ptr \<Rightarrow> byte list \<Rightarrow> world \<Rightarrow> world res" where
  "send_string e il p message = conn_send e il p (Some message)"

definition send_buffer :: "env \<Rightarrow> bool \<Rightarrow> ptr \<Rightarrow> buffer \<Rightarrow> world \<Rightarrow> world res" where
  "send_buffer e il p buf = conn_send e il p (Some (peek buf))"

definition send_buffer_ptr :: "env \<Rightarrow> bool \<Rightarrow> ptr \<Rightarrow> buffer option \<Rightarrow> world \<Rightarrow> (buffer option \<times> world) res" where
  "send_buffer_ptr e il p buf w = (case buf of None \<Rightarrow> Inr (buf, w) | Some b \<Rightarrow>
     derefR (conns w p) (\<lambda>k.
       if il then
         (if cn_state k = kConnected then
            bindR (sendInLoop e il p (peek b) w) (\<lambda>w'. Inr (Some (retrieveAll b), w'))
          else Inr (buf, w))
       else if cn_state k = kConnected then
         bindR (retrieveAllAsString b) (\<lambda>(message, b'). Inr (Some b', queueTask il (SendTask p message) w))
       else Inr (buf, w)))"

definition conn_shutdown :: "bool \<Rightarrow> ptr \<Rightarrow> world \<Rightarrow> world res" where
  "conn_shutdown il p w = derefR (conns w p) (\<lambda>k.
     if il then
       (if cn_state k = kConnected then bindR (setState p kDisconnecting w) (shutdownInLoop il p) else Inr w)
     else if cn_state k = kConnected then Inr (queueTask il (ShutdownTask p) w)
     else Inr w)"

definition conn_setTcpNoDelay :: "bool \<Rightarrow> ptr \<Rightarrow> world \<Rightarrow> world res" where
  "conn_setTcpNoDelay on p w = derefR (conns w p) (\<lambda>k.
     if 0 \<le> cn_socketFd k then Inr (setTcpNoDelay (cn_socketFd k) on w) else Inr w)"

definition connected :: "ptr \<Rightarrow> world \<Rightarrow> bool res" where
  "connected p w = derefR (conns w p) (\<lambda>k. Inr (cn_state k = kConnected))"

definition setHighWaterMarkCallback :: "nat \<Rightarrow> ptr \<Rightarrow> world \<Rightarrow> world res" where
  "setHighWaterMarkCallback mark p = upd_conn p (\<lambda>k. k\<lparr>cn_highWaterMarkCb := True, cn_highWaterMark := mark\<rparr>)"

text \<open>The closures queued by \<open>send\<close> and \<open>shutdown\<close> from another thread check the state again.\<close>

definition run_SendTask :: "env \<Rightarrow> bool \<Rightarrow> ptr \<Rightarrow> byte list \<Rightarrow> world \<Rightarrow> world res" where
  "run_SendTask e il p message w = derefR (conns w p) (\<lambda>k.
     if cn_state k = kConnected then sendInLoop e il p message w else Inr w)"

definition run_ShutdownTask :: "bool \<Rightarrow> ptr \<Rightarrow> world \<Rightarrow> world res" where
  "run_ShutdownTask il p w = derefR (conns w p) (\<lambda>k.
     if cn_state k = kConnected then bindR (setState p kDisconnecting w) (shutdownInLoop il p) else Inr w)"

end
