(* ===== verification/TcpServer.thy ===== *)
theory TcpServer
  imports TcpConnection "HOL-Library.List_Lexorder" "HOL-Library.Char_ord"
begin

text \<open>
  \<open>include/hvnetpp/TcpServer.h\<close> and \<open>src/TcpServer.cpp\<close>: the acceptor, the server and the closures they
  queue. The token that closures hold as a \<open>weak_ptr\<close> expires in the server's destructor, so
  \<open>token.lock()\<close> succeeds exactly while the server is in the store.
\<close>

subsection \<open>The map of connections\<close>

text \<open>\<open>std::map\<close> as the list of its items in the order of the keys.\<close>

fun map_set :: "string \<Rightarrow> 'v \<Rightarrow> (string \<times> 'v) list \<Rightarrow> (string \<times> 'v) list" where
  "map_set k v [] = [(k, v)]"
| "map_set k v (x # xs) =
     (if k = fst x then (k, v) # xs else if k < fst x then (k, v) # x # xs else x # map_set k v xs)"

definition map_erase :: "string \<Rightarrow> (string \<times> 'v) list \<Rightarrow> (string \<times> 'v) list" where
  "map_erase k xs = filter (\<lambda>x. fst x \<noteq> k) xs"

subsection \<open>Acceptor\<close>

definition openIdleFd :: "os \<Rightarrow> world \<Rightarrow> fd \<times> world" where
  "openIdleFd os w = (let f = os_open os (calls w) in (f, log_call (SysOpen f) w))"

definition close_if_open :: "fd \<Rightarrow> world \<Rightarrow> world" where
  "close_if_open f w = (if 0 \<le> f then sock_close f w else w)"

text \<open>Dropping a \<open>shared_ptr<Channel>\<close>.\<close>

definition release_chan :: "ptr \<Rightarrow> world \<Rightarrow> world res" where
  "release_chan c w =
     checkR UseAfterFree (0 < refs w c)
       (let w' = w\<lparr>refs := (refs w)(c := refs w c - 1)\<rparr>
        in if refs w' c = 0 then Inr (w'\<lparr>chans := (chans w')(c := None), bound := (bound w')(c := None)\<rparr>) else Inr w')"

definition release_chan_opt :: "ptr option \<Rightarrow> world \<Rightarrow> world res" where
  "release_chan_opt ch w = (case ch of None \<Rightarrow> Inr w | Some c \<Rightarrow> release_chan c w)"

text \<open>The closure \<open>cleanup\<close> of \<open>cleanupAcceptor\<close>, and the function itself, which consumes a reference.\<close>

definition run_CleanupAcceptor :: "os \<Rightarrow> bool \<Rightarrow> ptr option \<Rightarrow> fd \<Rightarrow> fd \<Rightarrow> world \<Rightarrow> world res" where
  "run_CleanupAcceptor os il ch acceptSocket idleFd w =
     bindR (case ch of None \<Rightarrow> Inr w | Some c \<Rightarrow>
              bindR (disableAll (os_ctl os) il c w) (\<lambda>w1.
              bindR (Channel_remove (os_ctl os) il c w1) (\<lambda>w2.
                Inr (queueTask il (KeepChannel c) w2)))) (\<lambda>w3.
       Inr (close_if_open idleFd (close_if_open acceptSocket w3)))"

definition cleanupAcceptor :: "os \<Rightarrow> bool \<Rightarrow> ptr option \<Rightarrow> fd \<Rightarrow> fd \<Rightarrow> world \<Rightarrow> world res" where
  "cleanupAcceptor os il ch acceptSocket idleFd w =
     bindR (if il then run_CleanupAcceptor os il ch acceptSocket idleFd w
            else Inr (queueTask il (CleanupAcceptor ch acceptSocket idleFd) w))
       (release_chan_opt ch)"

definition Acceptor_new :: "os \<Rightarrow> inet_address \<Rightarrow> bool \<Rightarrow> world \<Rightarrow> (ptr \<times> world) res" where
  "Acceptor_new os listenAddr reuseport w =
     (let (f, w1) = openIdleFd os w; a = os_new os (calls w) 0 in
      checkR OutOfMemory (unused a w)
        (Inr (a, w1\<lparr>refs := (refs w1)(a := 1), acceptors := (acceptors w1)(a \<mapsto>
           \<lparr>ac_listenAddr = listenAddr, ac_reuseport = reuseport, ac_acceptSocket = -1, ac_acceptChannel = None,
            ac_newConnectionCb = None, ac_listening = False, ac_idleFd = f\<rparr>)\<rparr>)))"

definition Acceptor_destroy :: "os \<Rightarrow> bool \<Rightarrow> ptr \<Rightarrow> world \<Rightarrow> world res" where
  "Acceptor_destroy os il a w = derefR (acceptors w a) (\<lambda>r.
     cleanupAcceptor os il (ac_acceptChannel r) (ac_acceptSocket r) (ac_idleFd r)
       (w\<lparr>expired := (expired w)(a := True), acceptors := (acceptors w)(a := None)\<rparr>))"

definition release_acceptor :: "os \<Rightarrow> bool \<Rightarrow> ptr \<Rightarrow> world \<Rightarrow> world res" where
  "release_acceptor os il a w =
     checkR UseAfterFree (0 < refs w a)
       (let w' = w\<lparr>refs := (refs w)(a := refs w a - 1)\<rparr>
        in if refs w' a = 0 then Acceptor_destroy os il a w' else Inr w')"

definition upd_acceptor :: "ptr \<Rightarrow> (acceptor \<Rightarrow> acceptor) \<Rightarrow> world \<Rightarrow> world res" where
  "upd_acceptor a f w = derefR (acceptors w a) (\<lambda>r. Inr (w\<lparr>acceptors := (acceptors w)(a \<mapsto> f r)\<rparr>))"

text \<open>The part of \<open>Acceptor::listen\<close> after the system calls: the channel of the listening socket.\<close>

definition listen_channel :: "os \<Rightarrow> bool \<Rightarrow> ptr \<Rightarrow> fd \<Rightarrow> world \<Rightarrow> world res" where
  "listen_channel os il a sockfd w =
     (let c = os_new os (calls w) 0 in
      checkR OutOfMemory (unused c w)
        (bindR (upd_acceptor a (\<lambda>r. r\<lparr>ac_acceptSocket := sockfd, ac_acceptChannel := Some c\<rparr>)
            (w\<lparr>chans := (chans w)(c \<mapsto> Channel_new sockfd), refs := (refs w)(c := 1)\<rparr>)) (\<lambda>w1.
         bindR (setCallback ReadCb c (w1\<lparr>bound := (bound w1)(c \<mapsto> OwnAcceptor a)\<rparr>)) (\<lambda>w2.
         bindR (Channel_tie a c w2) (\<lambda>w3.
         bindR (enableReading (os_ctl os) il c w3)
           (upd_acceptor a (\<lambda>r. r\<lparr>ac_listening := True\<rparr>)))))))"

definition Acceptor_listen :: "os \<Rightarrow> bool \<Rightarrow> ptr \<Rightarrow> world \<Rightarrow> (bool \<times> world) res" where
  "Acceptor_listen os il a w = assertInLoopThread il (derefR (acceptors w a) (\<lambda>r.
     if ac_listening r then Inr (True, w)
     else
       let (sockfd, w1) = createNonblocking os (family (ac_listenAddr r)) w in
       if sockfd < 0 then Inr (False, w1)
       else
         let w2 = setReusePort sockfd (ac_reuseport r) (setReuseAddr sockfd True w1);
             (bound_ok, w3) = sock_bind os sockfd (ac_listenAddr r) w2
         in if \<not> bound_ok then Inr (False, sock_close sockfd w3)
            else
              let (listen_ok, w4) = sock_listen os sockfd w3 in
              if \<not> listen_ok then Inr (False, sock_close sockfd w4)
              else bindR (listen_channel os il a sockfd w4) (\<lambda>w5. Inr (True, w5))))"

text \<open>\<open>EMFILE\<close>: the idle descriptor is given up to accept and drop one connection.\<close>

definition drop_one :: "os \<Rightarrow> ptr \<Rightarrow> world \<Rightarrow> world res" where
  "drop_one os a w = derefR (acceptors w a) (\<lambda>r.
     let w1 = close_if_open (ac_idleFd r) w;
         f = fst (os_accept os (calls w1) (ac_acceptSocket r));
         w2 = close_if_open f (log_call (SysAccept (ac_acceptSocket r) f) w1);
         (idle, w3) = openIdleFd os w2
     in upd_acceptor a (\<lambda>r. r\<lparr>ac_idleFd := idle\<rparr>) w3)"

text \<open>
  \<open>Acceptor::handleRead\<close>: \<open>newc\<close> is the callback of the server \<open>s\<close>. The first argument bounds the number of
  connections waiting; when they are exhausted \<open>accept4\<close> answers \<open>EAGAIN\<close> and the loop ends.
\<close>

fun accept_loop ::
  "os \<Rightarrow> (ptr \<Rightarrow> fd \<Rightarrow> inet_address \<Rightarrow> world \<Rightarrow> world res) \<Rightarrow> nat \<Rightarrow> ptr \<Rightarrow> world \<Rightarrow> world res" where
  "accept_loop os newc 0 a w = Inr w"
| "accept_loop os newc (Suc n) a w = derefR (acceptors w a) (\<lambda>r.
     bindR (sock_accept os (ac_acceptSocket r) w) (\<lambda>(connfd, err, addr, addrlen, w1).
       if 0 \<le> connfd then
         bindR (case ac_newConnectionCb r of None \<Rightarrow> Inr (sock_close connfd w1)
                | Some s \<Rightarrow> newc s connfd (InetAddress_sockaddr addr addrlen) w1)
           (accept_loop os newc n a)
       else if err = EAGAIN \<or> err = EWOULDBLOCK then Inr w1
       else if err = EMFILE then drop_one os a w1
       else Inr w1))"

definition Acceptor_handleRead ::
  "os \<Rightarrow> (ptr \<Rightarrow> fd \<Rightarrow> inet_address \<Rightarrow> world \<Rightarrow> world res) \<Rightarrow> bool \<Rightarrow> ptr \<Rightarrow> world \<Rightarrow> world res" where
  "Acceptor_handleRead os newc il a w = assertInLoopThread il (derefR (acceptors w a) (\<lambda>r.
     accept_loop os newc (os_backlog os (calls w) (ac_acceptSocket r)) a w))"

subsection \<open>TcpServer\<close>

definition upd_server :: "ptr \<Rightarrow> (server \<Rightarrow> server) \<Rightarrow> world \<Rightarrow> world res" where
  "upd_server s f w = derefR (servers w s) (\<lambda>r. Inr (w\<lparr>servers := (servers w)(s \<mapsto> f r)\<rparr>))"

definition TcpServer_new :: "os \<Rightarrow> inet_address \<Rightarrow> string \<Rightarrow> world \<Rightarrow> (ptr \<times> world) res" where
  "TcpServer_new os listenAddr name w =
     bindR (Acceptor_new os listenAddr True w) (\<lambda>(a, w1).
       let s = os_new os (calls w1) 1 in
       checkR OutOfMemory (unused s w1)
         (bindR (upd_acceptor a (\<lambda>r. r\<lparr>ac_newConnectionCb := Some s\<rparr>)
            (w1\<lparr>servers := (servers w1)(s \<mapsto>
               \<lparr>sv_name = name, sv_acceptor = Some a, sv_connectionCb = False, sv_messageCb = False,
                sv_writeCompleteCb = False, sv_state = kIdle, sv_nextConnId = 1, sv_connections = []\<rparr>)\<rparr>))
            (\<lambda>w2. Inr (s, w2))))"

definition setCallbacks :: "bool \<Rightarrow> bool \<Rightarrow> bool \<Rightarrow> ptr \<Rightarrow> world \<Rightarrow> world res" where
  "setCallbacks c m wc s =
     upd_server s (\<lambda>r. r\<lparr>sv_connectionCb := c, sv_messageCb := m, sv_writeCompleteCb := wc\<rparr>)"

definition start_now :: "os \<Rightarrow> bool \<Rightarrow> ptr \<Rightarrow> ptr option \<Rightarrow> world \<Rightarrow> world res" where
  "start_now os il s acceptor w =
     bindR (case acceptor of None \<Rightarrow> Inr (False, w) | Some a \<Rightarrow> Acceptor_listen os il a w) (\<lambda>(ok, w1).
       upd_server s (\<lambda>r. r\<lparr>sv_state := if ok then kListening else kIdle\<rparr>) w1)"

definition TcpServer_start :: "os \<Rightarrow> bool \<Rightarrow> ptr \<Rightarrow> world \<Rightarrow> (server_state \<times> world) res" where
  "TcpServer_start os il s w = derefR (servers w s) (\<lambda>r.
     if sv_state r \<noteq> kIdle then Inr (sv_state r, w)
     else bindR (upd_server s (\<lambda>r. r\<lparr>sv_state := kStarting\<rparr>) w) (\<lambda>w1.
       if il then bindR (start_now os il s (sv_acceptor r) w1) (\<lambda>w2.
                    derefR (servers w2 s) (\<lambda>r2. Inr (sv_state r2, w2)))
       else Inr (kStarting, queueTask il (StartServer s (sv_acceptor r)) w1)))"

definition run_StartServer :: "os \<Rightarrow> bool \<Rightarrow> ptr \<Rightarrow> ptr option \<Rightarrow> world \<Rightarrow> world res" where
  "run_StartServer os il s acceptor w =
     (if servers w s = None then Inr w else start_now os il s acceptor w)"

text \<open>\<open>%d\<close> of \<open>printf\<close>, and the name of the next connection.\<close>

definition decimal_int :: "int \<Rightarrow> string" where
  "decimal_int i = (if i < 0 then ''-'' @ decimal (nat (- i)) else decimal (nat i))"

definition conn_name :: "string \<Rightarrow> int \<Rightarrow> string" where
  "conn_name name n = name @ snprintf 64 [] (''-'' @ c_str name @ ''#'' @ decimal_int n)"

text \<open>\<open>connections_[name] = conn\<close>: the map takes a reference and drops the one it may have had.\<close>

definition insert_conn :: "ptr \<Rightarrow> string \<Rightarrow> ptr \<Rightarrow> world \<Rightarrow> world res" where
  "insert_conn s name p w = derefR (servers w s) (\<lambda>r.
     let old = map_of (sv_connections r) name;
         w1 = acquire p (w\<lparr>servers := (servers w)(s \<mapsto> r\<lparr>sv_connections := map_set name p (sv_connections r)\<rparr>)\<rparr>)
     in case old of None \<Rightarrow> Inr w1 | Some q \<Rightarrow> release_conn q w1)"

text \<open>
  \<open>newConnection\<close>; \<open>conn\<close> is released on return, and so is the copy in the closure that runs
  \<open>connectEstablished\<close>.
\<close>

definition newConnection :: "env \<Rightarrow> bool \<Rightarrow> ptr \<Rightarrow> fd \<Rightarrow> inet_address \<Rightarrow> world \<Rightarrow> world res" where
  "newConnection e il s sockfd peerAddr w = assertInLoopThread il (derefR (servers w s) (\<lambda>r.
     let connName = conn_name (sv_name r) (sv_nextConnId r);
         w1 = w\<lparr>servers := (servers w)(s \<mapsto> r\<lparr>sv_nextConnId := sv_nextConnId r + 1\<rparr>)\<rparr>;
         localAddr = getLocalAddr (os_sockname (e_os e)) sockfd
     in checkR IntOverflow (sv_nextConnId r < 2 ^ 31 - 1) (bindR (TcpConnection_new (e_os e) connName sockfd localAddr peerAddr w1) (\<lambda>(p, w2).
        bindR (insert_conn s connName p w2) (\<lambda>w3.
        bindR (upd_conn p (\<lambda>k. k\<lparr>cn_connectionCb := sv_connectionCb r, cn_messageCb := sv_messageCb r,
                  cn_writeCompleteCb := sv_writeCompleteCb r, cn_closeCb := Some s\<rparr>) w3) (\<lambda>w4.
        bindR (if il then bindR (connectEstablished e il p (acquire p w4)) (release_conn p)
               else Inr (queueTask il (ConnectEstablished p) w4))
          (release_conn p)))))))"

text \<open>The callback installed in the acceptor: the connection is dropped when the server is gone.\<close>

definition newConnectionCb :: "env \<Rightarrow> bool \<Rightarrow> ptr \<Rightarrow> fd \<Rightarrow> inet_address \<Rightarrow> world \<Rightarrow> world res" where
  "newConnectionCb e il s sockfd peerAddr w =
     (if servers w s \<noteq> None then newConnection e il s sockfd peerAddr w else Inr (sock_close sockfd w))"

definition removeConnectionInLoop :: "bool \<Rightarrow> ptr \<Rightarrow> ptr \<Rightarrow> world \<Rightarrow> world res" where
  "removeConnectionInLoop il s p w = assertInLoopThread il (derefR (servers w s) (\<lambda>r. derefR (conns w p) (\<lambda>k.
     case map_of (sv_connections r) (cn_name k) of
       None \<Rightarrow> Inl AssertFailed
     | Some q \<Rightarrow>
         bindR (release_conn q
             (w\<lparr>servers := (servers w)(s \<mapsto> r\<lparr>sv_connections := map_erase (cn_name k) (sv_connections r)\<rparr>)\<rparr>))
           (\<lambda>w1. Inr (queueTask il (ConnectDestroyed p) w1)))))"

definition run_RemoveConnection :: "bool \<Rightarrow> ptr \<Rightarrow> ptr \<Rightarrow> world \<Rightarrow> world res" where
  "run_RemoveConnection il s p w =
     (if servers w s \<noteq> None then removeConnectionInLoop il s p w else Inr w)"

text \<open>\<open>removeConnection\<close>, which hands a closure with its own reference to \<open>runInLoop\<close>.\<close>

definition removeConnection :: "bool \<Rightarrow> ptr \<Rightarrow> ptr \<Rightarrow> world \<Rightarrow> world res" where
  "removeConnection il s p w =
     (if il then bindR (run_RemoveConnection il s p (acquire p w)) (release_conn p)
      else Inr (queueTask il (RemoveConnection s p) w))"

text \<open>The close callback that \<open>newConnection\<close> installs.\<close>

definition server_close :: "bool \<Rightarrow> ptr \<Rightarrow> ptr \<Rightarrow> world \<Rightarrow> world res" where
  "server_close il s p w = (if servers w s \<noteq> None then removeConnection il s p w else Inr w)"

text \<open>The destructor; each turn of its loop owns the reference that was in the map.\<close>

definition drop_conn :: "env \<Rightarrow> bool \<Rightarrow> string \<times> ptr \<Rightarrow> world \<Rightarrow> world res" where
  "drop_conn e il = (\<lambda>(name, p) w.
     bindR (upd_conn p (\<lambda>k. k\<lparr>cn_closeCb := None\<rparr>) w) (\<lambda>w1.
     bindR (if il then bindR (connectDestroyed e il p (acquire p w1)) (release_conn p)
            else Inr (queueTask il (ConnectDestroyed p) w1))
       (release_conn p)))"

definition TcpServer_destroy :: "env \<Rightarrow> bool \<Rightarrow> ptr \<Rightarrow> world \<Rightarrow> world res" where
  "TcpServer_destroy e il s w = derefR (servers w s) (\<lambda>r.
     let w1 = w\<lparr>expired := (expired w)(s := True), servers := (servers w)(s := None)\<rparr> in
     bindR (case sv_acceptor r of None \<Rightarrow> Inr w1 | Some a \<Rightarrow> release_acceptor (e_os e) il a w1)
       (foldR (drop_conn e il) (sv_connections r)))"

end
