(* ===== verification/UdpSocket.thy ===== *)
theory UdpSocket
  imports TcpServer
begin

text \<open>
  \<open>include/hvnetpp/UdpSocket.h\<close> and \<open>src/UdpSocket.cpp\<close>: a datagram socket, its channel and the closures it
  queues. Members that set \<open>errno\<close> return the value with their result.
\<close>

subsection \<open>Members\<close>

definition kUdpBufSize :: nat where "kUdpBufSize = 65536"

definition UdpSocket_init :: udp where
  "UdpSocket_init = \<lparr>ud_family = AF_UNSPEC, ud_sockfd = -1, ud_state = kClosed, ud_channel = None,
     ud_readCb = False, ud_bufSize = kUdpBufSize\<rparr>"

definition UdpSocket_new :: "os \<Rightarrow> world \<Rightarrow> (ptr \<times> world) res" where
  "UdpSocket_new os w =
     (let u = os_new os (calls w) 0 in
      checkR OutOfMemory (unused u w) (Inr (u, w\<lparr>udps := (udps w)(u \<mapsto> UdpSocket_init)\<rparr>)))"

definition upd_udp :: "ptr \<Rightarrow> (udp \<Rightarrow> udp) \<Rightarrow> world \<Rightarrow> world res" where
  "upd_udp u f w = derefR (udps w u) (\<lambda>r. Inr (w\<lparr>udps := (udps w)(u \<mapsto> f r)\<rparr>))"

definition setReadCallback :: "ptr \<Rightarrow> world \<Rightarrow> world res" where
  "setReadCallback u = upd_udp u (\<lambda>r. r\<lparr>ud_readCb := True\<rparr>)"

text \<open>The closure \<open>cleanup\<close> of \<open>cleanupUdpSocket\<close>, and the function, which consumes a reference.\<close>

definition run_CleanupUdp :: "os \<Rightarrow> bool \<Rightarrow> ptr option \<Rightarrow> fd \<Rightarrow> world \<Rightarrow> world res" where
  "run_CleanupUdp os il ch sockfd w =
     bindR (case ch of None \<Rightarrow> Inr w | Some c \<Rightarrow>
              bindR (disableAll (os_ctl os) il c w) (\<lambda>w1.
              bindR (Channel_remove (os_ctl os) il c w1) (\<lambda>w2.
                Inr (queueTask il (KeepChannel c) w2)))) (\<lambda>w3.
       Inr (close_if_open sockfd w3))"

definition cleanupUdpSocket :: "os \<Rightarrow> bool \<Rightarrow> ptr option \<Rightarrow> fd \<Rightarrow> world \<Rightarrow> world res" where
  "cleanupUdpSocket os il ch sockfd w =
     bindR (if il then run_CleanupUdp os il ch sockfd w
            else Inr (queueTask il (CleanupUdp ch sockfd) w))
       (release_chan_opt ch)"

definition UdpSocket_destroy :: "os \<Rightarrow> bool \<Rightarrow> ptr \<Rightarrow> world \<Rightarrow> world res" where
  "UdpSocket_destroy os il u w = derefR (udps w u) (\<lambda>r.
     cleanupUdpSocket os il (ud_channel r) (ud_sockfd r) (w\<lparr>expired := (expired w)(u := True), udps := (udps w)(u := None)\<rparr>))"

definition ensureSocket :: "os \<Rightarrow> ptr \<Rightarrow> sa_family \<Rightarrow> world \<Rightarrow> (bool \<times> errno option \<times> world) res" where
  "ensureSocket os u fam w = derefR (udps w u) (\<lambda>r.
     if 0 \<le> ud_sockfd r then
       (if ud_family r \<noteq> fam then Inr (False, Some EAFNOSUPPORT, w) else Inr (True, None, w))
     else
       let (f, w1) = createNonblockingUdp os fam w in
       bindR (upd_udp u (\<lambda>r. r\<lparr>ud_sockfd := f\<rparr>) w1) (\<lambda>w2.
       if f < 0 then Inr (False, None, w2)
       else
         let c = os_new os (calls w2) 0 in
         checkR OutOfMemory (unused c w2)
           (bindR (upd_udp u (\<lambda>r. r\<lparr>ud_family := fam, ud_state := kOpened, ud_channel := Some c\<rparr>)
               (w2\<lparr>chans := (chans w2)(c \<mapsto> Channel_new f), refs := (refs w2)(c := 1)\<rparr>)) (\<lambda>w3.
            bindR (setCallback ReadCb c
               (setReusePort f True (setReuseAddr f True (w3\<lparr>bound := (bound w3)(c \<mapsto> OwnUdp u)\<rparr>)))) (\<lambda>w4.
              Inr (True, None, w4))))))"

definition udp_open :: "os \<Rightarrow> ptr \<Rightarrow> sa_family \<Rightarrow> world \<Rightarrow> (bool \<times> errno option \<times> world) res" where
  "udp_open os u fam w = ensureSocket os u fam w"

definition udp_bind :: "os \<Rightarrow> bool \<Rightarrow> ptr \<Rightarrow> inet_address \<Rightarrow> world \<Rightarrow> (bool \<times> errno option \<times> world) res" where
  "udp_bind os il u addr w = derefR (udps w u) (\<lambda>r0.
     let createdSocket = ud_sockfd r0 < 0 in
     bindR (ensureSocket os u (family addr) w) (\<lambda>(ok, err, w1).
       if \<not> ok then Inr (False, err, w1)
       else derefR (udps w1 u) (\<lambda>r.
         let (bound_ok, w2) = sock_bind os (ud_sockfd r) addr w1 in
         if \<not> bound_ok then
           (if createdSocket then
              bindR (upd_udp u (\<lambda>r. r\<lparr>ud_channel := None, ud_family := AF_UNSPEC, ud_sockfd := -1, ud_state := kClosed\<rparr>) w2)
                (\<lambda>w3. bindR (cleanupUdpSocket os il (ud_channel r) (ud_sockfd r) w3) (\<lambda>w4. Inr (False, None, w4)))
            else Inr (False, None, w2))
         else if ud_state r \<noteq> kReceiving then
           bindR (upd_udp u (\<lambda>r. r\<lparr>ud_state := kBound\<rparr>) w2) (\<lambda>w3. Inr (True, None, w3))
         else Inr (True, None, w2))))"

definition isBound :: "udp \<Rightarrow> bool" where
  "isBound r \<longleftrightarrow> ud_state r = kBound \<or> ud_state r = kReceiving"

definition isOpen :: "udp \<Rightarrow> bool" where
  "isOpen r \<longleftrightarrow> ud_state r \<noteq> kClosed"

definition isReceiving :: "udp \<Rightarrow> bool" where
  "isReceiving r \<longleftrightarrow> ud_state r = kReceiving"

definition startReceive :: "os \<Rightarrow> bool \<Rightarrow> ptr \<Rightarrow> world \<Rightarrow> (bool \<times> errno option \<times> world) res" where
  "startReceive os il u w = derefR (udps w u) (\<lambda>r.
     case ud_channel r of
       None \<Rightarrow> Inr (False, Some EINVAL, w)
     | Some c \<Rightarrow>
         if \<not> isBound r then Inr (False, Some EINVAL, w)
         else if ud_state r = kReceiving then Inr (True, None, w)
         else bindR (upd_udp u (\<lambda>r. r\<lparr>ud_state := kReceiving\<rparr>) w) (\<lambda>w1.
              bindR (if il then enableReading (os_ctl os) il c w1
                     else Inr (queueTask il (EnableReadingTask c) w1)) (\<lambda>w2. Inr (True, None, w2))))"

definition stopReceive :: "os \<Rightarrow> bool \<Rightarrow> ptr \<Rightarrow> world \<Rightarrow> world res" where
  "stopReceive os il u w = derefR (udps w u) (\<lambda>r.
     case ud_channel r of
       None \<Rightarrow> Inr w
     | Some c \<Rightarrow>
         bindR (upd_udp u (\<lambda>r. r\<lparr>ud_state := if ud_state r = kReceiving then kBound else ud_state r\<rparr>) w) (\<lambda>w1.
           if il then disableReading (os_ctl os) il c w1 else Inr (queueTask il (DisableReadingTask c) w1)))"

definition bindAndStart :: "os \<Rightarrow> bool \<Rightarrow> ptr \<Rightarrow> inet_address \<Rightarrow> world \<Rightarrow> (bool \<times> errno option \<times> world) res" where
  "bindAndStart os il u addr w =
     bindR (udp_bind os il u addr w) (\<lambda>(ok, err, w1).
       if \<not> ok then Inr (False, err, w1) else startReceive os il u w1)"

definition sendTo :: "os \<Rightarrow> ptr \<Rightarrow> byte list \<Rightarrow> inet_address \<Rightarrow> world \<Rightarrow> (int \<times> errno option \<times> world) res" where
  "sendTo os u data destAddr w =
     bindR (ensureSocket os u (family destAddr) w) (\<lambda>(ok, err, w1).
       if \<not> ok then Inr (-1, err, w1)
       else derefR (udps w1 u) (\<lambda>r.
         let (n, e) = os_sendto os (calls w1) (ud_sockfd r) data destAddr
         in Inr (n, if n < 0 then Some e else None, log_call (SysSendTo (ud_sockfd r) data destAddr n) w1)))"

definition sendTo_buffer :: "os \<Rightarrow> ptr \<Rightarrow> buffer \<Rightarrow> inet_address \<Rightarrow> world \<Rightarrow> (int \<times> errno option \<times> world) res" where
  "sendTo_buffer os u buf destAddr = sendTo os u (peek buf) destAddr"

text \<open>
  \<open>recvfrom\<close> delivers its result, the error number, the bytes of the datagram, cut to the size of the
  buffer, and the sender's address with its length.
\<close>

definition udp_handleRead :: "env \<Rightarrow> bool \<Rightarrow> ptr \<Rightarrow> world \<Rightarrow> world res" where
  "udp_handleRead e il u w = assertInLoopThread il (derefR (udps w u) (\<lambda>r.
     let (n, err, bytes, addr, addrlen) = os_recvfrom (e_os e) (calls w) (ud_sockfd r) (ud_bufSize r);
         w1 = log_call (SysRecvFrom (ud_sockfd r) n) w
     in if 0 \<le> n \<and> ud_readCb r
        then e_cb e (CbDatagram u (InetAddress_sockaddr addr addrlen) (take (nat n) bytes)) w1
        else Inr w1))"

text \<open>The callback of the channel, which outlives the socket: the token has expired then.\<close>

definition udp_channelRead :: "env \<Rightarrow> bool \<Rightarrow> ptr \<Rightarrow> world \<Rightarrow> world res" where
  "udp_channelRead e il u w = (if udps w u \<noteq> None then udp_handleRead e il u w else Inr w)"

end
