(* ===== verification/Application.thy ===== *)
theory Application
  imports UdpSocket
begin

text \<open>
  The library put together: what running and destroying a queued closure does, what the callbacks of a
  channel do, and applications. An application is a function from the callback that is invoked
  and the current state to a list of actions, its calls of the library; callbacks caused by these
  actions are invoked in turn, to any depth. The event loop of \<open>EventLoop\<close> is run with these.
\<close>

subsection \<open>Queued closures\<close>

fun run_task :: "env \<Rightarrow> bool \<Rightarrow> task \<Rightarrow> world \<Rightarrow> world res" where
  "run_task e il (WriteComplete p) w = e_cb e (CbWriteComplete p) w"
| "run_task e il (HighWaterMark p n) w = e_cb e (CbHighWaterMark p n) w"
| "run_task e il (SendTask p message) w = run_SendTask e il p message w"
| "run_task e il (ShutdownTask p) w = run_ShutdownTask il p w"
| "run_task e il (ConnectEstablished p) w = connectEstablished e il p w"
| "run_task e il (ConnectDestroyed p) w = connectDestroyed e il p w"
| "run_task e il (RemoveConnection s p) w = run_RemoveConnection il s p w"
| "run_task e il (StartServer s a) w = run_StartServer (e_os e) il s a w"
| "run_task e il (CleanupAcceptor c f g) w = run_CleanupAcceptor (e_os e) il c f g w"
| "run_task e il (CleanupUdp c f) w = run_CleanupUdp (e_os e) il c f w"
| "run_task e il (EnableReadingTask c) w = enableReading (os_ctl (e_os e)) il c w"
| "run_task e il (DisableReadingTask c) w = disableReading (os_ctl (e_os e)) il c w"
| "run_task e il (KeepChannel c) w = Inr w"
| "run_task e il (UserTask n) w = e_cb e (CbUser n) w"

text \<open>Dropping a reference to a connection, an acceptor or a channel.\<close>

definition release :: "os \<Rightarrow> bool \<Rightarrow> ptr \<Rightarrow> world \<Rightarrow> world res" where
  "release os il p w =
     (if conns w p \<noteq> None then release_conn p w
      else if acceptors w p \<noteq> None then release_acceptor os il p w
      else release_chan p w)"

definition dispose_task :: "os \<Rightarrow> bool \<Rightarrow> task \<Rightarrow> world \<Rightarrow> world res" where
  "dispose_task os il t = foldR (release os il) (captures t)"

subsection \<open>Callbacks of channels\<close>

definition lock_tie :: "ptr \<Rightarrow> world \<Rightarrow> world option" where
  "lock_tie p w = (if 0 < refs w p then Some (acquire p w) else None)"

fun run_callback :: "env \<Rightarrow> bool \<Rightarrow> owner \<Rightarrow> cb_kind \<Rightarrow> world \<Rightarrow> world res" where
  "run_callback e il (OwnConn p) ReadCb w = conn_handleRead e il p w"
| "run_callback e il (OwnConn p) WriteCb w = conn_handleWrite e il p w"
| "run_callback e il (OwnConn p) CloseCb w = handleClose e il p w"
| "run_callback e il (OwnConn p) ErrorCb w = conn_handleError e il p w"
| "run_callback e il (OwnAcceptor a) k w = Acceptor_handleRead (e_os e) (newConnectionCb e il) il a w"
| "run_callback e il (OwnUdp u) k w = udp_channelRead e il u w"
| "run_callback e il OwnWakeup k w = Inr (loop_handleRead w)"
| "run_callback e il OwnTimers k w = e_cb e CbTimers w"

definition run_channel :: "env \<Rightarrow> bool \<Rightarrow> cb_kind \<Rightarrow> ptr \<Rightarrow> world \<Rightarrow> world res" where
  "run_channel e il k c w = derefR (bound w c) (\<lambda>own. run_callback e il own k w)"

subsection \<open>Applications\<close>

datatype action =
    Send ptr "byte list"
  | Shutdown ptr
  | NoDelay ptr bool
  | HighWater ptr nat
  | Consume nat                            \<comment> \<open>bytes of the input buffer given to a message callback\<close>
  | Keep ptr                               \<comment> \<open>store a \<open>TcpConnectionPtr\<close>\<close>
  | Forget ptr
  | Queue nat
  | Quit
  | NewServer inet_address string bool bool bool
  | Start ptr
  | DestroyServer ptr
  | NewUdp
  | UdpOpen ptr sa_family
  | UdpBind ptr inet_address
  | UdpStart ptr
  | UdpStop ptr
  | UdpSend ptr "byte list" inet_address
  | DestroyUdp ptr
  | OtherSend ptr "byte list"              \<comment> \<open>the same from another thread\<close>
  | OtherShutdown ptr
  | OtherQueue nat
  | OtherStart ptr
  | OtherUdpStart ptr
  | OtherQuit

type_synonym application = "obs \<Rightarrow> world \<Rightarrow> action list"

definition with_conn :: "ptr \<Rightarrow> (world \<Rightarrow> world res) \<Rightarrow> world \<Rightarrow> world res" where
  "with_conn p f w = (if conns w p \<noteq> None then f w else Inr w)"

definition with_server :: "ptr \<Rightarrow> (world \<Rightarrow> world res) \<Rightarrow> world \<Rightarrow> world res" where
  "with_server s f w = (if servers w s \<noteq> None then f w else Inr w)"

definition with_udp :: "ptr \<Rightarrow> (world \<Rightarrow> world res) \<Rightarrow> world \<Rightarrow> world res" where
  "with_udp u f w = (if udps w u \<noteq> None then f w else Inr w)"

definition snd_world :: "('a \<times> 'b \<times> world) res \<Rightarrow> world res" where
  "snd_world m = bindR m (\<lambda>(_, _, w). Inr w)"

definition consume_input :: "obs \<Rightarrow> nat \<Rightarrow> world \<Rightarrow> world res" where
  "consume_input ev n w = (case ev of
     CbMessage p \<Rightarrow> with_conn p (\<lambda>w. derefR (conns w p) (\<lambda>k.
         bindR (retrieve (min n (readableBytes (cn_input k))) (cn_input k)) (\<lambda>b.
           upd_conn p (\<lambda>k. k\<lparr>cn_input := b\<rparr>) w))) w
   | _ \<Rightarrow> Inr w)"

text \<open>
  One action during the callback \<open>ev\<close>. The application has a pointer to an object only while the object
  exists: an action on an object that is gone is skipped.
\<close>

fun do_action :: "env \<Rightarrow> obs \<Rightarrow> action \<Rightarrow> world \<Rightarrow> world res" where
  "do_action e ev (Send p data) w = with_conn p (conn_send e True p (Some data)) w"
| "do_action e ev (Shutdown p) w = with_conn p (conn_shutdown True p) w"
| "do_action e ev (NoDelay p on) w = with_conn p (conn_setTcpNoDelay on p) w"
| "do_action e ev (HighWater p mark) w = with_conn p (setHighWaterMarkCallback mark p) w"
| "do_action e ev (Consume n) w = consume_input ev n w"
| "do_action e ev (Keep p) w = with_conn p (\<lambda>w. Inr (acquire p (w\<lparr>held := (held w)(p := held w p + 1)\<rparr>))) w"
| "do_action e ev (Forget p) w =
     (if 0 < held w p then release_conn p (w\<lparr>held := (held w)(p := held w p - 1)\<rparr>) else Inr w)"
| "do_action e ev (Queue n) w = Inr (queueTask True (UserTask n) w)"
| "do_action e ev Quit w = Inr (quit True w)"
| "do_action e ev (NewServer addr name c m wc) w =
     bindR (TcpServer_new (e_os e) addr name w) (\<lambda>(s, w1). setCallbacks c m wc s w1)"
| "do_action e ev (Start s) w =
     with_server s (\<lambda>w. bindR (TcpServer_start (e_os e) True s w) (\<lambda>(_, w1). Inr w1)) w"
| "do_action e ev (DestroyServer s) w = with_server s (TcpServer_destroy e True s) w"
| "do_action e ev NewUdp w = bindR (UdpSocket_new (e_os e) w) (\<lambda>(u, w1). setReadCallback u w1)"
| "do_action e ev (UdpOpen u fam) w = with_udp u (\<lambda>w. snd_world (udp_open (e_os e) u fam w)) w"
| "do_action e ev (UdpBind u addr) w = with_udp u (\<lambda>w. snd_world (udp_bind (e_os e) True u addr w)) w"
| "do_action e ev (UdpStart u) w = with_udp u (\<lambda>w. snd_world (startReceive (e_os e) True u w)) w"
| "do_action e ev (UdpStop u) w = with_udp u (stopReceive (e_os e) True u) w"
| "do_action e ev (UdpSend u data addr) w = with_udp u (\<lambda>w. snd_world (sendTo (e_os e) u data addr w)) w"
| "do_action e ev (DestroyUdp u) w = with_udp u (UdpSocket_destroy (e_os e) True u) w"
| "do_action e ev (OtherSend p data) w = with_conn p (conn_send e False p (Some data)) w"
| "do_action e ev (OtherShutdown p) w = with_conn p (conn_shutdown False p) w"
| "do_action e ev (OtherQueue n) w = Inr (queueTask False (UserTask n) w)"
| "do_action e ev (OtherStart s) w =
     with_server s (\<lambda>w. bindR (TcpServer_start (e_os e) False s w) (\<lambda>(_, w1). Inr w1)) w"
| "do_action e ev (OtherUdpStart u) w = with_udp u (\<lambda>w. snd_world (startReceive (e_os e) False u w)) w"
| "do_action e ev OtherQuit w = Inr (quit False w)"

definition mk_env :: "os \<Rightarrow> (obs \<Rightarrow> world \<Rightarrow> world res) \<Rightarrow> env" where
  "mk_env os cb = \<lparr>e_os = os, e_cb = cb, e_close = server_close True\<rparr>"

text \<open>\<open>app_cb os app d\<close>: the application's callback; callbacks nested deeper than \<open>d\<close> do nothing.\<close>

fun app_cb :: "os \<Rightarrow> application \<Rightarrow> nat \<Rightarrow> obs \<Rightarrow> world \<Rightarrow> world res" where
  "app_cb os app 0 ev w = Inr (log_obs ev w)"
| "app_cb os app (Suc d) ev w =
     foldR (do_action (mk_env os (app_cb os app d)) ev) (app ev w) (log_obs ev w)"

abbreviation app_env :: "os \<Rightarrow> application \<Rightarrow> nat \<Rightarrow> env" where
  "app_env os app d \<equiv> mk_env os (app_cb os app d)"

subsection \<open>The running program\<close>

definition app_turn ::
  "os \<Rightarrow> application \<Rightarrow> nat \<Rightarrow> int \<times> (ptr \<times> events) list \<Rightarrow> world \<Rightarrow> world res option" where
  "app_turn os app d = loop_turn lock_tie (release os True) (run_channel (app_env os app d) True)
     (run_task (app_env os app d) True) (dispose_task os True)"

definition app_turns ::
  "os \<Rightarrow> application \<Rightarrow> nat \<Rightarrow> (int \<times> (ptr \<times> events) list) list \<Rightarrow> world \<Rightarrow> world res option" where
  "app_turns os app d = loop_turns lock_tie (release os True) (run_channel (app_env os app d) True)
     (run_task (app_env os app d) True) (dispose_task os True)"

text \<open>The state after the constructor of the loop: its two own channels and no other object.\<close>

definition world_of_loop :: "ptr \<Rightarrow> ptr \<Rightarrow> task loop \<Rightarrow> world" where
  "world_of_loop tp wp l = loop.extend l \<lparr>calls = [], refs = (\<lambda>_. 0), held = (\<lambda>_. 0), expired = (\<lambda>_. False),
     bound = [tp \<mapsto> OwnTimers, wp \<mapsto> OwnWakeup], conns = Map.empty, acceptors = Map.empty, servers = Map.empty,
     udps = Map.empty, obs = []\<rparr>"

end
