(* ===== verification/Ownership.thy ===== *)
theory Ownership
  imports Application "HOL-Library.Sublist"
begin

text \<open>
  The invariant of the running program: who owns which object, descriptor and reference.

  Callbacks run in the middle of an operation, so the invariant speaks about a context \<open>cx\<close> as
  well: the connections that are being closed or dropped by operations that are still on the
  stack, the references those operations hold, the channels the current turn of the loop still has to
  serve, a descriptor that has no owner yet, the closure that is running and those that were taken
  off the fallback list but did not run yet. The multiset \<open>M\<close> is the closures that wait.
\<close>

subsection \<open>Contexts\<close>

record ctx =
  cx_closing :: "ptr set"
  cx_dropping :: "ptr set"
  cx_guarded :: "ptr set"
  cx_pinned :: "ptr set"
  cx_guards :: "ptr \<Rightarrow> nat"
  cx_active :: "(ptr \<times> owner) set"
  cx_fds :: "fd set"
  cx_running :: "(nat \<times> task) option"
  cx_local :: "task multiset"
  cx_reserved :: "fd set"

definition pend :: "ctx \<Rightarrow> world \<Rightarrow> task multiset \<Rightarrow> bool" where
  "pend cx w M \<longleftrightarrow> (\<exists>xs ys. M = mset xs + mset ys + cx_local cx \<and>
     (case cx_running cx of None \<Rightarrow> loop_rep w xs ys
      | Some (q, t) \<Rightarrow> loop_rep w (t # xs) ys \<and> mpsc_peek (lp_queue w) = Some q))"

subsection \<open>References\<close>

definition capt :: "task multiset \<Rightarrow> ptr \<Rightarrow> nat" where
  "capt M p = (\<Sum>t\<in>#M. count_list (captures t) p)"

definition in_map :: "world \<Rightarrow> ptr \<Rightarrow> bool" where
  "in_map w p \<longleftrightarrow> (\<exists>s r. servers w s = Some r \<and> p \<in> snd ` set (sv_connections r))"

definition acc_owned :: "world \<Rightarrow> ptr \<Rightarrow> bool" where
  "acc_owned w a \<longleftrightarrow> (\<exists>s r. servers w s = Some r \<and> sv_acceptor r = Some a)"

definition chan_owned :: "world \<Rightarrow> ptr \<Rightarrow> bool" where
  "chan_owned w c \<longleftrightarrow> (\<exists>a r. acceptors w a = Some r \<and> ac_acceptChannel r = Some c)
     \<or> (\<exists>u r. udps w u = Some r \<and> ud_channel r = Some c)"

definition owners :: "world \<Rightarrow> ptr \<Rightarrow> nat" where
  "owners w p = of_bool (in_map w p) + of_bool (acc_owned w p) + of_bool (chan_owned w p)"

definition shared_chan :: "world \<Rightarrow> ptr \<Rightarrow> bool" where
  "shared_chan w c \<longleftrightarrow> chans w c \<noteq> None \<and>
     (case bound w c of Some (OwnAcceptor a) \<Rightarrow> True | Some (OwnUdp u) \<Rightarrow> True | _ \<Rightarrow> False)"

definition shared :: "world \<Rightarrow> ptr \<Rightarrow> bool" where
  "shared w p \<longleftrightarrow> conns w p \<noteq> None \<or> acceptors w p \<noteq> None \<or> shared_chan w p"

definition tally :: "ctx \<Rightarrow> world \<Rightarrow> task multiset \<Rightarrow> ptr \<Rightarrow> nat" where
  "tally cx w M p = owners w p + capt M p + cx_guards cx p + held w p"

definition cx_wf :: "ctx \<Rightarrow> bool" where
  "cx_wf cx \<longleftrightarrow> cx_closing cx \<subseteq> cx_guarded cx \<and> cx_dropping cx \<subseteq> cx_guarded cx
     \<and> (\<forall>p \<in> cx_guarded cx. 0 < cx_guards cx p) \<and> (\<forall>a \<in> cx_pinned cx. 0 < cx_guards cx a)"

definition counts :: "ctx \<Rightarrow> world \<Rightarrow> task multiset \<Rightarrow> bool" where
  "counts cx w M \<longleftrightarrow> (\<forall>p. refs w p = tally cx w M p)
     \<and> (\<forall>p. 0 < refs w p \<longleftrightarrow> shared w p) \<and> (\<forall>p. 0 < held w p \<longrightarrow> conns w p \<noteq> None)
     \<and> (\<forall>p \<in> cx_guarded cx. conns w p \<noteq> None) \<and> (\<forall>a \<in> cx_pinned cx. \<exists>r. acceptors w a = Some r \<and> ac_listening r) \<and> cx_wf cx"

definition kinds :: "world \<Rightarrow> bool" where
  "kinds w \<longleftrightarrow> (\<forall>p. (conns w p \<noteq> None \<longrightarrow> acceptors w p = None \<and> chans w p = None \<and> servers w p = None \<and> udps w p = None \<and> \<not> expired w p)
     \<and> (acceptors w p \<noteq> None \<longrightarrow> chans w p = None \<and> servers w p = None \<and> udps w p = None \<and> \<not> expired w p)
     \<and> (chans w p \<noteq> None \<longrightarrow> servers w p = None \<and> udps w p = None \<and> \<not> expired w p)
     \<and> (servers w p \<noteq> None \<longrightarrow> udps w p = None \<and> \<not> expired w p) \<and> (udps w p \<noteq> None \<longrightarrow> \<not> expired w p))"

subsection \<open>Descriptors\<close>

datatype role = SockOf ptr | ListenOf ptr | IdleOf ptr | UdpOf ptr

fun own_fd :: "world \<Rightarrow> role \<Rightarrow> fd" where
  "own_fd w (SockOf p) = (case conns w p of None \<Rightarrow> -1 | Some k \<Rightarrow> cn_socketFd k)"
| "own_fd w (ListenOf a) = (case acceptors w a of None \<Rightarrow> -1 | Some r \<Rightarrow> ac_acceptSocket r)"
| "own_fd w (IdleOf a) = (case acceptors w a of None \<Rightarrow> -1 | Some r \<Rightarrow> ac_idleFd r)"
| "own_fd w (UdpOf u) = (case udps w u of None \<Rightarrow> -1 | Some r \<Rightarrow> ud_sockfd r)"

definition fds :: "ctx \<Rightarrow> world \<Rightarrow> bool" where
  "fds cx w \<longleftrightarrow> fd_wf (calls w) {}
     \<and> (\<forall>f. f \<in> open_fds (calls w) \<longleftrightarrow> f \<in> cx_fds cx \<or> 0 \<le> f \<and> (\<exists>x. own_fd w x = f))
     \<and> (\<forall>x y. own_fd w x = own_fd w y \<and> 0 \<le> own_fd w x \<longrightarrow> x = y)
     \<and> (\<forall>x. 0 \<le> own_fd w x \<longrightarrow> own_fd w x \<notin> cx_fds cx \<and> own_fd w x \<notin> cx_reserved cx)
     \<and> cx_fds cx \<inter> cx_reserved cx = {} \<and> (\<forall>f \<in> cx_fds cx. 0 \<le> f)"

subsection \<open>Objects\<close>

text \<open>What was written to a descriptor since it was handed out.\<close>

fun written_step :: "fd \<Rightarrow> sys_call \<Rightarrow> byte list \<Rightarrow> byte list" where
  "written_step f (SysAccept s g) d = (if g = f then [] else d)"
| "written_step f (SysWrite g e) d = (if g = f then d @ e else d)"
| "written_step f _ d = d"

definition written :: "fd \<Rightarrow> history \<Rightarrow> byte list" where
  "written f h = fold (written_step f) h []"

lemma written_snoc [simp]: "written f (h @ [c]) = written_step f c (written f h)"
  by (simp add: written_def)

definition conn_events :: "conn \<Rightarrow> events" where
  "conn_events k = (if cn_state k = kDisconnected then kNoneEvent
     else if readableBytes (cn_output k) = 0 then kReadEvent else kReadEvent OR kWriteEvent)"

definition conn_chan :: "ptr \<Rightarrow> conn \<Rightarrow> channel \<Rightarrow> bool" where
  "conn_chan p k c \<longleftrightarrow> ch_tie c = Some p \<and> ch_events c = conn_events k
     \<and> (0 \<le> cn_socketFd k \<longrightarrow> ch_fd c = cn_socketFd k)
     \<and> (cn_socketFd k < 0 \<longrightarrow> cn_state k = kDisconnected \<and> ch_index c = -1)
     \<and> cn_state k \<noteq> kConnecting \<and> buffer_inv (cn_input k) \<and> buffer_inv (cn_output k)"

definition conn_stream :: "history \<Rightarrow> conn \<Rightarrow> bool" where
  "conn_stream h k \<longleftrightarrow> 0 \<le> cn_socketFd k \<longrightarrow>
     (if cn_state k = kDisconnected then prefix (written (cn_socketFd k) h) (cn_sent k)
      else cn_sent k = written (cn_socketFd k) h @ peek (cn_output k))"

text \<open>
  The life of a connection: \<open>x\<close> it is being closed, \<open>t\<close> it is being dropped by the destructor of its server,
  \<open>m\<close> it is in a server's map, \<open>d\<close> how many \<open>connectDestroyed\<close> wait for it, \<open>a\<close> the server of its close
  callback is alive.
\<close>

definition conn_life :: "bool \<Rightarrow> bool \<Rightarrow> bool \<Rightarrow> nat \<Rightarrow> bool \<Rightarrow> conn \<Rightarrow> bool" where
  "conn_life x t m d a k \<longleftrightarrow>
     (cn_state k \<noteq> kDisconnected \<longrightarrow> d = 0 \<and> \<not> x)
   \<and> (m \<longrightarrow> a \<and> 0 \<le> cn_socketFd k \<and> d = 0 \<and> \<not> t) \<and> (m \<and> \<not> x \<longrightarrow> cn_state k \<noteq> kDisconnected)
   \<and> (0 < d \<longrightarrow> d = 1 \<and> 0 \<le> cn_socketFd k)
   \<and> (0 \<le> cn_socketFd k \<longrightarrow> m \<or> d = 1 \<or> t)
   \<and> (a \<and> 0 \<le> cn_socketFd k \<and> d = 0 \<longrightarrow> m)
   \<and> (t \<longrightarrow> \<not> a \<and> 0 \<le> cn_socketFd k \<and> d = 0)
   \<and> (x \<longrightarrow> d = 0 \<and> (0 \<le> cn_socketFd k \<or> \<not> a))"

definition server_alive :: "world \<Rightarrow> ptr option \<Rightarrow> bool" where
  "server_alive w so = (case so of None \<Rightarrow> False | Some s \<Rightarrow> servers w s \<noteq> None)"

definition server_known :: "world \<Rightarrow> ptr option \<Rightarrow> bool" where
  "server_known w so = (case so of None \<Rightarrow> True | Some s \<Rightarrow> servers w s \<noteq> None \<or> expired w s)"

definition conn_ok :: "ctx \<Rightarrow> world \<Rightarrow> task multiset \<Rightarrow> ptr \<Rightarrow> conn \<Rightarrow> bool" where
  "conn_ok cx w M p k \<longleftrightarrow>
     (\<exists>c. chans w (cn_channel k) = Some c \<and> bound w (cn_channel k) = Some (OwnConn p) \<and> conn_chan p k c)
   \<and> conn_stream (calls w) k
   \<and> conn_life (p \<in> cx_closing cx) (p \<in> cx_dropping cx) (in_map w p) (count M (ConnectDestroyed p))
       (server_alive w (cn_closeCb k)) k
   \<and> server_known w (cn_closeCb k)"

definition name_limit :: nat where "name_limit = 51"

definition srv_ok :: "world \<Rightarrow> ptr \<Rightarrow> server \<Rightarrow> bool" where
  "srv_ok w s r \<longleftrightarrow> sorted_wrt (<) (map fst (sv_connections r))
   \<and> (\<forall>(nm, p) \<in> set (sv_connections r). \<exists>k. conns w p = Some k \<and> cn_name k = nm \<and> cn_closeCb k = Some s)
   \<and> (\<exists>a ra. sv_acceptor r = Some a \<and> acceptors w a = Some ra \<and> ac_newConnectionCb ra = Some s)
   \<and> length (c_str (sv_name r)) \<le> name_limit \<and> 1 \<le> sv_nextConnId r \<and> sv_nextConnId r \<le> 2 ^ 31 - 1
   \<and> (\<forall>nm \<in> fst ` set (sv_connections r). \<exists>i. 1 \<le> i \<and> i < sv_nextConnId r \<and> nm = conn_name (sv_name r) i)"

definition acc_ok :: "world \<Rightarrow> ptr \<Rightarrow> acceptor \<Rightarrow> bool" where
  "acc_ok w a r \<longleftrightarrow> server_known w (ac_newConnectionCb r)
   \<and> (case ac_acceptChannel r of None \<Rightarrow> ac_acceptSocket r < 0 \<and> \<not> ac_listening r
      | Some c \<Rightarrow> 0 \<le> ac_acceptSocket r \<and> ac_listening r \<and> bound w c = Some (OwnAcceptor a)
          \<and> (\<exists>ch. chans w c = Some ch \<and> ch_fd ch = ac_acceptSocket r \<and> ch_tie ch = Some a \<and> ch_events ch = kReadEvent))"

definition udp_ok :: "world \<Rightarrow> ptr \<Rightarrow> udp \<Rightarrow> bool" where
  "udp_ok w u r \<longleftrightarrow> (case ud_channel r of None \<Rightarrow> ud_sockfd r < 0 \<and> ud_state r = kClosed
      | Some c \<Rightarrow> 0 \<le> ud_sockfd r \<and> ud_state r \<noteq> kClosed \<and> bound w c = Some (OwnUdp u)
          \<and> (\<exists>ch. chans w c = Some ch \<and> ch_fd ch = ud_sockfd r \<and> ch_tie ch = None
               \<and> ch_events ch = (if ud_state r = kReceiving then kReadEvent else kNoneEvent)))"

definition chan_has_owner :: "ctx \<Rightarrow> world \<Rightarrow> ptr \<Rightarrow> channel \<Rightarrow> bool" where
  "chan_has_owner cx w c ch = (case bound w c of None \<Rightarrow> False
     | Some (OwnConn p) \<Rightarrow> (\<exists>k. conns w p = Some k \<and> cn_channel k = c)
     | Some (OwnAcceptor a) \<Rightarrow> (\<exists>r. acceptors w a = Some r \<and> ac_acceptChannel r = Some c)
         \<or> ch_index ch = -1 \<and> ch_tie ch = Some a \<and> expired w a
     | Some (OwnUdp u) \<Rightarrow> (\<exists>r. udps w u = Some r \<and> ud_channel r = Some c) \<or> ch_index ch = -1 \<and> ch_tie ch = None
         \<and> (expired w u \<or> ch_revents ch = 0)
     | Some _ \<Rightarrow> ch_fd ch \<in> cx_reserved cx \<and> ch_tie ch = None)"

definition act_ok :: "world \<Rightarrow> task multiset \<Rightarrow> ptr \<times> owner \<Rightarrow> bool" where
  "act_ok w M c \<longleftrightarrow> (\<exists>ch. chans w (fst c) = Some ch \<and> (ch_index ch \<noteq> -1 \<or> KeepChannel (fst c) \<in># M) \<and> bound w (fst c) = Some (snd c)
     \<and> (\<forall>p. snd c = OwnConn p \<longrightarrow> \<not> event_due CloseCb (ch_revents ch)))"

fun task_ok :: "world \<Rightarrow> task \<Rightarrow> bool" where
  "task_ok w (WriteComplete p) = (conns w p \<noteq> None)"
| "task_ok w (HighWaterMark p n) = (conns w p \<noteq> None)"
| "task_ok w (SendTask p m) = (conns w p \<noteq> None \<and> length m \<le> vec_max_size)"
| "task_ok w (ShutdownTask p) = (conns w p \<noteq> None)"
| "task_ok w (ConnectDestroyed p) = (conns w p \<noteq> None)"
| "task_ok w (StartServer s a) = (server_known w (Some s) \<and> (\<exists>a'. a = Some a' \<and> acceptors w a' \<noteq> None))"
| "task_ok w (KeepChannel c) = shared_chan w c"
| "task_ok w (UserTask n) = True"
| "task_ok w _ = False"

subsection \<open>The invariant\<close>

definition invM :: "ctx \<Rightarrow> world \<Rightarrow> task multiset \<Rightarrow> bool" where
  "invM cx w M \<longleftrightarrow> pend cx w M \<and> reactor_inv w \<and> counts cx w M \<and> kinds w \<and> fds cx w
   \<and> (\<forall>t \<in># M. task_ok w t)
   \<and> (\<forall>p k. conns w p = Some k \<longrightarrow> conn_ok cx w M p k)
   \<and> (\<forall>s r. servers w s = Some r \<longrightarrow> srv_ok w s r)
   \<and> (\<forall>a r. acceptors w a = Some r \<longrightarrow> acc_ok w a r)
   \<and> (\<forall>u r. udps w u = Some r \<longrightarrow> udp_ok w u r)
   \<and> (\<forall>c ch. chans w c = Some ch \<longrightarrow> chan_has_owner cx w c ch)
   \<and> (\<forall>c \<in> cx_active cx. act_ok w M c)"

definition inv :: "ctx \<Rightarrow> world \<Rightarrow> bool" where
  "inv cx w \<longleftrightarrow> (\<exists>M. invM cx w M)"

lemma invMD:
  assumes "invM cx w M"
  shows "pend cx w M" "reactor_inv w" "counts cx w M" "kinds w" "fds cx w"
    "t \<in># M \<Longrightarrow> task_ok w t"
    "conns w p = Some k \<Longrightarrow> conn_ok cx w M p k"
    "servers w s = Some r \<Longrightarrow> srv_ok w s r"
    "acceptors w a = Some ra \<Longrightarrow> acc_ok w a ra"
    "udps w u = Some ru \<Longrightarrow> udp_ok w u ru"
    "chans w c = Some ch \<Longrightarrow> chan_has_owner cx w c ch"
    "x \<in> cx_active cx \<Longrightarrow> act_ok w M x"
  using assms unfolding invM_def by auto

subsection \<open>Frames\<close>

text \<open>The fields the invariant depends on.\<close>

definition same_objects :: "world \<Rightarrow> world \<Rightarrow> bool" where
  "same_objects w w' \<longleftrightarrow> conns w' = conns w \<and> acceptors w' = acceptors w \<and> servers w' = servers w
     \<and> udps w' = udps w \<and> bound w' = bound w \<and> expired w' = expired w \<and> held w' = held w"

definition same_loop :: "world \<Rightarrow> world \<Rightarrow> bool" where
  "same_loop w w' \<longleftrightarrow> chans w' = chans w \<and> pl_channels w' = pl_channels w \<and> ctl_trace w' = ctl_trace w
     \<and> lp_queue w' = lp_queue w \<and> lp_functors w' = lp_functors w"

lemma reactor_more_eq:
  assumes "reactor.more w' = reactor.more w"
  shows "same_objects w w'" "calls w' = calls w" "refs w' = refs w" "lp_queue w' = lp_queue w"
    "lp_functors w' = lp_functors w" "obs w' = obs w"
  using assms unfolding same_objects_def by (cases w, cases w', simp)+

lemma reactor_inv_cong:
  "chans w' = chans w \<Longrightarrow> pl_channels w' = pl_channels w \<Longrightarrow> ctl_trace w' = ctl_trace w \<Longrightarrow> reactor_inv w \<Longrightarrow> reactor_inv w'"
  by (rule reactor_inv_frame) simp_all

lemma same_objectsD:
  assumes "same_objects w w'"
  shows "conns w' = conns w" "acceptors w' = acceptors w" "servers w' = servers w" "udps w' = udps w"
    "bound w' = bound w" "expired w' = expired w" "held w' = held w"
    "in_map w' = in_map w" "acc_owned w' = acc_owned w" "chan_owned w' = chan_owned w" "owners w' = owners w"
    "own_fd w' = own_fd w" "server_alive w' = server_alive w" "server_known w' = server_known w"
proof -
  show eqs: "conns w' = conns w" "acceptors w' = acceptors w" "servers w' = servers w" "udps w' = udps w"
    "bound w' = bound w" "expired w' = expired w" "held w' = held w"
    using assms by (auto simp: same_objects_def)
  show maps: "in_map w' = in_map w" "acc_owned w' = acc_owned w" "chan_owned w' = chan_owned w"
    by (auto simp: fun_eq_iff in_map_def acc_owned_def chan_owned_def eqs)
  show "owners w' = owners w" by (auto simp: fun_eq_iff owners_def maps)
  show "own_fd w' = own_fd w"
  proof
    fix x show "own_fd w' x = own_fd w x" by (cases x) (auto simp: eqs)
  qed
  show "server_alive w' = server_alive w" "server_known w' = server_known w"
    by (auto simp: fun_eq_iff server_alive_def server_known_def eqs split: option.splits)
qed

lemma pend_cong:
  "pend cx w M \<Longrightarrow> lp_queue w' = lp_queue w \<Longrightarrow> lp_functors w' = lp_functors w \<Longrightarrow> pend cx w' M"
  by (auto simp: pend_def loop_rep_def split: option.splits)

lemma fds_cong:
  "fds cx w \<Longrightarrow> own_fd w' = own_fd w \<Longrightarrow> calls w' = calls w \<Longrightarrow> fds cx w'"
  by (simp add: fds_def)

lemma fds_same:
  assumes "fds cx w" and "calls w' = calls w" and same: "\<And>x. own_fd w' x = own_fd w x \<or> own_fd w' x < 0 \<and> own_fd w x < 0"
    and "cx_fds cx' = cx_fds cx" "cx_reserved cx' = cx_reserved cx"
  shows "fds cx' w'"
proof -
  have eq: "own_fd w' x = f \<longleftrightarrow> own_fd w x = f" if "0 \<le> f" for x f using same [of x] that by auto
  have pos: "0 \<le> own_fd w' x \<longleftrightarrow> 0 \<le> own_fd w x" for x using same [of x] by auto
  have "own_fd w' x = own_fd w' y \<and> 0 \<le> own_fd w' x \<longrightarrow> x = y" for x y
    using assms(1) eq pos unfolding fds_def by metis
  moreover have "0 \<le> own_fd w' x \<longrightarrow> own_fd w' x \<notin> cx_fds cx \<and> own_fd w' x \<notin> cx_reserved cx" for x
    using assms(1) eq pos unfolding fds_def by metis
  moreover have "f \<in> open_fds (calls w) \<longleftrightarrow> f \<in> cx_fds cx \<or> 0 \<le> f \<and> (\<exists>x. own_fd w' x = f)" for f
    using assms(1) eq [of f] unfolding fds_def by metis
  ultimately show ?thesis
    using assms(1) unfolding fds_def assms(2,4,5) by blast
qed

lemma tally_cong: "owners w' = owners w \<Longrightarrow> held w' = held w \<Longrightarrow> tally cx w' = tally cx w"
  by (auto simp: fun_eq_iff tally_def)

lemma invM_frame:
  assumes inv: "invM cx w M" and obj: "same_objects w w'" and lp: "same_loop w w'"
    and rest: "calls w' = calls w" "refs w' = refs w"
  shows "invM cx w' M"
proof -
  note eqs = same_objectsD [OF obj]
  have ch: "chans w' = chans w" using lp by (simp add: same_loop_def)
  have sc: "shared_chan w' = shared_chan w" by (auto simp: fun_eq_iff shared_chan_def eqs ch)
  have "pend cx w' M" using pend_cong [OF invMD(1) [OF inv]] lp by (simp add: same_loop_def)
  moreover have "reactor_inv w'"
    using lp by (intro reactor_inv_cong [OF _ _ _ invMD(2) [OF inv]]) (auto simp: same_loop_def)
  moreover have "counts cx w' M"
    using invMD(3) [OF inv] tally_cong [OF eqs(11,7)] by (auto simp: counts_def eqs rest shared_def sc)
  moreover have "kinds w'" using invMD(4) [OF inv] by (simp add: kinds_def eqs ch)
  moreover have "fds cx w'" using fds_cong [OF invMD(5) [OF inv]] eqs rest by simp
  moreover have "task_ok w' t = task_ok w t" for t by (cases t) (simp_all add: eqs sc)
  moreover have "conn_ok cx w' M p k = conn_ok cx w M p k" for p k
    by (simp add: conn_ok_def eqs ch rest)
  moreover have "srv_ok w' s r = srv_ok w s r" for s r by (simp add: srv_ok_def eqs)
  moreover have "acc_ok w' a r = acc_ok w a r" for a r by (simp add: acc_ok_def eqs ch cong: option.case_cong)
  moreover have "udp_ok w' u r = udp_ok w u r" for u r by (simp add: udp_ok_def eqs ch cong: option.case_cong)
  moreover have "chan_has_owner cx w' c x = chan_has_owner cx w c x" for c x
    by (simp add: chan_has_owner_def eqs cong: option.case_cong owner.case_cong)
  moreover have "act_ok w' M c = act_ok w M c" for c by (simp add: act_ok_def eqs ch)
  ultimately show ?thesis using inv by (simp add: invM_def eqs ch)
qed


lemma fold_acquire: "fold acquire ps w = w\<lparr>refs := (\<lambda>p. refs w p + count_list ps p)\<rparr>"
  by (induction ps arbitrary: w) (auto simp: acquire_def fun_eq_iff intro!: world.equality)

lemma queueTask_fields [simp]:
  "conns (queueTask il t w) = conns w" "acceptors (queueTask il t w) = acceptors w" "servers (queueTask il t w) = servers w"
  "udps (queueTask il t w) = udps w" "bound (queueTask il t w) = bound w" "expired (queueTask il t w) = expired w"
  "held (queueTask il t w) = held w" "calls (queueTask il t w) = calls w" "obs (queueTask il t w) = obs w"
  "chans (queueTask il t w) = chans w" "pl_channels (queueTask il t w) = pl_channels w"
  "ctl_trace (queueTask il t w) = ctl_trace w"
  "refs (queueTask il t w) = (\<lambda>p. refs w p + count_list (captures t) p)"
  by (auto simp: queueTask_def fold_acquire queueInLoop_def wakeup_def Let_def split: option.splits prod.splits)

lemma same_objects_queueTask [simp]: "same_objects w (queueTask il t w)"
  by (simp add: same_objects_def)

lemma capt_add [simp]: "capt (add_mset t M) p = count_list (captures t) p + capt M p"
  by (simp add: capt_def)

lemma capt_mono: "t \<in># M \<Longrightarrow> count_list (captures t) p \<le> capt M p"
  by (metis capt_add insert_DiffM le_add1)

lemma queueTask_loop:
  "lp_queue (queueTask il t w) = lp_queue (queueInLoop il t w)"
  "lp_functors (queueTask il t w) = lp_functors (queueInLoop il t w)"
  by (auto simp: queueTask_def fold_acquire queueInLoop_def wakeup_def Let_def split: option.splits prod.splits)

lemma loop_rep_cong: "lp_queue w' = lp_queue w \<Longrightarrow> lp_functors w' = lp_functors w \<Longrightarrow> loop_rep w' xs ys = loop_rep w xs ys"
  by (simp add: loop_rep_def)

lemma pend_queue:
  assumes "pend cx w M"
  shows "pend cx (queueTask il t w) (add_mset t M)"
proof -
  have step: "\<exists>as bs. loop_rep (queueTask il t w) (xs @ as) (ys @ bs) \<and> mset as + mset bs = {#t#}
      \<and> (\<forall>q. mpsc_peek (lp_queue w) = Some q \<longrightarrow> mpsc_peek (lp_queue (queueTask il t w)) = Some q)"
    if "loop_rep w xs ys" for xs ys
  proof -
    obtain as bs where "spill_abs pending_cap t (xs, ys) = (xs @ as, ys @ bs)" "mset as + mset bs = {#t#}"
      using fold_spill_prefix [of pending_cap "[t]" xs ys] by (cases "spill_abs pending_cap t (xs, ys)") auto
    with queueInLoop_rep [OF that this(1), where il = il] show ?thesis
      unfolding loop_rep_cong [OF queueTask_loop [of il t w]] queueTask_loop by blast
  qed
  from assms obtain xs ys where M: "M = mset xs + mset ys + cx_local cx"
    and run: "case cx_running cx of None \<Rightarrow> loop_rep w xs ys
      | Some (q, t') \<Rightarrow> loop_rep w (t' # xs) ys \<and> mpsc_peek (lp_queue w) = Some q"
    by (auto simp: pend_def)
  show ?thesis
  proof (cases "cx_running cx")
    case None
    with run have "loop_rep w xs ys" by simp
    from step [OF this] obtain as bs where ab: "loop_rep (queueTask il t w) (xs @ as) (ys @ bs)" "mset as + mset bs = {#t#}" by blast
    then have "add_mset t M = mset (xs @ as) + mset (ys @ bs) + cx_local cx"
      using M by (metis (no_types, lifting) add.assoc add.commute add_mset_add_single mset_append)
    with ab None show ?thesis
      unfolding pend_def by (intro exI [of _ "xs @ as"] exI [of _ "ys @ bs"]) simp
  next
    case (Some qt)
    obtain q t' where qt: "qt = (q, t')" by force
    with run Some have rep: "loop_rep w (t' # xs) ys" and pk: "mpsc_peek (lp_queue w) = Some q" by auto
    from step [OF rep] pk obtain as bs where ab: "loop_rep (queueTask il t w) (t' # (xs @ as)) (ys @ bs)"
      "mset as + mset bs = {#t#}" "mpsc_peek (lp_queue (queueTask il t w)) = Some q" by auto
    then have "add_mset t M = mset (xs @ as) + mset (ys @ bs) + cx_local cx"
      using M by (metis (no_types, lifting) add.assoc add.commute add_mset_add_single mset_append)
    with ab Some qt show ?thesis
      unfolding pend_def by (intro exI [of _ "xs @ as"] exI [of _ "ys @ bs"]) simp
  qed
qed

lemma task_ok_shared: "task_ok w t \<Longrightarrow> p \<in> set (captures t) \<Longrightarrow> shared w p"
  by (cases t) (auto simp: shared_def)

lemma counts_queue:
  assumes "counts cx w M" and "task_ok w t"
  shows "counts cx (queueTask il t w) (add_mset t M)"
proof -
  have sh: "shared (queueTask il t w) = shared w"
    by (auto simp: fun_eq_iff shared_def shared_chan_def)
  have "owners (queueTask il t w) = owners w" by (rule same_objectsD) simp
  then have tl: "tally cx (queueTask il t w) (add_mset t M) p = tally cx w M p + count_list (captures t) p" for p
    by (simp add: tally_def)
  have pos: "0 < count_list (captures t) p \<Longrightarrow> shared w p" for p
    using task_ok_shared [OF assms(2)] by (metis count_list_0_iff not_gr_zero)
  show ?thesis
    using assms(1) pos tl unfolding counts_def by (auto simp: sh)
qed


subsection \<open>Steps of one connection\<close>

lemma conn_okD:
  assumes "invM cx w M" and "conns w p = Some k"
  obtains c where "chans w (cn_channel k) = Some c" "bound w (cn_channel k) = Some (OwnConn p)" "conn_chan p k c"
    "conn_stream (calls w) k" "server_known w (cn_closeCb k)"
    "conn_life (p \<in> cx_closing cx) (p \<in> cx_dropping cx) (in_map w p) (count M (ConnectDestroyed p))
       (server_alive w (cn_closeCb k)) k"
  using invMD(7) [OF assms] by (auto simp: conn_ok_def)

lemma conn_ok_transfer:
  assumes "conn_ok cx w M p k" and "chans w' (cn_channel k) = chans w (cn_channel k)"
    and "bound w' (cn_channel k) = bound w (cn_channel k)" and "in_map w' p = in_map w p"
    and "count M' (ConnectDestroyed p) = count M (ConnectDestroyed p)"
    and "server_alive w' (cn_closeCb k) = server_alive w (cn_closeCb k)"
    and "server_known w (cn_closeCb k) \<Longrightarrow> server_known w' (cn_closeCb k)"
    and "0 \<le> cn_socketFd k \<Longrightarrow> written (cn_socketFd k) (calls w') = written (cn_socketFd k) (calls w)"
    and "p \<in> cx_closing cx' \<longleftrightarrow> p \<in> cx_closing cx" and "p \<in> cx_dropping cx' \<longleftrightarrow> p \<in> cx_dropping cx"
  shows "conn_ok cx' w' M' p k"
  using assms by (auto simp: conn_ok_def conn_stream_def)

lemma conn_channel_inj:
  assumes "invM cx w M" and "conns w p = Some k" and "conns w q = Some k'" and "cn_channel k = cn_channel k'"
  shows "p = q"
  using conn_okD [OF assms(1,2)] conn_okD [OF assms(1,3)] assms(4) by (metis option.inject owner.inject(1))

text \<open>The descriptor of a connection belongs to no other channel of the poller.\<close>

lemma chan_fd_role:
  assumes inv: "invM cx w M" and c: "chans w c = Some ch" "ch_index ch \<noteq> -1"
  obtains (res) "ch_fd ch \<in> cx_reserved cx"
    | (own) x p where "own_fd w x = ch_fd ch" "0 \<le> ch_fd ch"
        "x = SockOf p \<and> (\<exists>k. conns w p = Some k \<and> cn_channel k = c)
         \<or> x = ListenOf p \<and> (\<exists>r. acceptors w p = Some r \<and> ac_acceptChannel r = Some c)
         \<or> x = UdpOf p \<and> (\<exists>r. udps w p = Some r \<and> ud_channel r = Some c)"
proof -
  obtain o' where o': "bound w c = Some o'" using invMD(11) [OF inv c(1)] by (auto simp: chan_has_owner_def split: option.splits)
  show thesis
  proof (cases o')
    case (OwnConn p)
    then obtain k where k: "conns w p = Some k" "cn_channel k = c"
      using invMD(11) [OF inv c(1)] o' by (auto simp: chan_has_owner_def)
    then have "conn_chan p k ch" using conn_okD [OF inv k(1)] c(1) by auto
    then have "cn_socketFd k = ch_fd ch" "0 \<le> ch_fd ch" using c(2) by (auto simp: conn_chan_def)
    with k show ?thesis by (intro own [of "SockOf p" p]) auto
  next
    case (OwnAcceptor a)
    then obtain r where r: "acceptors w a = Some r" "ac_acceptChannel r = Some c"
      using invMD(11) [OF inv c(1)] o' c(2) by (auto simp: chan_has_owner_def)
    then have "ac_acceptSocket r = ch_fd ch" "0 \<le> ch_fd ch" using invMD(9) [OF inv r(1)] c(1) by (auto simp: acc_ok_def)
    with r show ?thesis by (intro own [of "ListenOf a" a]) auto
  next
    case (OwnUdp u)
    then obtain r where r: "udps w u = Some r" "ud_channel r = Some c"
      using invMD(11) [OF inv c(1)] o' c(2) by (auto simp: chan_has_owner_def)
    then have "ud_sockfd r = ch_fd ch" "0 \<le> ch_fd ch" using invMD(10) [OF inv r(1)] c(1) by (auto simp: udp_ok_def)
    with r show ?thesis by (intro own [of "UdpOf u" u]) auto
  qed (use invMD(11) [OF inv c(1)] o' res in \<open>auto simp: chan_has_owner_def\<close>)
qed


lemma own_fd_inj:
  assumes "fds cx w" and "own_fd w x = f" and "own_fd w y = f" and "0 \<le> f"
  shows "x = y"
  using assms by (auto simp: fds_def)

lemma own_fd_open:
  assumes "fds cx w" and "own_fd w x = f" and "0 \<le> f"
  shows "f \<in> open_fds (calls w)" "f \<notin> cx_reserved cx" "f \<notin> cx_fds cx"
  using assms by (auto simp: fds_def)

lemma fd_free_own:
  assumes inv: "invM cx w M" and c: "chans w c = Some ch" and x: "own_fd w x = ch_fd ch" "0 \<le> ch_fd ch"
    and role: "\<And>c'. (\<exists>p k. x = SockOf p \<and> conns w p = Some k \<and> cn_channel k = c')
         \<or> (\<exists>p r. x = ListenOf p \<and> acceptors w p = Some r \<and> ac_acceptChannel r = Some c')
         \<or> (\<exists>p r. x = UdpOf p \<and> udps w p = Some r \<and> ud_channel r = Some c') \<Longrightarrow> c' = c"
  shows "fd_free c w"
proof -
  have "c' = c" if c': "pl_channels w (ch_fd ch) = Some c'" for c'
  proof -
    obtain ch' where ch': "chans w c' = Some ch'" "ch_fd ch' = ch_fd ch" "ch_index ch' \<noteq> -1"
      using reactor_invD(3) [OF invMD(2) [OF inv] c'] by blast
    show ?thesis
      using inv ch'(1,3)
    proof (cases rule: chan_fd_role)
      case res
      then show ?thesis using own_fd_open(2) [OF invMD(5) [OF inv] x] ch'(2) by simp
    next
      case (own y p)
      then have "y = x" using own_fd_inj [OF invMD(5) [OF inv] _ x(1,2)] ch'(2) by simp
      with own(3) show ?thesis by (intro role) auto
    qed
  qed
  then show ?thesis using c by (cases "pl_channels w (ch_fd ch)") (auto simp: fd_free_def)
qed

lemma conn_fd_free:
  assumes inv: "invM cx w M" and p: "conns w p = Some k" "0 \<le> cn_socketFd k"
  shows "fd_free (cn_channel k) w"
proof -
  obtain c where c: "chans w (cn_channel k) = Some c" "conn_chan p k c" using conn_okD [OF inv p(1)] by blast
  then have "ch_fd c = cn_socketFd k" using p(2) by (simp add: conn_chan_def)
  then show ?thesis
    using p by (intro fd_free_own [OF inv c(1), of "SockOf p"]) auto
qed

lemma acc_fd_free:
  assumes inv: "invM cx w M" and p: "acceptors w a = Some r" "ac_acceptChannel r = Some c"
  shows "fd_free c w"
proof -
  obtain ch where "chans w c = Some ch" "ch_fd ch = ac_acceptSocket r" "0 \<le> ac_acceptSocket r"
    using invMD(9) [OF inv p(1)] p(2) by (auto simp: acc_ok_def)
  then show ?thesis
    using p by (intro fd_free_own [OF inv, of c ch "ListenOf a"]) auto
qed

lemma udp_fd_free:
  assumes inv: "invM cx w M" and p: "udps w u = Some r" "ud_channel r = Some c"
  shows "fd_free c w"
proof -
  obtain ch where "chans w c = Some ch" "ch_fd ch = ud_sockfd r" "0 \<le> ud_sockfd r"
    using invMD(10) [OF inv p(1)] p(2) by (auto simp: udp_ok_def)
  then show ?thesis
    using p by (intro fd_free_own [OF inv, of c ch "UdpOf u"]) auto
qed

text \<open>
  The connection at \<open>p\<close> becomes \<open>k'\<close> and its channel \<open>ch'\<close>; tasks may be queued and calls made meanwhile, and
  the context may change for this connection.
\<close>

lemma invM_conn_step:
  assumes inv: "invM cx w M" and p: "conns w p = Some k" and ch: "chans w (cn_channel k) = Some ch"
    and w': "conns w' = (conns w)(p \<mapsto> k')" "chans w' = (chans w)(cn_channel k \<mapsto> ch')" "bound w' = bound w"
      "servers w' = servers w" "acceptors w' = acceptors w" "udps w' = udps w" "expired w' = expired w" "held w' = held w"
    and r: "reactor_inv w'"
    and k': "cn_channel k' = cn_channel k" "cn_name k' = cn_name k"
      "cn_closeCb k' = cn_closeCb k \<or> cn_closeCb k' = None \<and> \<not> in_map w p"
    and ch': "ch_fd ch' = ch_fd ch" "ch_revents ch' = ch_revents ch"
      "cn_channel k \<in> fst ` cx_active cx \<Longrightarrow> ch_index ch \<noteq> -1 \<Longrightarrow> ch_index ch' \<noteq> -1"
    and ok: "conn_chan p k' ch'" "conn_stream (calls w') k'"
      "conn_life (p \<in> cx_closing cx') (p \<in> cx_dropping cx') (in_map w p) (count M' (ConnectDestroyed p))
         (server_alive w (cn_closeCb k')) k'"
    and calls: "fds cx' w'" "\<And>f. f \<noteq> cn_socketFd k \<Longrightarrow> written f (calls w') = written f (calls w)"
    and M': "pend cx' w' M'" "counts cx' w' M'" "\<And>t. t \<in># M' \<Longrightarrow> t \<in># M \<or> task_ok w t"
      "\<And>c. KeepChannel c \<in># M \<Longrightarrow> KeepChannel c \<in># M'"
      "\<And>q. q \<noteq> p \<Longrightarrow> count M' (ConnectDestroyed q) = count M (ConnectDestroyed q)"
    and cx': "cx_active cx' = cx_active cx" "cx_reserved cx' = cx_reserved cx"
      "\<And>q. q \<noteq> p \<Longrightarrow> q \<in> cx_closing cx' \<longleftrightarrow> q \<in> cx_closing cx"
      "\<And>q. q \<noteq> p \<Longrightarrow> q \<in> cx_dropping cx' \<longleftrightarrow> q \<in> cx_dropping cx"
  shows "invM cx' w' M'"
proof -
  obtain c0 where old: "bound w (cn_channel k) = Some (OwnConn p)" "server_known w (cn_closeCb k)"
    using conn_okD [OF inv p] by metis
  have maps: "in_map w' = in_map w" "server_alive w' = server_alive w" "server_known w' = server_known w"
    by (auto simp: fun_eq_iff in_map_def server_alive_def server_known_def w' split: option.splits)
  have sc: "shared_chan w' = shared_chan w"
    using ch by (auto simp: fun_eq_iff shared_chan_def w')
  have dom: "conns w' q = None \<longleftrightarrow> conns w q = None" for q using p by (simp add: w')
  have tasks: "task_ok w' t = task_ok w t" for t using p by (cases t) (auto simp: w' maps sc)
  have kinds: "kinds w'"
    using invMD(4) [OF inv] p ch by (auto simp: kinds_def w')
  have conn: "conn_ok cx' w' M' q kq" if q: "conns w' q = Some kq" for q kq
  proof (cases "q = p")
    case True
    then have "kq = k'" using q by (simp add: w')
    then show ?thesis
      using ok True old k'(3) by (auto simp: conn_ok_def w' k'(1,2) maps server_known_def)
  next
    case False
    then have q': "conns w q = Some kq" using q by (simp add: w')
    then have "cn_channel kq \<noteq> cn_channel k" using conn_channel_inj [OF inv q' p] False by auto
    moreover have "cn_socketFd kq \<noteq> cn_socketFd k" if "0 \<le> cn_socketFd kq"
      using own_fd_inj [OF invMD(5) [OF inv], of "SockOf q" "cn_socketFd kq" "SockOf p"] q' p False that by auto
    ultimately show ?thesis
      using False by (intro conn_ok_transfer [OF invMD(7) [OF inv q']]) (simp_all add: w' maps M'(5) cx' calls(2))
  qed
  have srv: "srv_ok w' s sr" if s: "servers w s = Some sr" for s sr
  proof -
    have "\<exists>kk. conns w' q = Some kk \<and> cn_name kk = nm \<and> cn_closeCb kk = Some s"
      if ex: "\<exists>kk. conns w q = Some kk \<and> cn_name kk = nm \<and> cn_closeCb kk = Some s" and q: "(nm, q) \<in> set (sv_connections sr)" for q nm
    proof -
      have "in_map w q" using s q by (force simp: in_map_def)
      then show ?thesis using ex p k' by (cases "q = p") (auto simp: w')
    qed
    then show ?thesis using invMD(8) [OF inv s] unfolding srv_ok_def w' by blast
  qed
  have acc: "acc_ok w' a r" if "acceptors w a = Some r" for a r
    using invMD(9) [OF inv that] old(1) by (auto simp: acc_ok_def w' maps split: option.splits)
  have udp: "udp_ok w' u r" if "udps w u = Some r" for u r
    using invMD(10) [OF inv that] old(1) by (auto simp: udp_ok_def w' split: option.splits)
  have chan: "chan_has_owner cx' w' c x" if c: "chans w' c = Some x" for c x
  proof (cases "c = cn_channel k")
    case True
    then show ?thesis using old(1) k' by (auto simp: chan_has_owner_def w')
  next
    case False
    then have "chan_has_owner cx w c x" using invMD(11) [OF inv] c by (simp add: w')
    then show ?thesis
      using p k' by (auto simp: chan_has_owner_def w' cx' split: option.splits owner.splits if_splits)
  qed
  have act: "act_ok w' M' c" if "c \<in> cx_active cx" for c
    using invMD(12) [OF inv that] ch'(3) [OF rev_image_eqI [OF that]] ch ch'(1,2) M'(4) by (auto simp: act_ok_def w')
  have "task_ok w' t" if "t \<in># M'" for t
    using M'(3) [OF that] invMD(6) [OF inv, of t] by (auto simp: tasks)
  then show ?thesis
    using r calls(1) M'(1,2) kinds conn srv acc udp chan act unfolding invM_def by (auto simp: w'(4-6) cx'(1))
qed


subsection \<open>References and tasks\<close>

lemma invM_refs:
  assumes inv: "invM cx w M" and obj: "same_objects w w'"
    and w': "chans w' = chans w" "pl_channels w' = pl_channels w" "ctl_trace w' = ctl_trace w" "calls w' = calls w"
    and M': "pend cx' w' M'" "counts cx' w' M'" "\<And>t. t \<in># M' \<Longrightarrow> t \<in># M \<or> task_ok w t" "M \<subseteq># M'"
      "\<And>q. count M' (ConnectDestroyed q) = count M (ConnectDestroyed q)"
    and cx': "cx_closing cx' = cx_closing cx" "cx_dropping cx' = cx_dropping cx" "cx_active cx' = cx_active cx"
      "cx_fds cx' = cx_fds cx" "cx_reserved cx' = cx_reserved cx"
  shows "invM cx' w' M'"
proof -
  note eqs = same_objectsD [OF obj]
  have sc: "shared_chan w' = shared_chan w" by (auto simp: fun_eq_iff shared_chan_def eqs w')
  have "reactor_inv w'" using w' by (intro reactor_inv_cong [OF _ _ _ invMD(2) [OF inv]])
  moreover have "kinds w'" using invMD(4) [OF inv] by (simp add: kinds_def eqs w')
  moreover have "fds cx' w'" using invMD(5) [OF inv] by (simp add: fds_def eqs w' cx')
  moreover have "task_ok w' t = task_ok w t" for t by (cases t) (simp_all add: eqs sc)
  then have "task_ok w' t" if "t \<in># M'" for t using M'(3) [OF that] invMD(6) [OF inv, of t] by auto
  moreover have "conn_ok cx' w' M' p k = conn_ok cx w M p k" for p k
    by (simp add: conn_ok_def eqs w' M'(5) cx')
  moreover have "srv_ok w' s r = srv_ok w s r" for s r by (simp add: srv_ok_def eqs)
  moreover have "acc_ok w' a r = acc_ok w a r" for a r by (simp add: acc_ok_def eqs w' cong: option.case_cong)
  moreover have "udp_ok w' u r = udp_ok w u r" for u r by (simp add: udp_ok_def eqs w' cong: option.case_cong)
  moreover have "chan_has_owner cx' w' c x = chan_has_owner cx w c x" for c x
    by (simp add: chan_has_owner_def eqs cx' cong: option.case_cong owner.case_cong)
  moreover have "act_ok w' M' c" if "act_ok w M c" for c
    using that M'(4) by (auto simp: act_ok_def eqs w' dest: mset_subset_eqD)
  ultimately show ?thesis using inv M'(1,2) by (simp add: invM_def eqs w' cx')
qed

lemma invM_queue:
  assumes inv: "invM cx w M" and t: "task_ok w t" "\<And>q. t \<noteq> ConnectDestroyed q"
  shows "invM cx (queueTask il t w) (add_mset t M)"
  using t by (intro invM_refs [OF inv] pend_queue counts_queue invMD(1,3) [OF inv]) auto

lemma inv_queue:
  assumes "inv cx w" and "task_ok w t" and "\<And>q. t \<noteq> ConnectDestroyed q"
  shows "inv cx (queueTask il t w)"
  using assms invM_queue unfolding inv_def by blast

text \<open>An operation on the stack takes a reference to a connection (\<open>cx_guard\<close>) and drops it again.\<close>

definition cx_guard :: "ptr \<Rightarrow> ctx \<Rightarrow> ctx" where
  "cx_guard p cx = cx\<lparr>cx_guarded := insert p (cx_guarded cx), cx_guards := (cx_guards cx)(p := cx_guards cx p + 1)\<rparr>"

lemma cx_guard_simps [simp]:
  "cx_closing (cx_guard p cx) = cx_closing cx" "cx_dropping (cx_guard p cx) = cx_dropping cx"
  "cx_active (cx_guard p cx) = cx_active cx" "cx_fds (cx_guard p cx) = cx_fds cx"
  "cx_reserved (cx_guard p cx) = cx_reserved cx" "cx_running (cx_guard p cx) = cx_running cx"
  "cx_local (cx_guard p cx) = cx_local cx" "cx_guarded (cx_guard p cx) = insert p (cx_guarded cx)"
  "cx_pinned (cx_guard p cx) = cx_pinned cx"
  "cx_guards (cx_guard p cx) = (cx_guards cx)(p := cx_guards cx p + 1)"
  by (simp_all add: cx_guard_def)

lemma pend_cx: "pend cx w M \<Longrightarrow> cx_running cx' = cx_running cx \<Longrightarrow> cx_local cx' = cx_local cx \<Longrightarrow> pend cx' w M"
  by (simp add: pend_def)

lemma acquire_fields [simp]:
  "conns (acquire p w) = conns w" "acceptors (acquire p w) = acceptors w" "servers (acquire p w) = servers w"
  "udps (acquire p w) = udps w" "bound (acquire p w) = bound w" "expired (acquire p w) = expired w"
  "held (acquire p w) = held w" "calls (acquire p w) = calls w" "obs (acquire p w) = obs w"
  "chans (acquire p w) = chans w" "pl_channels (acquire p w) = pl_channels w"
  "ctl_trace (acquire p w) = ctl_trace w" "refs (acquire p w) = (refs w)(p := refs w p + 1)"
  "lp_queue (acquire p w) = lp_queue w" "lp_functors (acquire p w) = lp_functors w"
  by (simp_all add: acquire_def)

lemma same_objects_acquire [simp]: "same_objects w (acquire p w)"
  by (simp add: same_objects_def)

lemma shared_cong:
  "same_objects w w' \<Longrightarrow> chans w' = chans w \<Longrightarrow> shared w' = shared w"
  by (auto simp: fun_eq_iff shared_def shared_chan_def same_objects_def)

lemma cx_wf_guard: "cx_wf cx \<Longrightarrow> cx_wf (cx_guard p cx)"
  by (auto simp: cx_wf_def)

lemma tally_guard [simp]: "tally (cx_guard p cx) w M q = tally cx w M q + of_bool (q = p)"
  by (simp add: tally_def)

lemma counts_acquire:
  assumes "counts cx w M" and "conns w p \<noteq> None"
  shows "counts (cx_guard p cx) (acquire p w) M"
proof -
  have "tally cx' (acquire p w) = tally cx' w" for cx' by (rule tally_cong) (simp_all add: same_objectsD)
  moreover have "shared (acquire p w) = shared w" by (rule shared_cong) simp_all
  ultimately show ?thesis
    using assms unfolding counts_def by (auto simp: shared_def cx_wf_guard)
qed

lemma invM_acquire:
  assumes inv: "invM cx w M" and p: "conns w p \<noteq> None"
  shows "invM (cx_guard p cx) (acquire p w) M"
proof (rule invM_refs [OF inv])
  have "pend cx (acquire p w) M" by (rule pend_cong [OF invMD(1) [OF inv]]) simp_all
  then show "pend (cx_guard p cx) (acquire p w) M" by (rule pend_cx) simp_all
  show "counts (cx_guard p cx) (acquire p w) M" by (rule counts_acquire [OF invMD(3) [OF inv] p])
qed simp_all


text \<open>
  The contexts before and after a reference to \<open>p\<close> is dropped. The reference may have kept a connection
  (\<open>cx_guard\<close>) or an acceptor (\<open>cx_pin\<close>) alive, or be one of a closure (\<open>cx_ref\<close>).
\<close>

definition cx_drops :: "ptr \<Rightarrow> ctx \<Rightarrow> ctx \<Rightarrow> bool" where
  "cx_drops p cx cx' \<longleftrightarrow> cx_closing cx' = cx_closing cx \<and> cx_dropping cx' = cx_dropping cx \<and> cx_active cx' = cx_active cx
     \<and> cx_fds cx' = cx_fds cx \<and> cx_running cx' = cx_running cx \<and> cx_local cx' = cx_local cx \<and> cx_reserved cx' = cx_reserved cx
     \<and> cx_guards cx = (cx_guards cx')(p := cx_guards cx' p + 1) \<and> cx_guarded cx' \<subseteq> cx_guarded cx \<and> cx_pinned cx' \<subseteq> cx_pinned cx
     \<and> cx_wf cx'"

definition cx_ref :: "ptr \<Rightarrow> ctx \<Rightarrow> ctx" where
  "cx_ref p cx = cx\<lparr>cx_guards := (cx_guards cx)(p := cx_guards cx p + 1)\<rparr>"

definition cx_pin :: "ptr \<Rightarrow> ctx \<Rightarrow> ctx" where
  "cx_pin a cx = cx\<lparr>cx_pinned := insert a (cx_pinned cx), cx_guards := (cx_guards cx)(a := cx_guards cx a + 1)\<rparr>"

lemma cx_drops_intro [simp]:
  "cx_wf cx \<Longrightarrow> cx_drops p (cx_guard p cx) cx" "cx_wf cx \<Longrightarrow> cx_drops p (cx_ref p cx) cx" "cx_wf cx \<Longrightarrow> cx_drops p (cx_pin p cx) cx"
  by (auto simp: cx_drops_def cx_ref_def cx_pin_def)

lemma cx_dropsD:
  assumes "cx_drops p cx cx'"
  shows "cx_closing cx' = cx_closing cx" "cx_dropping cx' = cx_dropping cx" "cx_active cx' = cx_active cx"
    "cx_fds cx' = cx_fds cx" "cx_running cx' = cx_running cx" "cx_local cx' = cx_local cx" "cx_reserved cx' = cx_reserved cx"
    "cx_wf cx'" "tally cx w M q = tally cx' w M q + of_bool (q = p)"
    "q \<in> cx_guarded cx' \<Longrightarrow> q \<in> cx_guarded cx" "q \<in> cx_pinned cx' \<Longrightarrow> q \<in> cx_pinned cx"
  using assms by (auto simp: cx_drops_def tally_def)

text \<open>A connection to which the last reference is being dropped is gone for the rest of the program.\<close>

lemma no_refs:
  assumes inv: "invM cx0 w M" and cx: "cx_drops p cx0 cx" and p: "conns w p = Some k" and t: "tally cx w M p = 0"
  shows "\<not> in_map w p" "capt M p = 0" "held w p = 0" "p \<notin> cx_guarded cx" "cn_socketFd k < 0" "cn_state k = kDisconnected"
    "\<exists>c. chans w (cn_channel k) = Some c \<and> ch_index c = -1 \<and> bound w (cn_channel k) = Some (OwnConn p)"
proof -
  show map: "\<not> in_map w p" and capt: "capt M p = 0" and "held w p = 0" and g: "p \<notin> cx_guarded cx"
    using t cx_dropsD(8) [OF cx] by (auto simp: tally_def owners_def cx_wf_def)
  have "count M (ConnectDestroyed p) = 0"
    using capt capt_mono [of "ConnectDestroyed p" M p] by (auto simp: not_in_iff [symmetric])
  moreover have "p \<notin> cx_closing cx0 \<and> p \<notin> cx_dropping cx0"
    using g cx_dropsD(8) [OF cx] cx_dropsD(1,2) [OF cx] by (auto simp: cx_wf_def)
  moreover obtain c where c: "chans w (cn_channel k) = Some c" "bound w (cn_channel k) = Some (OwnConn p)" "conn_chan p k c"
    "conn_life (p \<in> cx_closing cx0) (p \<in> cx_dropping cx0) (in_map w p) (count M (ConnectDestroyed p))
       (server_alive w (cn_closeCb k)) k"
    using conn_okD [OF inv p] by metis
  ultimately show fd: "cn_socketFd k < 0" using map by (auto simp: conn_life_def)
  with c show "cn_state k = kDisconnected"
    "\<exists>c. chans w (cn_channel k) = Some c \<and> ch_index c = -1 \<and> bound w (cn_channel k) = Some (OwnConn p)"
    by (auto simp: conn_chan_def)
qed

lemma invM_delete_conn:
  assumes inv: "invM cx0 w M" and cx: "cx_drops p cx0 cx" and p: "conns w p = Some k" and t: "tally cx w M p = 0"
    and w': "conns w' = (conns w)(p := None)" "chans w' = (chans w)(cn_channel k := None)"
      "bound w' = (bound w)(cn_channel k := None)" "refs w' = (refs w)(p := 0)" "pl_channels w' = pl_channels w"
      "ctl_trace w' = ctl_trace w" "servers w' = servers w" "acceptors w' = acceptors w" "udps w' = udps w"
      "expired w' = expired w" "held w' = held w" "calls w' = calls w" "lp_queue w' = lp_queue w" "lp_functors w' = lp_functors w"
  shows "invM cx w' M"
proof -
  note none = no_refs [OF inv cx p t] and cxs = cx_dropsD [OF cx]
  obtain c where c: "chans w (cn_channel k) = Some c" "ch_index c = -1" "bound w (cn_channel k) = Some (OwnConn p)"
    using none(7) by blast
  have cnt: "counts cx0 w M" and kd: "kinds w" by (rule invMD(3,4) [OF inv])+
  have maps: "in_map w' = in_map w" "server_alive w' = server_alive w" "server_known w' = server_known w"
    "owners w' = owners w"
    by (auto simp: fun_eq_iff in_map_def server_alive_def server_known_def owners_def acc_owned_def chan_owned_def w'
        split: option.splits)
  have own: "own_fd w' x = (if x = SockOf p then -1 else own_fd w x)" for x by (cases x) (auto simp: w')
  have unreg: "\<not> shared_chan w (cn_channel k)" using c(3) by (simp add: shared_chan_def)
  have sc: "shared_chan w' x \<longleftrightarrow> shared_chan w x" for x
    using unreg by (auto simp: shared_chan_def w')
  have "reactor_inv (w\<lparr>chans := (chans w)(cn_channel k := None)\<rparr>)"
    using c by (intro reactor_inv_DeleteChannel [OF invMD(2) [OF inv]])
  then have "reactor_inv w'" by (rule reactor_inv_cong [rotated -1]) (simp_all add: w')
  moreover have "pend cx w' M"
    by (rule pend_cx [OF pend_cong [OF invMD(1) [OF inv]]]) (simp_all add: w' cxs)
  moreover have "counts cx w' M"
  proof -
    have "tally cx w' = tally cx w" by (rule tally_cong) (simp_all add: maps w')
    moreover have "acceptors w p = None" "\<not> shared_chan w p"
      using kd p by (auto simp: kinds_def shared_chan_def)
    ultimately show ?thesis
      using cnt t none(3,4) cxs(8) unfolding counts_def by (auto simp: w' shared_def sc cxs(9) dest: cxs(10,11))
  qed
  moreover have "kinds w'" using kd by (auto simp: kinds_def w')
  moreover have "fds cx w'"
    by (rule fds_same [OF invMD(5) [OF inv] w'(12)]) (use none(5) p own in \<open>auto simp: cxs\<close>)
  moreover have "task_ok w' t'" if t': "t' \<in># M" for t'
    using invMD(6) [OF inv t'] none(2) capt_mono [OF t', of p] by (cases t') (auto simp: w' maps sc)
  moreover have "conn_ok cx w' M q kq" if q: "conns w' q = Some kq" for q kq
  proof -
    have q': "conns w q = Some kq" "q \<noteq> p" using q by (auto simp: w' split: if_splits)
    then have "cn_channel kq \<noteq> cn_channel k" using conn_channel_inj [OF inv q'(1) p] by auto
    then show ?thesis by (intro conn_ok_transfer [OF invMD(7) [OF inv q'(1)]]) (simp_all add: w' maps cxs)
  qed
  moreover have "srv_ok w' s r" if s: "servers w s = Some r" for s r
  proof -
    have "q \<noteq> p" if "(nm, q) \<in> set (sv_connections r)" for nm q
      using none(1) s that by (force simp: in_map_def)
    then show ?thesis using invMD(8) [OF inv s] unfolding srv_ok_def by (auto simp: w')
  qed
  moreover have "acc_ok w' a r" if "acceptors w a = Some r" for a r
    using invMD(9) [OF inv that] c(3) by (auto simp: acc_ok_def w' maps split: option.splits)
  moreover have "udp_ok w' u r" if "udps w u = Some r" for u r
    using invMD(10) [OF inv that] c(3) by (auto simp: udp_ok_def w' split: option.splits)
  moreover have "chan_has_owner cx w' x y" if "chans w' x = Some y" for x y
    using invMD(11) [OF inv, of x y] that p
    by (auto simp: chan_has_owner_def w' cxs split: if_splits option.splits owner.splits)
  moreover have "act_ok w' M x" if x: "x \<in> cx_active cx" for x
  proof -
    have "act_ok w M x" using invMD(12) [OF inv] x by (simp add: cxs)
    moreover from this have "fst x \<noteq> cn_channel k" using c unreg invMD(6) [OF inv, of "KeepChannel (fst x)"] by (auto simp: act_ok_def)
    ultimately show ?thesis by (simp add: act_ok_def w')
  qed
  ultimately show ?thesis unfolding invM_def by (simp add: w'(7-9))
qed

lemma invM_drop_ref:
  assumes inv: "invM cx0 w M" and cx: "cx_drops p cx0 cx" and t: "0 < tally cx w M p"
    and w': "w' = w\<lparr>refs := (refs w)(p := refs w p - 1)\<rparr>"
  shows "invM cx w' M"
proof (rule invM_refs [OF inv])
  note cxs = cx_dropsD [OF cx]
  have cnt: "counts cx0 w M" by (rule invMD(3) [OF inv])
  show obj: "same_objects w w'" by (simp add: w' same_objects_def)
  have "pend cx0 w' M" by (rule pend_cong [OF invMD(1) [OF inv]]) (simp_all add: w')
  then show "pend cx w' M" by (rule pend_cx) (simp_all add: cxs)
  have "tally cx w' = tally cx w" by (rule tally_cong) (simp_all add: same_objectsD [OF obj])
  moreover have "shared w' = shared w" by (rule shared_cong [OF obj]) (simp add: w')
  ultimately show "counts cx w' M"
    using cnt t cxs(8) same_objectsD(1,2,7) [OF obj] unfolding counts_def by (auto simp: w' cxs(9) dest: cxs(10,11))
qed (simp_all add: w' cx_dropsD [OF cx])

lemma release_conn_drops:
  assumes "inv cx0 w" and cx: "cx_drops p cx0 cx" and k: "conns w p = Some k"
  shows "wpR (release_conn p w) (inv cx)"
proof -
  obtain M where inv: "invM cx0 w M" using assms(1) by (auto simp: inv_def)
  have refs: "refs w p = tally cx w M p + 1" using invMD(3) [OF inv] cx_dropsD(9) [OF cx] by (simp add: counts_def)
  show ?thesis
  proof (cases "tally cx w M p = 0")
    case True
    note none = no_refs [OF inv cx k True]
    have "invM cx (w\<lparr>refs := (refs w)(p := 0), chans := (chans w)(cn_channel k := None),
        bound := (bound w)(cn_channel k := None), conns := (conns w)(p := None)\<rparr>) M"
      by (rule invM_delete_conn [OF inv cx k True]) simp_all
    then show ?thesis
      using True refs k none(5,6) by (auto simp: release_conn_def Let_def TcpConnection_destroy_def closeSocket_def inv_def)
  next
    case False
    then have "invM cx (w\<lparr>refs := (refs w)(p := refs w p - 1)\<rparr>) M" by (intro invM_drop_ref [OF inv cx]) simp_all
    with False refs show ?thesis by (auto simp: release_conn_def Let_def inv_def)
  qed
qed

lemma release_conn_inv:
  assumes "inv (cx_guard p cx) w" and "cx_wf cx"
  shows "wpR (release_conn p w) (inv cx)"
proof -
  obtain M where "invM (cx_guard p cx) w M" using assms(1) by (auto simp: inv_def)
  then obtain k where "conns w p = Some k" using invMD(3) by (fastforce simp: counts_def)
  then show ?thesis by (rule release_conn_drops [OF assms(1) cx_drops_intro(1) [OF assms(2)]])
qed

end
