(* ===== verification/Lifecycle.thy ===== *)
theory Lifecycle
  imports Ownership
begin

text \<open>
  Every operation of a connection keeps the invariant, when the callbacks of the application do.
\<close>

subsection \<open>Environment\<close>

text \<open>
  What the kernel promises: changes of the interest list succeed, a call of \<open>write\<close> takes no more than it is
  given and sets \<open>errno\<close> when it fails, \<open>readv\<close> fills the buffers, new descriptors are unused, and \<open>accept4\<close> fails only with the errors
  that its caller expects.
\<close>

definition os_ok :: "fd set \<Rightarrow> os \<Rightarrow> bool" where
  "os_ok reserved os \<longleftrightarrow> (\<forall>call. ctl_op call \<noteq> CTL_DEL \<longrightarrow> os_ctl os call)
   \<and> (\<forall>h f d n err. os_write os h f d = (n, err) \<longrightarrow> n \<le> int (length d) \<and> (n < 0 \<longrightarrow> err \<noteq> 0))
   \<and> (\<forall>h f. readv_ok (os_readv os h f))
   \<and> (\<forall>h fam b. os_socket os h fam b \<notin> open_fds h \<union> reserved)
   \<and> (\<forall>h. os_open os h \<notin> open_fds h \<union> reserved)
   \<and> (\<forall>h f. fst (os_accept os h f) \<notin> open_fds h \<union> reserved)
   \<and> (\<forall>h f n err x. os_accept os h f = (n, err, x) \<and> n < 0 \<longrightarrow> err \<in> set accept_transient)"

text \<open>Callbacks that run only while the loop has no active channels left.\<close>

fun late :: "obs \<Rightarrow> bool" where
  "late (CbWriteComplete p) = True"
| "late (CbHighWaterMark p n) = True"
| "late (CbUser n) = True"
| "late _ = False"

text \<open>
  The faults that resources may cause: a vector or the heap is exhausted, or a server has numbered all its
  connections.
\<close>

definition limits :: "fault set" where
  "limits = {LengthError, OutOfMemory, IntOverflow}"

definition env_ok :: "env \<Rightarrow> bool" where
  "env_ok e \<longleftrightarrow> e_close e = server_close True
     \<and> (\<forall>ev cx w. inv cx w \<and> os_ok (cx_reserved cx) (e_os e) \<and> (late ev \<longrightarrow> cx_active cx = {}) \<longrightarrow> wpF limits (e_cb e ev w) (inv cx))"

lemma env_ok_cb:
  "env_ok e \<Longrightarrow> os_ok (cx_reserved cx) (e_os e) \<Longrightarrow> inv cx w \<Longrightarrow> late ev \<longrightarrow> cx_active cx = {} \<Longrightarrow> wpF limits (e_cb e ev w) (inv cx)"
  by (simp add: env_ok_def)

lemma wpX: "wpR m P \<Longrightarrow> wpF limits m P"
  by (rule wpF_faults) auto

lemma ctl_faults_ok: "os_ok Z os \<Longrightarrow> ctl_faults (os_ctl os) = {}"
  by (simp add: os_ok_def ctl_faults_def)

definition cx_close :: "ptr \<Rightarrow> ctx \<Rightarrow> ctx" where
  "cx_close p cx = cx\<lparr>cx_closing := insert p (cx_closing cx)\<rparr>"

lemma cx_close_simps [simp]:
  "cx_closing (cx_close p cx) = insert p (cx_closing cx)" "cx_dropping (cx_close p cx) = cx_dropping cx"
  "cx_active (cx_close p cx) = cx_active cx" "cx_fds (cx_close p cx) = cx_fds cx"
  "cx_reserved (cx_close p cx) = cx_reserved cx" "cx_running (cx_close p cx) = cx_running cx"
  "cx_local (cx_close p cx) = cx_local cx" "cx_guarded (cx_close p cx) = cx_guarded cx"
  "cx_pinned (cx_close p cx) = cx_pinned cx" "cx_guards (cx_close p cx) = cx_guards cx" "tally (cx_close p cx) = tally cx"
  by (simp_all add: cx_close_def fun_eq_iff tally_def)

subsection \<open>Removing a connection from its server\<close>

lemma sorted_wrt_less_distinct: "sorted_wrt (<) (xs :: 'a :: linorder list) \<Longrightarrow> distinct xs"
  by (induction xs) auto

lemma in_map_entry:
  assumes inv: "invM cx w M" and p: "conns w p = Some k" and s: "servers w s = Some r"
    and m: "p \<in> snd ` set (sv_connections r)"
  shows "cn_closeCb k = Some s" "map_of (sv_connections r) (cn_name k) = Some p"
    "p \<notin> snd ` set (map_erase (cn_name k) (sv_connections r))"
proof -
  obtain nm where nm: "(nm, p) \<in> set (sv_connections r)" using m by auto
  have ok: "srv_ok w s r" by (rule invMD(8) [OF inv s])
  have name: "nm' = cn_name k \<and> cn_closeCb k = Some s" if "(nm', p) \<in> set (sv_connections r)" for nm'
    using ok that p unfolding srv_ok_def by fastforce
  then show "cn_closeCb k = Some s" using nm by blast
  have "distinct (map fst (sv_connections r))"
    using ok by (auto simp: srv_ok_def intro: sorted_wrt_less_distinct)
  then show "map_of (sv_connections r) (cn_name k) = Some p" using nm name by (metis map_of_eq_Some_iff)
  show "p \<notin> snd ` set (map_erase (cn_name k) (sv_connections r))"
    using name by (auto simp: map_erase_def)
qed

lemma closing_in_map:
  assumes inv: "invM cx w M" and p: "conns w p = Some k" "p \<in> cx_closing cx" and s: "cn_closeCb k = Some s" "servers w s = Some r"
  shows "p \<in> snd ` set (sv_connections r)" "cn_state k = kDisconnected" "0 \<le> cn_socketFd k" "p \<notin> cx_dropping cx"
    "count M (ConnectDestroyed p) = 0"
proof -
  have life: "conn_life True (p \<in> cx_dropping cx) (in_map w p) (count M (ConnectDestroyed p)) True k"
    using conn_okD [OF inv p(1)] p(2) s by (auto simp: server_alive_def)
  then have "in_map w p" using s by (auto simp: conn_life_def)
  then obtain s' r' where m: "servers w s' = Some r'" "p \<in> snd ` set (sv_connections r')" by (auto simp: in_map_def)
  from in_map_entry(1) [OF inv p(1) this] s m show "p \<in> snd ` set (sv_connections r)" by auto
  show "cn_state k = kDisconnected" "0 \<le> cn_socketFd k" "p \<notin> cx_dropping cx" "count M (ConnectDestroyed p) = 0"
    using life s by (auto simp: conn_life_def)
qed

lemma srv_ok_erase:
  assumes "srv_ok w s r"
  shows "srv_ok w s (r\<lparr>sv_connections := map_erase nm (sv_connections r)\<rparr>)"
proof -
  have sub: "set (map_erase nm (sv_connections r)) \<subseteq> set (sv_connections r)" by (auto simp: map_erase_def)
  moreover have "sorted_wrt (<) (map fst (map_erase nm (sv_connections r)))"
  proof -
    have "map fst (map_erase nm (sv_connections r)) = filter (\<lambda>x. x \<noteq> nm) (map fst (sv_connections r))"
      by (induction "sv_connections r") (simp_all add: map_erase_def filter_map comp_def)
    then show ?thesis using assms by (simp add: srv_ok_def sorted_wrt_filter)
  qed
  ultimately show ?thesis using assms unfolding srv_ok_def by (auto 4 3)
qed


lemma ex_map_upd:
  "(\<exists>x y. (m(a \<mapsto> b)) x = Some y \<and> Q x y) \<longleftrightarrow> Q a b \<or> (\<exists>x y. x \<noteq> a \<and> m x = Some y \<and> Q x y)"
  by (auto split: if_splits)

lemma ex_map_split:
  "m a = Some b \<Longrightarrow> (\<exists>x y. m x = Some y \<and> Q x y) \<longleftrightarrow> Q a b \<or> (\<exists>x y. x \<noteq> a \<and> m x = Some y \<and> Q x y)"
  by (metis option.inject)

lemma in_map_split:
  "servers w s = Some r \<Longrightarrow> in_map w q \<longleftrightarrow> q \<in> snd ` set (sv_connections r)
     \<or> (\<exists>s0 r0. s0 \<noteq> s \<and> servers w s0 = Some r0 \<and> q \<in> snd ` set (sv_connections r0))"
  unfolding in_map_def by (rule ex_map_split)

lemma in_map_upd:
  "servers w' = (servers w)(s \<mapsto> r') \<Longrightarrow> in_map w' q \<longleftrightarrow> q \<in> snd ` set (sv_connections r')
     \<or> (\<exists>s0 r0. s0 \<noteq> s \<and> servers w s0 = Some r0 \<and> q \<in> snd ` set (sv_connections r0))"
  unfolding in_map_def by (simp only: ex_map_upd)

lemma invM_doom:
  assumes inv: "invM (cx_close p cx) w M" and p: "conns w p = Some k" and cx: "p \<notin> cx_closing cx" "cx_wf cx"
    and s: "cn_closeCb k = Some s" "servers w s = Some r"
    and w': "same_objects (w\<lparr>servers := (servers w)(s \<mapsto> r\<lparr>sv_connections := map_erase (cn_name k) (sv_connections r)\<rparr>)\<rparr>) w'"
      "chans w' = chans w" "pl_channels w' = pl_channels w" "ctl_trace w' = ctl_trace w" "calls w' = calls w"
      "refs w' = (refs w)(p := refs w p + 1)"
    and pend: "pend cx w' (add_mset (ConnectDestroyed p) M)"
  shows "invM (cx_guard p cx) w' (add_mset (ConnectDestroyed p) M)"
proof -
  let ?r = "r\<lparr>sv_connections := map_erase (cn_name k) (sv_connections r)\<rparr>"
  note eqs = same_objectsD(1-7) [OF w'(1), simplified] w'(2-6)
  have cl: "p \<in> cx_closing (cx_close p cx)" by simp
  note m = closing_in_map [OF inv p cl s, simplified]
  note entry = in_map_entry [OF inv p s(2) m(1)]
  have map: "in_map w' q \<longleftrightarrow> in_map w q \<and> q \<noteq> p" for q
  proof -
    have "s' = s" if "servers w s' = Some r'" "p \<in> snd ` set (sv_connections r')" for s' r'
      using in_map_entry(1) [OF inv p that] s(1) by simp
    moreover have "q \<in> snd ` set (map_erase (cn_name k) (sv_connections r))" if ne: "q \<noteq> p" and mem: "q \<in> snd ` set (sv_connections r)" for q
    proof -
      obtain nm where nm: "(nm, q) \<in> set (sv_connections r)" using mem by auto
      have "distinct (map fst (sv_connections r))"
        using invMD(8) [OF inv s(2)] by (auto simp: srv_ok_def intro: sorted_wrt_less_distinct)
      then have "nm \<noteq> cn_name k" using nm entry(2) ne by (metis map_of_eq_Some_iff option.inject)
      with nm show ?thesis by (force simp: map_erase_def)
    qed
    moreover have "q \<in> snd ` set (sv_connections r)" if "q \<in> snd ` set (map_erase (cn_name k) (sv_connections r))"
      using that by (auto simp: map_erase_def)
    ultimately show ?thesis
      using entry(3) in_map_split [OF s(2), of q] in_map_upd [OF eqs(3), of q, simplified] by metis
  qed
  have other: "acc_owned w' = acc_owned w" "chan_owned w' = chan_owned w" "own_fd w' = own_fd w"
    "server_alive w' = server_alive w" "server_known w' = server_known w"
  proof -
    show "acc_owned w' = acc_owned w"
      unfolding acc_owned_def eqs ex_map_upd ex_map_split [of "servers w", OF s(2)] by simp
    show "chan_owned w' = chan_owned w" by (auto simp: fun_eq_iff chan_owned_def eqs)
    show "own_fd w' = own_fd w"
    proof
      fix x show "own_fd w' x = own_fd w x" by (cases x) (auto simp: eqs)
    qed
    show "server_alive w' = server_alive w" "server_known w' = server_known w"
      using s(2) by (auto simp: fun_eq_iff server_alive_def server_known_def eqs split: option.splits)
  qed
  have sc: "shared_chan w' = shared_chan w" by (auto simp: fun_eq_iff shared_chan_def eqs)
  have "reactor_inv w'" by (rule reactor_inv_cong [OF _ _ _ invMD(2) [OF inv]]) (simp_all add: eqs)
  moreover have "pend (cx_guard p cx) w' (add_mset (ConnectDestroyed p) M)" by (rule pend_cx [OF pend]) simp_all
  moreover have "counts (cx_guard p cx) w' (add_mset (ConnectDestroyed p) M)"
  proof -
    have "in_map w p" unfolding in_map_split [OF s(2)] using m(1) by blast
    then have "tally cx w' (add_mset (ConnectDestroyed p) M) q = tally (cx_close p cx) w M q" for q
      by (auto simp: tally_def owners_def map other eqs)
    moreover have "shared w' = shared w" by (auto simp: fun_eq_iff shared_def sc eqs)
    ultimately show ?thesis
      using invMD(3) [OF inv] p cx(2) unfolding counts_def by (auto simp: eqs cx_wf_guard shared_def)
  qed
  moreover have "kinds w'" using invMD(4) [OF inv] s(2) by (auto simp: kinds_def eqs)
  moreover have "fds (cx_guard p cx) w'" using invMD(5) [OF inv] by (simp add: fds_def other eqs)
  moreover have "task_ok w' t" if "t \<in># add_mset (ConnectDestroyed p) M" for t
    using that invMD(6) [OF inv, of t] p by (cases t) (auto simp: eqs other sc)
  moreover have "conn_ok (cx_guard p cx) w' (add_mset (ConnectDestroyed p) M) q kq" if q: "conns w q = Some kq" for q kq
  proof (cases "q = p")
    case True
    then have kq: "kq = k" using q p by simp
    have "conn_life False (p \<in> cx_dropping cx) False 1 True k" using m by (simp add: conn_life_def)
    moreover have "server_alive w (cn_closeCb k)" using s by (simp add: server_alive_def)
    ultimately show ?thesis
      using invMD(7) [OF inv q] True kq m(5) cx(1) unfolding conn_ok_def by (simp add: map other eqs)
  next
    case False
    then show ?thesis
      by (intro conn_ok_transfer [OF invMD(7) [OF inv q]]) (auto simp: map other eqs)
  qed
  moreover have "srv_ok w' s' r'" if "servers w' s' = Some r'" for s' r'
  proof -
    have *: "srv_ok w' x y = srv_ok w x y" for x y by (simp add: srv_ok_def eqs)
    show ?thesis
      using that srv_ok_erase [OF invMD(8) [OF inv s(2)]] invMD(8) [OF inv, of s' r'] by (auto simp: * eqs split: if_splits)
  qed
  moreover have "acc_ok w' a ra" if "acceptors w a = Some ra" for a ra
    using invMD(9) [OF inv that] by (simp add: acc_ok_def other eqs cong: option.case_cong)
  moreover have "udp_ok w' u ru" if "udps w u = Some ru" for u ru
    using invMD(10) [OF inv that] by (simp add: udp_ok_def eqs cong: option.case_cong)
  moreover have "chan_has_owner (cx_guard p cx) w' c x" if "chans w c = Some x" for c x
    using invMD(11) [OF inv that] by (simp add: chan_has_owner_def eqs cong: option.case_cong owner.case_cong)
  moreover have "act_ok w' (add_mset (ConnectDestroyed p) M) c" if "c \<in> cx_active cx" for c
    using invMD(12) [OF inv] that by (auto simp: act_ok_def eqs)
  ultimately show ?thesis unfolding invM_def by (simp add: eqs)
qed


lemma invM_unclose:
  assumes inv: "invM (cx_close p cx) w M" and p: "conns w p = Some k" "\<not> server_alive w (cn_closeCb k)"
    and cx: "p \<notin> cx_closing cx" "cx_wf cx"
  shows "invM cx w M"
proof -
  obtain c where c: "chans w (cn_channel k) = Some c" "conn_chan p k c" "conn_stream (calls w) k"
    "conn_life (p \<in> cx_closing (cx_close p cx)) (p \<in> cx_dropping (cx_close p cx)) (in_map w p) (count M (ConnectDestroyed p))
       (server_alive w (cn_closeCb k)) k"
    using conn_okD [OF inv p(1)] by metis
  show ?thesis
  proof (rule invM_conn_step [OF inv p(1) c(1)])
    show "pend cx w M" by (rule pend_cx [OF invMD(1) [OF inv]]) simp_all
    show "counts cx w M" using invMD(3) [OF inv] cx(2) by (auto simp: counts_def)
    show "conn_life (p \<in> cx_closing cx) (p \<in> cx_dropping cx) (in_map w p) (count M (ConnectDestroyed p))
       (server_alive w (cn_closeCb k)) k"
      using c(4) p(2) cx(1) by (auto simp: conn_life_def)
    show "fds cx w" using invMD(5) [OF inv] by (simp add: fds_def)
  qed (use c p invMD(2) [OF inv] in \<open>simp_all add: fun_upd_idem\<close>)
qed

lemma removeConnectionInLoop_inv:
  assumes inv: "invM (cx_close p cx) w M" and p: "conns w p = Some k" and s: "cn_closeCb k = Some s" "servers w s = Some r"
    and cx: "p \<notin> cx_closing cx" "cx_wf cx"
  shows "wpR (removeConnectionInLoop True s p (acquire p w)) (inv (cx_guard p cx))"
proof -
  let ?r = "r\<lparr>sv_connections := map_erase (cn_name k) (sv_connections r)\<rparr>"
  let ?w2 = "(acquire p w)\<lparr>servers := (servers w)(s \<mapsto> ?r)\<rparr>"
  let ?w3 = "?w2\<lparr>refs := (refs ?w2)(p := refs ?w2 p - 1)\<rparr>"
  have m: "p \<in> snd ` set (sv_connections r)" by (rule closing_in_map [OF inv p _ s]) simp
  have lk: "map_of (sv_connections r) (cn_name k) = Some p" by (rule in_map_entry [OF inv p s(2) m])
  have "0 < refs w p" using invMD(3) [OF inv] p by (auto simp: counts_def shared_def)
  then have rel: "release_conn p ?w2 = Inr ?w3" by (simp add: release_conn_def Let_def)
  have "pend cx ?w3 M" by (rule pend_cx [OF pend_cong [OF invMD(1) [OF inv]]]) simp_all
  then have "pend cx (queueTask True (ConnectDestroyed p) ?w3) (add_mset (ConnectDestroyed p) M)" by (rule pend_queue)
  then have "invM (cx_guard p cx) (queueTask True (ConnectDestroyed p) ?w3) (add_mset (ConnectDestroyed p) M)"
    by (intro invM_doom [OF inv p cx s]) (auto simp: same_objects_def fun_eq_iff)
  then show ?thesis
    using p s lk rel by (auto simp: removeConnectionInLoop_def assertInLoopThread_def inv_def)
qed

lemma server_close_inv:
  assumes inv: "invM (cx_close p cx) w M" and p: "conns w p = Some k" and s: "cn_closeCb k = Some s"
    and cx: "p \<notin> cx_closing cx" "cx_wf cx"
  shows "wpR (server_close True s p w) (inv cx)"
proof (cases "servers w s")
  case None
  then have "invM cx w M" using s by (intro invM_unclose [OF inv p _ cx]) (simp add: server_alive_def)
  with None show ?thesis by (auto simp: server_close_def inv_def)
next
  case (Some r)
  from removeConnectionInLoop_inv [OF inv p s Some cx] release_conn_inv [OF _ cx(2)]
  have "wpR (removeConnectionInLoop True s p (acquire p w)) (\<lambda>w1. wpR (release_conn p w1) (inv cx))"
    by (rule wpF_mono)
  with Some show ?thesis by (simp add: server_close_def removeConnection_def run_RemoveConnection_def)
qed

subsection \<open>Closing\<close>

lemma chan_effect_more:
  assumes "chan_effect p c w w' c'"
  shows "same_objects w w'" "calls w' = calls w" "refs w' = refs w" "lp_queue w' = lp_queue w"
    "lp_functors w' = lp_functors w" "chans w' = (chans w)(p \<mapsto> c')" "same_chan c c'" "obs w' = obs w"
  using assms reactor_more_eq [of w' w] by (auto simp: chan_effect_def)

lemma counts_same:
  assumes "counts cx w M" and "same_objects w w'" and "chans w' = (chans w)(c \<mapsto> ch')" "chans w c \<noteq> None" and "refs w' = refs w"
  shows "counts cx w' M"
proof -
  have "tally cx w' = tally cx w" by (rule tally_cong) (simp_all add: same_objectsD [OF assms(2)])
  moreover have "shared w' = shared w"
    using assms(3,4) same_objectsD(1,2,5) [OF assms(2)] by (auto simp: fun_eq_iff shared_def shared_chan_def)
  ultimately show ?thesis
    using assms(1,5) same_objectsD(1,2,7) [OF assms(2)] by (auto simp: counts_def)
qed

text \<open>
  The core of most operations: calls are made on the descriptor of a connection, its record changes and its
  channel is given other events. The reactor specifications of the channel operations deliver the
  premises.
\<close>

fun fd_call :: "fd \<Rightarrow> sys_call \<Rightarrow> bool" where
  "fd_call f (SysBind g ok) = (g = f)"
| "fd_call f (SysListen g ok) = (g = f)"
| "fd_call f (SysRead g n) = (g = f)"
| "fd_call f (SysWrite g d) = (g = f)"
| "fd_call f (SysSendTo g d a n) = (g = f)"
| "fd_call f (SysRecvFrom g n) = (g = f)"
| "fd_call f (SysShutdown g) = (g = f)"
| "fd_call f (SysSetOpt g opt v) = (g = f)"
| "fd_call f (SysGetError g) = (g = f)"
| "fd_call f _ = False"

lemma fd_call_simps:
  assumes "fd_call f c"
  shows "fd_apply c S = S" "fd_valid c S \<longleftrightarrow> f \<in> S" "g \<noteq> f \<Longrightarrow> written_step g c d = d"
  using assms by (cases c; auto)+

definition fd_calls :: "fd \<Rightarrow> history \<Rightarrow> history \<Rightarrow> bool" where
  "fd_calls f h h' \<longleftrightarrow> (\<exists>cs. h' = h @ cs \<and> list_all (fd_call f) cs)"

lemma fd_calls_refl [simp]: "fd_calls f h h"
  by (auto simp: fd_calls_def)

lemma fd_calls_snoc [simp]: "fd_call f c \<Longrightarrow> fd_calls f h (h @ [c])"
  by (auto simp: fd_calls_def)

lemma fd_calls_effect:
  assumes "fd_calls f h h'"
  shows "open_fds h' = open_fds h" "f \<in> open_fds h \<Longrightarrow> fd_wf h {} \<Longrightarrow> fd_wf h' {}" "g \<noteq> f \<Longrightarrow> written g h' = written g h"
proof -
  have *: "open_fds (h @ cs) = open_fds h \<and> (f \<in> open_fds h \<longrightarrow> fd_wf h {} \<longrightarrow> fd_wf (h @ cs) {})
      \<and> (g \<noteq> f \<longrightarrow> written g (h @ cs) = written g h)" if "list_all (fd_call f) cs" for cs
    using that
  proof (induction cs rule: rev_induct)
    case (snoc c cs)
    then have "fd_call f c" by simp
    with snoc show ?case
      unfolding append_assoc [symmetric] by (simp add: fd_wf_snoc fd_call_simps del: append_assoc)
  qed simp
  show "open_fds h' = open_fds h" "f \<in> open_fds h \<Longrightarrow> fd_wf h {} \<Longrightarrow> fd_wf h' {}" "g \<noteq> f \<Longrightarrow> written g h' = written g h"
    using assms * by (auto simp: fd_calls_def)
qed

lemma fds_calls:
  assumes "fds cx w" and "fd_calls f (calls w) (calls w')" and "f \<in> open_fds (calls w)"
    and "own_fd w' = own_fd w" "cx_fds cx' = cx_fds cx" "cx_reserved cx' = cx_reserved cx"
  shows "fds cx' w'"
  using assms fd_calls_effect [OF assms(2)] by (simp add: fds_def)

lemma conn_fd_open:
  assumes "invM cx w M" and "conns w p = Some k" and "0 \<le> cn_socketFd k"
  shows "cn_socketFd k \<in> open_fds (calls w)"
  using own_fd_open(1) [OF invMD(5) [OF assms(1)], of "SockOf p"] assms(2,3) by simp

lemma invM_conn_events:
  assumes inv: "invM cx w M" and p: "conns w p = Some k" and c: "chans w (cn_channel k) = Some c"
    and k': "cn_channel k' = cn_channel k" "cn_name k' = cn_name k" "cn_socketFd k' = cn_socketFd k"
      "cn_closeCb k' = cn_closeCb k \<or> cn_closeCb k' = None \<and> \<not> in_map w p"
      "conn_stream h k'" "cn_state k' \<noteq> kConnecting" "buffer_inv (cn_input k')" "buffer_inv (cn_output k')"
    and cx': "cx' = cx \<or> cx' = cx_close p cx \<and> p \<in> cx_guarded cx"
    and life: "conn_life (p \<in> cx_closing cx') (p \<in> cx_dropping cx) (in_map w p) (count M (ConnectDestroyed p))
         (server_alive w (cn_closeCb k')) k'"
    and fd: "0 \<le> cn_socketFd k \<or> h = calls w \<and> c' = c \<and> cn_state k' = cn_state k"
    and h: "fd_calls (cn_socketFd k) (calls w) h"
    and w1: "w1 = w\<lparr>conns := (conns w)(p \<mapsto> k'), calls := h\<rparr>"
    and eff: "reactor_inv w2" "chan_effect (cn_channel k) c w1 w2 c'" "ch_events c' = conn_events k'"
      "ch_index c \<noteq> -1 \<longrightarrow> ch_index c' \<noteq> -1"
  shows "invM cx' w2 M"
proof -
  note more = chan_effect_more [OF eff(2)]
  have w2: "conns w2 = (conns w)(p \<mapsto> k')" "bound w2 = bound w" "servers w2 = servers w" "acceptors w2 = acceptors w"
    "udps w2 = udps w" "expired w2 = expired w" "held w2 = held w" "calls w2 = h" "refs w2 = refs w"
    "lp_queue w2 = lp_queue w" "lp_functors w2 = lp_functors w" "chans w2 = (chans w)(cn_channel k \<mapsto> c')"
    using more same_objectsD(1-7) [OF more(1)] by (simp_all add: w1)
  have cc: "conn_chan p k c" using conn_okD [OF inv p] c by auto
  show ?thesis
  proof (rule invM_conn_step [OF inv p c w2(1,12,2-7) eff(1) k'(1,2,4)])
    show "conn_chan p k' c'"
      using cc more(7) eff(3) k' fd by (auto simp: conn_chan_def same_chan_def)
    have "own_fd w2 = own_fd w"
    proof
      fix x show "own_fd w2 x = own_fd w x" by (cases x) (auto simp: w2 p k')
    qed
    then show "fds cx' w2"
      using cx' h fd conn_fd_open [OF inv p] invMD(5) [OF inv] fds_calls [OF invMD(5) [OF inv], of "cn_socketFd k" w2 cx']
      by (auto simp: w2 fds_def)
    show "pend cx' w2 M" by (rule pend_cx [OF pend_cong [OF invMD(1) [OF inv]]]) (use cx' in \<open>auto simp: w2\<close>)
    have "owners w2 = owners w"
      by (auto simp: fun_eq_iff owners_def in_map_def acc_owned_def chan_owned_def w2)
    then have "tally cx w2 = tally cx w" by (rule tally_cong) (simp add: w2)
    moreover have "tally cx' w2 = tally cx w2" "cx_guarded cx' = cx_guarded cx" "cx_pinned cx' = cx_pinned cx" using cx' by auto
    moreover have "cx_wf cx'" using cx' invMD(3) [OF inv] by (auto simp: counts_def cx_wf_def)
    moreover have "shared w2 = shared w"
      using p c by (auto simp: fun_eq_iff shared_def shared_chan_def w2)
    ultimately show "counts cx' w2 M" using invMD(3) [OF inv] p by (auto simp: counts_def w2)
    show "conn_life (p \<in> cx_closing cx') (p \<in> cx_dropping cx') (in_map w p) (count M (ConnectDestroyed p))
         (server_alive w (cn_closeCb k')) k'"
      using life cx' by auto
    show "written f (calls w2) = written f (calls w)" if "f \<noteq> cn_socketFd k" for f
      using fd_calls_effect(3) [OF h that] by (simp add: w2)
  qed (use more(7) eff k' cx' in \<open>auto simp: same_chan_def w2\<close>)
qed

lemma chan_effect_refl: "chans w c = Some x \<Longrightarrow> chan_effect c x w w x"
  by (simp add: chan_effect_def same_chan_def fun_upd_idem)

lemma life_same:
  assumes "conn_life x t m d a k" and k': "cn_state k' = kDisconnected \<longleftrightarrow> cn_state k = kDisconnected"
      "cn_socketFd k' = cn_socketFd k" "cn_closeCb k' = cn_closeCb k"
  shows "conn_life x t m d a k'"
  using assms(1) unfolding conn_life_def k' .

lemma invM_conn_set:
  assumes inv: "invM cx w M" and p: "conns w p = Some k"
    and k': "cn_channel k' = cn_channel k" "cn_name k' = cn_name k" "cn_socketFd k' = cn_socketFd k" "cn_closeCb k' = cn_closeCb k"
      "conn_stream h k'" "cn_state k' \<noteq> kConnecting" "buffer_inv (cn_input k')" "buffer_inv (cn_output k')"
      "cn_state k' = kDisconnected \<longleftrightarrow> cn_state k = kDisconnected" "conn_events k' = conn_events k"
    and h: "0 \<le> cn_socketFd k \<or> h = calls w \<and> cn_state k' = cn_state k" "fd_calls (cn_socketFd k) (calls w) h"
    and w': "w' = w\<lparr>conns := (conns w)(p \<mapsto> k'), calls := h\<rparr>"
  shows "invM cx w' M"
proof -
  obtain c where c: "chans w (cn_channel k) = Some c" "conn_chan p k c"
    "conn_life (p \<in> cx_closing cx) (p \<in> cx_dropping cx) (in_map w p) (count M (ConnectDestroyed p))
       (server_alive w (cn_closeCb k)) k"
    using conn_okD [OF inv p] by metis
  have "reactor_inv w'" by (rule reactor_inv_cong [OF _ _ _ invMD(2) [OF inv]]) (simp_all add: w')
  moreover have "chan_effect (cn_channel k) c w' w' c" using c(1) by (intro chan_effect_refl) (simp add: w')
  ultimately show ?thesis
    using k' h c(2) life_same [OF c(3) k'(9,3,4)]
    by (intro invM_conn_events [OF inv p c(1) k'(1-3) _ k'(5-8) _ _ _ h(2) w']) (auto simp: conn_chan_def)
qed

lemma acquire_maps [simp]:
  "in_map (acquire p w) = in_map w" "server_alive (acquire p w) = server_alive w"
  "server_known (acquire p w) = server_known w" "own_fd (acquire p w) = own_fd w"
  by (simp_all add: same_objectsD [OF same_objects_acquire])

lemma queueTask_maps [simp]:
  "in_map (queueTask il t w) = in_map w" "server_alive (queueTask il t w) = server_alive w"
  "server_known (queueTask il t w) = server_known w" "own_fd (queueTask il t w) = own_fd w"
  by (simp_all add: same_objectsD [OF same_objects_queueTask])

lemma chan_effect_acquire:
  "chan_effect c x w1 w2 y \<Longrightarrow> chan_effect c x (acquire p w1) (acquire p w2) y"
  by (cases w1, cases w2) (simp add: chan_effect_def acquire_def)

lemma fd_free_cong: "chans w' = chans w \<Longrightarrow> pl_channels w' = pl_channels w \<Longrightarrow> fd_free c w' = fd_free c w"
  by (simp add: fd_free_def cong: option.case_cong)

lemma setState_Some: "conns w p = Some k \<Longrightarrow> setState p s w = Inr (w\<lparr>conns := (conns w)(p \<mapsto> k\<lparr>cn_state := s\<rparr>)\<rparr>)"
  by (simp add: setState_def upd_conn_def)

lemma conn_stream_close: "conn_stream h k \<Longrightarrow> cn_state k' = kDisconnected \<Longrightarrow> cn_socketFd k' = cn_socketFd k \<Longrightarrow>
    cn_sent k' = cn_sent k \<Longrightarrow> conn_stream h k'"
  by (auto simp: conn_stream_def split: if_splits)

lemma life_close:
  assumes "conn_life x t m d a k" and "cn_state k \<noteq> kDisconnected" and "0 \<le> cn_socketFd k"
    and k': "cn_state k' = kDisconnected" "cn_socketFd k' = cn_socketFd k" "cn_closeCb k' = cn_closeCb k"
  shows "conn_life True t m d a k'"
  using assms(1-3) unfolding conn_life_def k' by blast

lemma life_closing: "conn_life x t m d a k \<Longrightarrow> cn_state k \<noteq> kDisconnected \<Longrightarrow> \<not> x \<and> d = 0"
  unfolding conn_life_def by blast

text \<open>
  The first steps of \<open>handleClose\<close>, up to the callbacks. It may be called in the middle of \<open>sendInLoop\<close>, with a
  write that failed and data that is recorded but not sent.
\<close>

definition in_send :: "world \<Rightarrow> ptr \<Rightarrow> conn \<Rightarrow> byte list \<Rightarrow> history \<Rightarrow> world \<Rightarrow> bool" where
  "in_send w p k ss h w1 \<longleftrightarrow> conns w p = Some k \<and> w1 = w\<lparr>conns := (conns w)(p \<mapsto> k\<lparr>cn_sent := ss\<rparr>), calls := h\<rparr>
     \<and> fd_calls (cn_socketFd k) (calls w) h \<and> prefix (written (cn_socketFd k) h) ss"

lemma close_step:
  assumes inv: "invM cx w M" and g: "p \<in> cx_guarded cx" and p: "conns w p = Some k" "cn_state k \<noteq> kDisconnected"
    and h: "fd_calls (cn_socketFd k) (calls w) h" "prefix (written (cn_socketFd k) h) ss"
    and w1: "w1 = w\<lparr>conns := (conns w)(p \<mapsto> k\<lparr>cn_sent := ss, cn_state := kDisconnected\<rparr>), calls := h\<rparr>"
    and c: "chans w (cn_channel k) = Some c" and eff: "reactor_inv w2" "chan_effect (cn_channel k) c w1 w2 c'" "ch_events c' = kNoneEvent"
      "ch_index c \<noteq> -1 \<longrightarrow> ch_index c' \<noteq> -1"
  shows "invM (cx_close p cx) w2 M"
proof -
  let ?k = "k\<lparr>cn_sent := ss, cn_state := kDisconnected\<rparr>"
  obtain c0 where c0: "chans w (cn_channel k) = Some c0" "conn_chan p k c0"
    "conn_life (p \<in> cx_closing cx) (p \<in> cx_dropping cx) (in_map w p) (count M (ConnectDestroyed p))
       (server_alive w (cn_closeCb k)) k"
    using conn_okD [OF inv p(1)] by metis
  have fd: "0 \<le> cn_socketFd k" using c0(2) p(2) by (force simp: conn_chan_def)
  show ?thesis
  proof (rule invM_conn_events [OF inv p(1) c _ _ _ _ _ _ _ _ _ _ _ h(1) w1 eff(1,2)])
    show "conn_life (p \<in> cx_closing (cx_close p cx)) (p \<in> cx_dropping cx) (in_map w p) (count M (ConnectDestroyed p))
        (server_alive w (cn_closeCb ?k)) ?k"
      using life_close [OF c0(3) p(2) fd, of ?k] by simp
  qed (use c c0 eff fd h g in \<open>auto simp: conn_chan_def conn_events_def conn_stream_def\<close>)
qed

lemma close_begin:
  assumes inv: "invM cx w M" and p: "in_send w p k ss h w0" "cn_state k \<noteq> kDisconnected" and os: "os_ok (cx_reserved cx) os"
  shows "wpR (bindR (setState p kDisconnected w0) (disableAll (os_ctl os) True (cn_channel k)))
    (\<lambda>w2. (p \<in> cx_guarded cx \<longrightarrow> invM (cx_close p cx) w2 M) \<and> invM (cx_close p (cx_guard p cx)) (acquire p w2) M)"
proof -
  have pk: "conns w p = Some k" and w0: "w0 = w\<lparr>conns := (conns w)(p \<mapsto> k\<lparr>cn_sent := ss\<rparr>), calls := h\<rparr>"
    and h: "fd_calls (cn_socketFd k) (calls w) h" "prefix (written (cn_socketFd k) h) ss"
    using p(1) by (auto simp: in_send_def)
  obtain c where c: "chans w (cn_channel k) = Some c" "conn_chan p k c" using conn_okD [OF inv pk] by metis
  let ?k = "k\<lparr>cn_sent := ss, cn_state := kDisconnected\<rparr>"
  let ?w1 = "w\<lparr>conns := (conns w)(p \<mapsto> ?k), calls := h\<rparr>"
  have fd: "0 \<le> cn_socketFd k" using c(2) p(2) by (force simp: conn_chan_def)
  have "reactor_inv ?w1" by (rule reactor_inv_cong [OF _ _ _ invMD(2) [OF inv]]) simp_all
  moreover have "fd_free (cn_channel k) ?w1" using conn_fd_free [OF inv pk fd] fd_free_cong [where w' = ?w1 and w = w] by simp
  ultimately have eff: "wpR (disableAll (os_ctl os) True (cn_channel k) ?w1) (\<lambda>w'. reactor_inv w' \<and>
      (\<exists>c'. chan_effect (cn_channel k) c ?w1 w' c' \<and> ch_events c' = kNoneEvent \<and> (ch_index c \<noteq> -1 \<longrightarrow> ch_index c' \<noteq> -1)))"
    using disableAll_spec [of ?w1 "cn_channel k" c "os_ctl os"] c(1) ctl_faults_ok [OF os] by simp
  have st: "setState p kDisconnected w0 = Inr ?w1"
    by (simp add: w0 setState_def upd_conn_def)
  have "(p \<in> cx_guarded cx \<longrightarrow> invM (cx_close p cx) w2 M) \<and> invM (cx_close p (cx_guard p cx)) (acquire p w2) M"
    if w2: "reactor_inv w2 \<and> (\<exists>c'. chan_effect (cn_channel k) c ?w1 w2 c' \<and> ch_events c' = kNoneEvent
      \<and> (ch_index c \<noteq> -1 \<longrightarrow> ch_index c' \<noteq> -1))" for w2
  proof -
    obtain c' where eff: "chan_effect (cn_channel k) c ?w1 w2 c'" "ch_events c' = kNoneEvent"
      "ch_index c \<noteq> -1 \<longrightarrow> ch_index c' \<noteq> -1" using w2 by blast
    have inv1: "invM (cx_guard p cx) (acquire p w) M" by (rule invM_acquire [OF inv]) (simp add: pk)
    have "invM (cx_close p (cx_guard p cx)) (acquire p w2) M"
    proof (rule close_step [OF inv1])
      show "reactor_inv (acquire p w2)" by (rule reactor_inv_cong [of _ w2]) (use w2 in simp_all)
      show "chan_effect (cn_channel k) c (acquire p ?w1) (acquire p w2) c'" by (rule chan_effect_acquire [OF eff(1)])
    qed (use c pk eff p(2) h in \<open>auto simp: acquire_def\<close>)
    moreover have "p \<in> cx_guarded cx \<longrightarrow> invM (cx_close p cx) w2 M"
      using close_step [OF inv _ pk p(2) h refl c(1) _ eff] w2 by blast
    ultimately show ?thesis by blast
  qed
  then show ?thesis unfolding st bindR_simps by (rule wpF_mono [OF eff])
qed

lemma handleClose_from:
  assumes inv: "inv cx w" and p: "in_send w p k ss h w0" "cn_state k = kConnected \<or> cn_state k = kDisconnecting"
    and env: "env_ok e" and os: "os_ok (cx_reserved cx) (e_os e)"
  shows "wpF limits (handleClose e True p w0) (inv cx)"
proof -
  have pk: "conns w p = Some k" "conns w0 p = Some (k\<lparr>cn_sent := ss\<rparr>)" using p(1) by (auto simp: in_send_def)
  obtain M where invM: "invM cx w M" using inv by (auto simp: inv_def)
  have wf: "cx_wf cx" using invMD(3) [OF invM] by (simp add: counts_def)
  have st: "cn_state k \<noteq> kDisconnected" using p(2) by auto
  have new: "p \<notin> cx_closing cx" using conn_okD [OF invM pk(1)] life_closing [OF _ st] by metis
  let ?cx = "cx_guard p cx"
  have cb: "wpF limits (if cn_connectionCb k then e_cb e (CbConnection p kDisconnected) w3 else Inr w3) (inv (cx_close p ?cx))"
    if "inv (cx_close p ?cx) w3" for w3
    using env os that by (auto simp: env_ok_def)
  have fin: "wpF limits (derefR (conns w4 p) (\<lambda>k'. case cn_closeCb k' of None \<Rightarrow> Inr w4 | Some s \<Rightarrow> e_close e s p w4))
      (\<lambda>w5. wpF limits (release_conn p w5) (inv cx))" if w4: "inv (cx_close p ?cx) w4" for w4
  proof -
    obtain M' where inv4: "invM (cx_close p ?cx) w4 M'" using w4 by (auto simp: inv_def)
    then obtain k' where k': "conns w4 p = Some k'" using invMD(3) by (fastforce simp: counts_def)
    have rel: "wpF limits (release_conn p w5) (inv cx)" if "inv ?cx w5" for w5
      using wpF_faults [OF release_conn_inv [OF that wf]] by simp
    have wf': "p \<notin> cx_closing ?cx" "cx_wf ?cx" using new wf by (simp_all add: cx_wf_guard)
    show ?thesis
    proof (cases "cn_closeCb k'")
      case None
      then have "invM ?cx w4 M'" by (intro invM_unclose [OF inv4 k' _ wf']) (simp add: server_alive_def)
      then show ?thesis using None k' rel by (auto simp: inv_def)
    next
      case (Some s)
      have "wpF limits (server_close True s p w4) (inv ?cx)"
        using wpF_faults [OF server_close_inv [OF inv4 k' Some wf']] by simp
      then show ?thesis using Some k' env rel by (auto simp: env_ok_def elim: wpF_mono)
    qed
  qed
  have "wpF limits (bindR (setState p kDisconnected w0) (disableAll (os_ctl (e_os e)) True (cn_channel k)))
     (\<lambda>w2. inv (cx_close p ?cx) (acquire p w2))"
    by (rule wpF_weaken [OF close_begin [OF invM p(1) st os]]) (auto simp: inv_def)
  then have "wpF limits (bindR (setState p kDisconnected w0) (disableAll (os_ctl (e_os e)) True (cn_channel k)))
     (\<lambda>w2. wpF limits (if cn_connectionCb k then e_cb e (CbConnection p kDisconnected) (acquire p w2) else Inr (acquire p w2))
       (\<lambda>w4. wpF limits (derefR (conns w4 p) (\<lambda>k'. case cn_closeCb k' of None \<Rightarrow> Inr w4 | Some s \<Rightarrow> e_close e s p w4))
         (\<lambda>w5. wpF limits (release_conn p w5) (inv cx))))"
    by (rule wpF_mono) (rule wpF_mono [OF cb], assumption, rule fin)
  then show ?thesis
    using p(2) pk by (simp add: handleClose_def assertInLoopThread_def Let_def)
qed

lemma in_send_refl: "conns w p = Some k \<Longrightarrow> conn_stream (calls w) k \<Longrightarrow> 0 \<le> cn_socketFd k \<Longrightarrow> in_send w p k (cn_sent k) (calls w) w"
  by (auto simp: in_send_def conn_stream_def fun_upd_idem split: if_splits)

lemma conn_open: "conn_chan p k c \<Longrightarrow> cn_state k \<noteq> kDisconnected \<Longrightarrow>
    0 \<le> cn_socketFd k \<and> ch_fd c = cn_socketFd k \<and> (cn_state k = kConnected \<or> cn_state k = kDisconnecting)"
  by (cases "cn_state k") (force simp: conn_chan_def)+

lemma handleClose_inv:
  assumes inv: "inv cx w" and p: "conns w p = Some k" "cn_state k \<noteq> kDisconnected"
    and env: "env_ok e" and os: "os_ok (cx_reserved cx) (e_os e)"
  shows "wpF limits (handleClose e True p w) (inv cx)"
proof -
  obtain M c where "invM cx w M" "conn_chan p k c" "conn_stream (calls w) k"
    using inv conn_okD [OF _ p(1)] unfolding inv_def by metis
  with conn_open p show ?thesis by (intro handleClose_from [OF inv in_send_refl [OF p(1)] _ env os]) blast+
qed

end
