(* ===== verification/Streams.thy ===== *)
theory Streams
  imports Lifecycle
begin

text \<open>
  The handlers and members of a connection keep the invariant: what was given to \<open>send\<close> is what was
  written followed by what waits in the output buffer, and the channel waits for writability exactly
  while something does.
\<close>

subsection \<open>Preliminaries\<close>

lemma inv_connE:
  assumes "inv cx w" and "conns w p = Some k"
  obtains M c where "invM cx w M" "chans w (cn_channel k) = Some c" "conn_chan p k c" "conn_stream (calls w) k"
    "conn_life (p \<in> cx_closing cx) (p \<in> cx_dropping cx) (in_map w p) (count M (ConnectDestroyed p))
       (server_alive w (cn_closeCb k)) k"
  using assms conn_okD [OF _ assms(2)] unfolding inv_def by metis

lemma calls_conns [simp]: "(w :: world)\<lparr>calls := h, conns := c\<rparr> = w\<lparr>conns := c, calls := h\<rparr>"
  by simp

lemma calls_id [simp]: "(w :: world)\<lparr>conns := c, calls := calls w\<rparr> = w\<lparr>conns := c\<rparr>"
  by simp

lemma queueTask_upd [simp]:
  "queueTask il t (w\<lparr>conns := cs\<rparr>) = (queueTask il t w)\<lparr>conns := cs\<rparr>"
  "queueTask il t (w\<lparr>calls := h\<rparr>) = (queueTask il t w)\<lparr>calls := h\<rparr>"
  by (simp_all add: queueTask_def fold_acquire queueInLoop_def wakeup_def Let_def split: option.splits prod.splits)

lemma conn_writing:
  assumes "conn_chan p k c" and "cn_state k \<noteq> kDisconnected"
  shows "isWriting c \<longleftrightarrow> readableBytes (cn_output k) \<noteq> 0" "ch_events c OR kWriteEvent = kReadEvent OR kWriteEvent"
    "ch_events c AND NOT kWriteEvent = kReadEvent"
  using assms by (auto simp: conn_chan_def conn_events_def isWriting_def event_defs)

text \<open>A call on the descriptor of a connection that writes nothing.\<close>

lemma inv_conn_call:
  assumes inv: "inv cx w" and p: "conns w p = Some k" "0 \<le> cn_socketFd k"
    and c: "fd_call (cn_socketFd k) c" "\<And>d. written_step (cn_socketFd k) c d = d"
  shows "inv cx (log_call c w)"
proof -
  obtain M x where *: "invM cx w M" "conn_chan p k x" "conn_stream (calls w) k" by (rule inv_connE [OF inv p(1)])
  have "invM cx (log_call c w) M"
    by (rule invM_conn_set [OF *(1) p(1), of k "calls w @ [c]"])
      (use * p c in \<open>auto simp: log_call_def conn_chan_def conn_stream_def fun_upd_idem\<close>)
  then show ?thesis by (auto simp: inv_def)
qed

subsection \<open>Errors\<close>

lemma handleError_err_from:
  assumes inv: "inv cx w" and p: "in_send w p k ss h w0" "cn_state k \<noteq> kDisconnected" and err: "err \<notin> {0, EAGAIN, EWOULDBLOCK, EINTR}"
    and env: "env_ok e" and os: "os_ok (cx_reserved cx) (e_os e)"
  shows "wpF limits (handleError_err e True err p w0) (inv cx)"
proof -
  have k: "conns w p = Some k" "conns w0 p = Some (k\<lparr>cn_sent := ss\<rparr>)" using p(1) by (auto simp: in_send_def)
  obtain c where "conn_chan p k c" using inv_connE [OF inv k(1)] by metis
  from conn_open [OF this p(2)] handleClose_from [OF inv p(1) _ env os] k(2) err
  show ?thesis by (simp add: handleError_err_def)
qed

lemma handleError_err_inv:
  assumes inv: "inv cx w" and p: "conns w p = Some k" and env: "env_ok e" and os: "os_ok (cx_reserved cx) (e_os e)"
  shows "wpF limits (handleError_err e True err p w) (inv cx)"
  using assms handleClose_inv [OF inv p _ env os] by (auto simp: handleError_err_def)

lemma conn_handleError_inv:
  assumes inv: "inv cx w" and p: "conns w p = Some k" "0 \<le> cn_socketFd k" and env: "env_ok e" and os: "os_ok (cx_reserved cx) (e_os e)"
  shows "wpF limits (conn_handleError e True p w) (inv cx)"
proof -
  obtain M c where c: "chans w (cn_channel k) = Some c" "conn_chan p k c" by (rule inv_connE [OF inv p(1)])
  have "ch_fd c = cn_socketFd k" using c(2) p(2) by (simp add: conn_chan_def)
  then have "inv cx (log_call (SysGetError (ch_fd c)) w)" by (intro inv_conn_call [OF inv p]) simp_all
  with c(1) p(1) handleError_err_inv [OF this _ env os] show ?thesis
    by (simp add: conn_handleError_def getSocketError_def log_call_def)
qed

subsection \<open>Reading\<close>

lemma conn_handleRead_inv:
  assumes inv: "inv cx w" and p: "conns w p = Some k" and env: "env_ok e" and os: "os_ok (cx_reserved cx) (e_os e)"
  shows "wpF limits (conn_handleRead e True p w) (inv cx)"
proof (cases "cn_state k = kDisconnected")
  case True
  then show ?thesis using inv p by (simp add: conn_handleRead_def assertInLoopThread_def)
next
  case False
  obtain M c where c: "invM cx w M" "chans w (cn_channel k) = Some c" "conn_chan p k c" "conn_stream (calls w) k"
    by (rule inv_connE [OF inv p])
  note op = conn_open [OF c(3) False]
  let ?w1 = "\<lambda>n b. w\<lparr>conns := (conns w)(p \<mapsto> k\<lparr>cn_input := b\<rparr>), calls := calls w @ [SysRead (ch_fd c) n]\<rparr>"
  have step: "inv cx (?w1 n b)" if "buffer_inv b" for n b
    unfolding inv_def
    by (intro exI, rule invM_conn_set [OF c(1) p, of "k\<lparr>cn_input := b\<rparr>"])
      (use that c op in \<open>auto simp: conn_chan_def conn_events_def conn_stream_def\<close>)
  have rd: "wpF limits (readFd (os_readv (e_os e) (calls w) (ch_fd c)) (cn_input k)) (\<lambda>(n, saved, b). buffer_inv b)"
    using c(3) os by (intro wpF_weaken [OF readFd_total]) (auto simp: limits_def conn_chan_def os_ok_def)
  have rest: "wpF limits (if 0 < n then (if cn_messageCb k then e_cb e (CbMessage p) (?w1 n b) else Inr (?w1 n b))
         else if n = 0 then handleClose e True p (?w1 n b)
         else handleError_err e True err p (?w1 n b)) (inv cx)" if b: "buffer_inv b" for n b err
  proof -
    note st = step [OF b, of n]
    have k1: "conns (?w1 n b) p = Some (k\<lparr>cn_input := b\<rparr>)" by simp
    show ?thesis
      using env_ok_cb [OF env os st, of "CbMessage p"] st handleClose_inv [OF st k1 _ env os]
        handleError_err_inv [OF st k1 env os] False by auto
  qed
  have "wpF limits (readFd (os_readv (e_os e) (calls w) (ch_fd c)) (cn_input k)) (\<lambda>(n, saved, b).
      wpF limits (if 0 < n then (if cn_messageCb k then e_cb e (CbMessage p) (?w1 n b) else Inr (?w1 n b))
         else if n = 0 then handleClose e True p (?w1 n b)
         else handleError_err e True (case saved of None \<Rightarrow> 0 | Some err \<Rightarrow> err) p (?w1 n b)) (inv cx))"
    by (rule wpF_mono [OF rd]) (clarify, rule rest)
  then show ?thesis
    using p False c(2) by (simp add: conn_handleRead_def assertInLoopThread_def upd_conn_def log_call_def case_prod_beta' split del: if_split)
qed

subsection \<open>Shutting down\<close>

lemma shutdownInLoop_inv:
  assumes inv: "inv cx w" and p: "conns w p = Some k"
  shows "wpR (shutdownInLoop True p w) (inv cx)"
proof -
  obtain M c where c: "chans w (cn_channel k) = Some c" by (rule inv_connE [OF inv p])
  have "inv cx (log_call (SysShutdown (cn_socketFd k)) w)" if "0 \<le> cn_socketFd k"
    using that by (intro inv_conn_call [OF inv p]) simp_all
  with c p inv show ?thesis by (simp add: shutdownInLoop_def assertInLoopThread_def shutdownWrite_def)
qed

lemma setState_shutdown_inv:
  assumes inv: "inv cx w" and p: "conns w p = Some k" "cn_state k = kConnected"
  shows "wpR (bindR (setState p kDisconnecting w) (shutdownInLoop True p)) (inv cx)"
proof -
  obtain M c where c: "invM cx w M" "conn_chan p k c" "conn_stream (calls w) k" by (rule inv_connE [OF inv p(1)])
  let ?k = "k\<lparr>cn_state := kDisconnecting\<rparr>"
  have "invM cx (w\<lparr>conns := (conns w)(p \<mapsto> ?k)\<rparr>) M"
    by (rule invM_conn_set [OF c(1) p(1), of ?k "calls w"])
      (use c p conn_open [OF c(2)] in \<open>auto simp: conn_chan_def conn_events_def conn_stream_def\<close>)
  then have "inv cx (w\<lparr>conns := (conns w)(p \<mapsto> ?k)\<rparr>)" by (auto simp: inv_def)
  from shutdownInLoop_inv [OF this] show ?thesis by (simp add: setState_Some [OF p(1)])
qed

lemma conn_shutdown_inv:
  assumes inv: "inv cx w" and p: "conns w p = Some k"
  shows "wpR (conn_shutdown il p w) (inv cx)"
  using setState_shutdown_inv [OF inv p] inv_queue [OF inv, of "ShutdownTask p" False] inv p
  by (auto simp: conn_shutdown_def)

lemma run_ShutdownTask_inv:
  assumes inv: "inv cx w" and p: "conns w p = Some k"
  shows "wpR (run_ShutdownTask True p w) (inv cx)"
  using setState_shutdown_inv [OF inv p] inv p by (auto simp: run_ShutdownTask_def)

subsection \<open>Writing\<close>

text \<open>The record of an open connection changes and its channel gets the events that belong to it.\<close>

lemma conn_set_events:
  assumes inv: "invM cx w M" and p: "conns w p = Some k" "cn_state k \<noteq> kDisconnected"
    and k': "k' = k\<lparr>cn_output := b, cn_sent := ss\<rparr>" "buffer_inv b" "conn_stream h k'"
    and h: "fd_calls (cn_socketFd k) (calls w) h" and w1: "w1 = w\<lparr>conns := (conns w)(p \<mapsto> k'), calls := h\<rparr>"
    and os: "os_ok (cx_reserved cx) os" and c: "chans w (cn_channel k) = Some c"
  shows "readableBytes b = 0 \<Longrightarrow> wpR (disableWriting (os_ctl os) True (cn_channel k) w1) (\<lambda>w2. invM cx w2 M \<and> conns w2 = conns w1)"
    and "readableBytes b \<noteq> 0 \<Longrightarrow>
      wpR (if \<not> isWriting c then enableWriting (os_ctl os) True (cn_channel k) w1 else Inr w1) (inv cx)"
proof -
  obtain c' where c': "chans w (cn_channel k) = Some c'" "conn_chan p k c'"
    "conn_life (p \<in> cx_closing cx) (p \<in> cx_dropping cx) (in_map w p) (count M (ConnectDestroyed p))
       (server_alive w (cn_closeCb k)) k"
    using conn_okD [OF inv p(1)] by metis
  have cc: "conn_chan p k c" using c c' by simp
  note op = conn_open [OF cc p(2)] and wr = conn_writing [OF cc p(2)]
  have r: "reactor_inv w1" by (rule reactor_inv_cong [OF _ _ _ invMD(2) [OF inv]]) (simp_all add: w1)
  have free: "fd_free (cn_channel k) w1" using conn_fd_free [OF inv p(1)] op fd_free_cong [where w' = w1 and w = w] by (simp add: w1)
  have cw1: "chans w1 (cn_channel k) = Some c" using c by (simp add: w1)
  have fin: "invM cx w2 M" if "reactor_inv w2" "chan_effect (cn_channel k) c w1 w2 c2" "ch_events c2 = conn_events k'"
      "ch_index c \<noteq> -1 \<longrightarrow> ch_index c2 \<noteq> -1" for w2 c2
    by (rule invM_conn_events [OF inv p(1) c _ _ _ _ k'(3) _ _ _ _ _ _ h w1 that])
      (use k' op cc life_same [OF c'(3), of k'] in \<open>auto simp: conn_chan_def\<close>)
  note spec = disableWriting_spec [OF r cw1 free, of "os_ctl os"] enableWriting_spec [OF r cw1 free, of "os_ctl os"]
  note spec' = spec [unfolded ctl_faults_ok [OF os] wr(2,3)]
  show "wpR (disableWriting (os_ctl os) True (cn_channel k) w1) (\<lambda>w2. invM cx w2 M \<and> conns w2 = conns w1)" if "readableBytes b = 0"
    by (rule wpF_mono [OF spec'(1)])
      (use that fin p(2) in \<open>auto simp: k' conn_events_def intro: same_objectsD(1) [OF chan_effect_more(1)]\<close>)
  show "wpR (if \<not> isWriting c then enableWriting (os_ctl os) True (cn_channel k) w1 else Inr w1) (inv cx)" if b: "readableBytes b \<noteq> 0"
  proof (cases "isWriting c")
    case True
    then have "ch_events c = conn_events k'" using wr(1) cc b p(2) by (simp add: conn_chan_def conn_events_def k')
    then have "invM cx w1 M" by (intro fin [OF r chan_effect_refl [OF cw1]]) simp_all
    with True show ?thesis by (auto simp: inv_def)
  next
    case False
    have "wpR (enableWriting (os_ctl os) True (cn_channel k) w1) (inv cx)"
      by (rule wpF_mono [OF spec'(2)]) (use b fin p(2) in \<open>auto simp: k' conn_events_def inv_def\<close>)
    with False show ?thesis by simp
  qed
qed

lemma after_write:
  assumes inv: "invM cx w M" and p: "conns w p = Some k" "cn_state k \<noteq> kDisconnected"
    and b: "buffer_inv b" "conn_stream h (k\<lparr>cn_output := b\<rparr>)" "readableBytes (cn_output k) \<noteq> 0"
    and h: "fd_calls (cn_socketFd k) (calls w) h" and os: "os_ok (cx_reserved cx) os"
    and w1: "w1 = w\<lparr>conns := (conns w)(p \<mapsto> k\<lparr>cn_output := b\<rparr>), calls := h\<rparr>"
  shows "wpR (if readableBytes b = 0 then
      bindR (disableWriting (os_ctl os) True (cn_channel k) w1) (\<lambda>w3.
      let w4 = (if cn_writeCompleteCb k then queueTask True (WriteComplete p) w3 else w3) in
      if cn_state k = kDisconnecting then shutdownInLoop True p w4 else Inr w4)
    else Inr w1) (inv cx)"
proof -
  obtain c where c: "chans w (cn_channel k) = Some c" "conn_chan p k c" using conn_okD [OF inv p(1)] by metis
  note op = conn_open [OF c(2) p(2)]
  have eq: "k\<lparr>cn_output := b\<rparr> = k\<lparr>cn_output := b, cn_sent := cn_sent k\<rparr>" by simp
  have fin: "wpR (let w4 = (if cn_writeCompleteCb k then queueTask True (WriteComplete p) w3 else w3) in
      if cn_state k = kDisconnecting then shutdownInLoop True p w4 else Inr w4) (inv cx)"
    if w3: "invM cx w3 M \<and> conns w3 = conns w1" for w3
  proof -
    have "inv cx w3" using w3 by (auto simp: inv_def)
    then have "inv cx (if cn_writeCompleteCb k then queueTask True (WriteComplete p) w3 else w3)"
      using w3 inv_queue [of cx w3 "WriteComplete p" True] by (simp add: w1)
    with shutdownInLoop_inv [OF this, of p "k\<lparr>cn_output := b\<rparr>"] w3 show ?thesis by (simp add: w1 Let_def)
  qed
  show ?thesis
  proof (cases "readableBytes b = 0")
    case True
    from wpF_mono [OF conn_set_events(1) [OF inv p eq b(1,2) h w1 os c(1) True] fin] True show ?thesis by simp
  next
    case False
    have "invM cx w1 M"
      by (rule invM_conn_set [OF inv p(1), of "k\<lparr>cn_output := b\<rparr>" h])
        (use b h False c op p w1 in \<open>auto simp: conn_chan_def conn_events_def\<close>)
    with False show ?thesis by (auto simp: inv_def)
  qed
qed

lemma conn_handleWrite_inv:
  assumes inv: "inv cx w" and p: "conns w p = Some k" and env: "env_ok e" and os: "os_ok (cx_reserved cx) (e_os e)"
  shows "wpF limits (conn_handleWrite e True p w) (inv cx)"
proof (cases "cn_state k = kDisconnected")
  case True
  then show ?thesis using inv p by (simp add: conn_handleWrite_def assertInLoopThread_def)
next
  case False
  obtain M c where c: "invM cx w M" "chans w (cn_channel k) = Some c" "conn_chan p k c" "conn_stream (calls w) k"
    by (rule inv_connE [OF inv p])
  note op = conn_open [OF c(3) False]
  have out: "buffer_inv (cn_output k)" using c(3) by (simp add: conn_chan_def)
  obtain n err where wr: "os_write (e_os e) (calls w) (ch_fd c) (peek (cn_output k)) = (n, err)" by force
  let ?h = "calls w @ [SysWrite (ch_fd c) (take (nat n) (peek (cn_output k)))]"
  have calls: "fd_calls (cn_socketFd k) (calls w) ?h" using op by simp
  show ?thesis
  proof (cases "0 < n")
    case True
    have n: "nat n \<le> readableBytes (cn_output k)" using os wr out by (auto simp: os_ok_def dest!: spec)
    have st: "conn_stream ?h (k\<lparr>cn_output := b\<rparr>)" if "peek b = drop (nat n) (peek (cn_output k))" for b
      using c(4) that op False by (simp add: conn_stream_def)
    have nz: "readableBytes (cn_output k) \<noteq> 0" using n True by simp
    note fin = after_write [OF c(1) p False _ st nz calls os refl]
    have "wpF limits (retrieve (nat n) (cn_output k)) (\<lambda>b. wpF limits (if readableBytes b = 0 then
        bindR (disableWriting (os_ctl (e_os e)) True (cn_channel k) (w\<lparr>conns := (conns w)(p \<mapsto> k\<lparr>cn_output := b\<rparr>), calls := ?h\<rparr>)) (\<lambda>w3.
        let w4 = (if cn_writeCompleteCb k then queueTask True (WriteComplete p) w3 else w3) in
        if cn_state k = kDisconnecting then shutdownInLoop True p w4 else Inr w4)
      else Inr (w\<lparr>conns := (conns w)(p \<mapsto> k\<lparr>cn_output := b\<rparr>), calls := ?h\<rparr>)) (inv cx))"
      by (rule wpF_weaken [OF retrieve_spec [OF out n]]) (simp, intro wpX fin, simp_all)
    with True p False c(2) wr inv nz conn_writing(1) [OF c(3) False] show ?thesis
      by (simp add: conn_handleWrite_def assertInLoopThread_def sock_write_def log_call_def upd_conn_def split del: if_split)
  next
    case neg: False
    have "invM cx (log_call (SysWrite (ch_fd c) []) w) M"
      by (rule invM_conn_set [OF c(1) p, of k "calls w @ [SysWrite (ch_fd c) []]"])
        (use c p op in \<open>auto simp: log_call_def conn_chan_def conn_stream_def fun_upd_idem\<close>)
    then have "inv cx (log_call (SysWrite (ch_fd c) []) w)" by (auto simp: inv_def)
    from handleError_err_inv [OF this _ env os, of p k] neg p False c(2) wr inv show ?thesis
      by (auto simp: conn_handleWrite_def assertInLoopThread_def sock_write_def log_call_def)
  qed
qed

subsection \<open>Sending\<close>

lemma sendRest_inv:
  assumes inv: "invM cx w M" and p: "conns w p = Some k" "cn_state k \<noteq> kDisconnected"
    and w1: "w1 = w\<lparr>conns := (conns w)(p \<mapsto> k\<lparr>cn_sent := ss\<rparr>), calls := h\<rparr>"
    and h: "fd_calls (cn_socketFd k) (calls w) h" "ss = written (cn_socketFd k) h @ peek (cn_output k) @ rest"
    and rest: "rest \<noteq> []" "length rest \<le> vec_max_size" and os: "os_ok (cx_reserved cx) (e_os e)"
  shows "wpF limits (sendRest e True p rest w1) (inv cx)"
proof -
  obtain c where c: "chans w (cn_channel k) = Some c" "conn_chan p k c" using conn_okD [OF inv p(1)] by metis
  let ?n = "size_add (readableBytes (cn_output k)) (length rest)"
  let ?high = "cn_highWaterMark k \<le> ?n \<and> readableBytes (cn_output k) < cn_highWaterMark k \<and> cn_highWaterMarkCb k"
  let ?w = "if ?high then queueTask True (HighWaterMark p ?n) w else w"
  have "inv cx ?w" using inv_queue [of cx w "HighWaterMark p ?n" True] inv p(1) by (auto simp: inv_def)
  then obtain M' where inv': "invM cx ?w M'" by (auto simp: inv_def)
  have same: "conns ?w = conns w" "chans ?w = chans w" "calls ?w = calls w" by simp_all
  let ?k = "\<lambda>b. k\<lparr>cn_sent := ss, cn_output := b\<rparr>"
  have send: "wpF limits (if \<not> isWriting c then enableWriting (os_ctl (e_os e)) True (cn_channel k)
       (?w\<lparr>conns := (conns w)(p \<mapsto> ?k b), calls := h\<rparr>) else Inr (?w\<lparr>conns := (conns w)(p \<mapsto> ?k b), calls := h\<rparr>)) (inv cx)"
    if b: "buffer_inv b \<and> peek b = peek (cn_output k) @ rest" for b
  proof -
    have st: "conn_stream h (?k b)" using b h(2) p(2) by (simp add: conn_stream_def)
    have eq: "?k b = k\<lparr>cn_output := b, cn_sent := ss\<rparr>" by simp
    have nz: "readableBytes b \<noteq> 0" using b rest(1) by (metis append_is_Nil_conv length_0_conv length_peek)
    show ?thesis
      by (intro wpX conn_set_events(2) [OF inv' _ p(2) eq _ st _ _ os _ nz]) (use p b h c(1) same in simp_all)
  qed
  have app: "wpF limits (append rest (cn_output k)) (\<lambda>b. buffer_inv b \<and> peek b = peek (cn_output k) @ rest)"
    using c(2) rest(2) by (intro wpF_faults [OF append_total]) (auto simp: conn_chan_def limits_def)
  have "wpF limits (append rest (cn_output k)) (\<lambda>b. wpF limits (if \<not> isWriting c then enableWriting (os_ctl (e_os e)) True (cn_channel k)
       (?w\<lparr>conns := (conns w)(p \<mapsto> ?k b), calls := h\<rparr>) else Inr (?w\<lparr>conns := (conns w)(p \<mapsto> ?k b), calls := h\<rparr>)) (inv cx))"
    by (rule wpF_mono [OF app send])
  moreover have "sendRest e True p rest w1 = bindR (append rest (cn_output k)) (\<lambda>b.
      if \<not> isWriting c then enableWriting (os_ctl (e_os e)) True (cn_channel k) (?w\<lparr>conns := (conns w)(p \<mapsto> ?k b), calls := h\<rparr>)
      else Inr (?w\<lparr>conns := (conns w)(p \<mapsto> ?k b), calls := h\<rparr>))"
    using p c(1) by (auto simp: sendRest_def w1 upd_conn_def Let_def cong: if_cong)
  ultimately show ?thesis by (simp only: wpF_bind)
qed

lemma sendInLoop_inv:
  assumes inv: "inv cx w" and p: "conns w p = Some k" and data: "length data \<le> vec_max_size"
    and env: "env_ok e" and os: "os_ok (cx_reserved cx) (e_os e)"
  shows "wpF limits (sendInLoop e True p data w) (inv cx)"
proof (cases "cn_state k = kDisconnected")
  case True
  then show ?thesis using inv p by (simp add: sendInLoop_def assertInLoopThread_def)
next
  case False
  obtain M c where c: "invM cx w M" "chans w (cn_channel k) = Some c" "conn_chan p k c" "conn_stream (calls w) k"
    by (rule inv_connE [OF inv p])
  note op = conn_open [OF c(3) False]
  have sent: "cn_sent k = written (cn_socketFd k) (calls w) @ peek (cn_output k)" using c(4) op False by (simp add: conn_stream_def)
  let ?k = "k\<lparr>cn_sent := cn_sent k @ data\<rparr>"
  let ?w = "\<lambda>h. w\<lparr>conns := (conns w)(p \<mapsto> ?k), calls := h\<rparr>"
  have rest: "wpF limits (sendRest e True p rest (?w h)) (inv cx)"
    if "fd_calls (cn_socketFd k) (calls w) h" "cn_sent k @ data = written (cn_socketFd k) h @ peek (cn_output k) @ rest"
      "rest \<noteq> []" "length rest \<le> length data" for h rest
    by (rule sendRest_inv [OF c(1) p False refl that(1,2,3) _ os]) (use that data in simp)
  have all: "inv cx (?w h)" if "fd_calls (cn_socketFd k) (calls w) h" "cn_sent k @ data = written (cn_socketFd k) h @ peek (cn_output k)" for h
    unfolding inv_def
    by (intro exI, rule invM_conn_set [OF c(1) p, of ?k h])
      (use c op that False in \<open>auto simp: conn_chan_def conn_events_def conn_stream_def\<close>)
  show ?thesis
  proof (cases "readableBytes (cn_output k) = 0")
    case True
    then have out: "peek (cn_output k) = []" using c(3) by (metis conn_chan_def length_0_conv length_peek)
    obtain n err where wr: "os_write (e_os e) (calls w) (ch_fd c) data = (n, err)" by force
    then have n: "n \<le> int (length data)" "n < 0 \<longrightarrow> err \<noteq> 0" using os by (auto simp: os_ok_def)
    let ?h = "calls w @ [SysWrite (ch_fd c) (take (nat n) data)]"
    have h: "fd_calls (cn_socketFd k) (calls w) ?h" using op by simp
    have wtn: "written (cn_socketFd k) ?h = cn_sent k @ take (nat n) data" using sent out op by simp
    have ok: "wpF limits (if drop (nat n) data = []
          then Inr (if cn_writeCompleteCb k then queueTask True (WriteComplete p) (?w ?h) else ?w ?h)
          else sendRest e True p (drop (nat n) data) (?w ?h)) (inv cx)"
      using rest [OF h, of "drop (nat n) data"] all [OF h] wtn out inv_queue [of cx "?w ?h" "WriteComplete p" True] by auto
    have err: "wpF limits (if err \<noteq> EWOULDBLOCK \<and> err \<noteq> EAGAIN \<and> err \<noteq> EINTR then handleError_err e True err p (?w ?h)
          else if data = [] then Inr (?w ?h) else sendRest e True p data (?w ?h)) (inv cx)" if "n < 0"
    proof -
      have "in_send w p k (cn_sent k @ data) ?h (?w ?h)" using p h wtn that by (simp add: in_send_def)
      from handleError_err_from [OF inv this False _ env os, of err] rest [OF h, of data] all [OF h] wtn out n that
      show ?thesis by auto
    qed
    have dir: "sendInLoop e True p data w = (if 0 \<le> n then if drop (nat n) data = []
          then Inr (if cn_writeCompleteCb k then queueTask True (WriteComplete p) (?w ?h) else ?w ?h)
          else sendRest e True p (drop (nat n) data) (?w ?h)
        else if err \<noteq> EWOULDBLOCK \<and> err \<noteq> EAGAIN \<and> err \<noteq> EINTR then handleError_err e True err p (?w ?h)
        else if data = [] then Inr (?w ?h) else sendRest e True p data (?w ?h))"
      using True p False c(2) wr conn_writing(1) [OF c(3) False]
      by (simp add: sendInLoop_def assertInLoopThread_def upd_conn_def sock_write_def log_call_def Let_def)
    show ?thesis
    proof (cases "0 \<le> n")
      case True
      then show ?thesis unfolding dir using ok by (simp only: if_True)
    next
      case False
      then have "n < 0" by simp
      from err [OF this] False show ?thesis unfolding dir by (simp only: if_False)
    qed
  next
    case nz: False
    have "wpF limits (if data = [] then Inr (w\<lparr>conns := (conns w)(p \<mapsto> ?k)\<rparr>) else sendRest e True p data (w\<lparr>conns := (conns w)(p \<mapsto> ?k)\<rparr>)) (inv cx)"
      using rest [of "calls w" data] all [of "calls w"] sent by simp
    with nz p False c(2) show ?thesis
      by (simp add: sendInLoop_def assertInLoopThread_def upd_conn_def split del: if_split)
  qed
qed

lemma conn_send_inv:
  assumes inv: "inv cx w" and p: "conns w p = Some k" and data: "length data \<le> vec_max_size"
    and env: "env_ok e" and os: "os_ok (cx_reserved cx) (e_os e)"
  shows "wpF limits (conn_send e il p (Some data) w) (inv cx)"
  using sendInLoop_inv [OF inv p data env os] inv_queue [OF inv, of "SendTask p data" False] inv p data
  by (auto simp: conn_send_def)

lemma run_SendTask_inv:
  assumes inv: "inv cx w" and p: "conns w p = Some k" and data: "length data \<le> vec_max_size"
    and env: "env_ok e" and os: "os_ok (cx_reserved cx) (e_os e)"
  shows "wpF limits (run_SendTask e True p data w) (inv cx)"
  using sendInLoop_inv [OF inv p data env os] inv p by (simp add: run_SendTask_def)

subsection \<open>Options\<close>

lemma conn_setTcpNoDelay_inv:
  assumes inv: "inv cx w" and p: "conns w p = Some k"
  shows "wpR (conn_setTcpNoDelay on p w) (inv cx)"
  using inv_conn_call [OF inv p, of "SysSetOpt (cn_socketFd k) TCP_NODELAY (if on then 1 else 0)"] inv p
  by (simp add: conn_setTcpNoDelay_def setTcpNoDelay_def)

text \<open>A change of the fields that the invariant does not mention.\<close>

lemma inv_conn_field:
  assumes inv: "inv cx w" and p: "conns w p = Some k"
    and k': "cn_channel k' = cn_channel k" "cn_name k' = cn_name k" "cn_socketFd k' = cn_socketFd k" "cn_closeCb k' = cn_closeCb k"
      "cn_state k' = cn_state k" "cn_output k' = cn_output k" "cn_sent k' = cn_sent k" "buffer_inv (cn_input k')"
  shows "inv cx (w\<lparr>conns := (conns w)(p \<mapsto> k')\<rparr>)"
proof -
  obtain M c where c: "invM cx w M" "conn_chan p k c" "conn_stream (calls w) k" by (rule inv_connE [OF inv p])
  have "invM cx (w\<lparr>conns := (conns w)(p \<mapsto> k')\<rparr>) M"
    by (rule invM_conn_set [OF c(1) p, of k' "calls w"])
      (use c k' in \<open>auto simp: conn_chan_def conn_events_def conn_stream_def\<close>)
  then show ?thesis by (auto simp: inv_def)
qed

lemma setHighWaterMarkCallback_inv:
  assumes inv: "inv cx w" and p: "conns w p = Some k"
  shows "wpR (setHighWaterMarkCallback mark p w) (inv cx)"
proof -
  obtain M c where "conn_chan p k c" by (rule inv_connE [OF inv p])
  then show ?thesis
    using p by (simp add: setHighWaterMarkCallback_def upd_conn_def) (rule inv_conn_field [OF inv p], simp_all add: conn_chan_def)
qed

lemma consume_input_inv:
  assumes inv: "inv cx w"
  shows "wpR (consume_input ev n w) (inv cx)"
proof (cases ev)
  case (CbMessage p)
  show ?thesis
  proof (cases "conns w p")
    case None
    with CbMessage inv show ?thesis by (simp add: consume_input_def with_conn_def)
  next
    case (Some k)
    obtain M c where c: "conn_chan p k c" by (rule inv_connE [OF inv Some])
    have "wpR (retrieve (min n (readableBytes (cn_input k))) (cn_input k)) (\<lambda>b. inv cx (w\<lparr>conns := (conns w)(p \<mapsto> k\<lparr>cn_input := b\<rparr>)\<rparr>))"
      using c by (intro wpF_mono [OF retrieve_spec]) (auto simp: conn_chan_def intro!: inv_conn_field [OF inv Some])
    with CbMessage Some show ?thesis by (simp add: consume_input_def with_conn_def upd_conn_def)
  qed
qed (use inv in \<open>simp_all add: consume_input_def\<close>)

end
