(* ===== verification/Holders.thy ===== *)
theory Holders
  imports Streams
begin

text \<open>
  Dropping references: the last one to a channel or an acceptor frees it, and the descriptors of an acceptor
  are closed with it.
\<close>

subsection \<open>Contexts\<close>

lemma invM_cx:
  assumes inv: "invM cx w M" and cx': "cx_closing cx' = cx_closing cx" "cx_dropping cx' = cx_dropping cx" "cx_active cx' = cx_active cx"
      "cx_fds cx' = cx_fds cx" "cx_running cx' = cx_running cx" "cx_local cx' = cx_local cx" "cx_reserved cx' = cx_reserved cx"
      "cx_guards cx' = cx_guards cx" "cx_wf cx'"
    and obj: "\<And>p. p \<in> cx_guarded cx' \<Longrightarrow> conns w p \<noteq> None" "\<And>a. a \<in> cx_pinned cx' \<Longrightarrow> \<exists>r. acceptors w a = Some r \<and> ac_listening r"
  shows "invM cx' w M"
proof (rule invM_refs [OF inv])
  have "tally cx' w M = tally cx w M" by (simp add: fun_eq_iff tally_def cx')
  then show "counts cx' w M" using invMD(3) [OF inv] obj cx'(9) by (auto simp: counts_def)
  show "pend cx' w M" by (rule pend_cx [OF invMD(1) [OF inv]]) (simp_all add: cx')
qed (simp_all add: cx' same_objects_def)

lemma cx_ref_simps [simp]:
  "cx_closing (cx_ref p cx) = cx_closing cx" "cx_dropping (cx_ref p cx) = cx_dropping cx"
  "cx_active (cx_ref p cx) = cx_active cx" "cx_fds (cx_ref p cx) = cx_fds cx"
  "cx_reserved (cx_ref p cx) = cx_reserved cx" "cx_running (cx_ref p cx) = cx_running cx"
  "cx_local (cx_ref p cx) = cx_local cx" "cx_guarded (cx_ref p cx) = cx_guarded cx"
  "cx_pinned (cx_ref p cx) = cx_pinned cx" "cx_guards (cx_ref p cx) = (cx_guards cx)(p := cx_guards cx p + 1)"
  by (simp_all add: cx_ref_def)

lemma cx_pin_simps [simp]:
  "cx_closing (cx_pin p cx) = cx_closing cx" "cx_dropping (cx_pin p cx) = cx_dropping cx"
  "cx_active (cx_pin p cx) = cx_active cx" "cx_fds (cx_pin p cx) = cx_fds cx"
  "cx_reserved (cx_pin p cx) = cx_reserved cx" "cx_running (cx_pin p cx) = cx_running cx"
  "cx_local (cx_pin p cx) = cx_local cx" "cx_guarded (cx_pin p cx) = cx_guarded cx"
  "cx_pinned (cx_pin p cx) = insert p (cx_pinned cx)" "cx_guards (cx_pin p cx) = (cx_guards cx)(p := cx_guards cx p + 1)"
  by (simp_all add: cx_pin_def)

lemma cx_wf_ref: "cx_wf cx \<Longrightarrow> cx_wf (cx_ref p cx)"
  by (auto simp: cx_wf_def)

lemma cx_wf_pin: "cx_wf cx \<Longrightarrow> cx_wf (cx_pin p cx)"
  by (auto simp: cx_wf_def)

lemma inv_wf: "inv cx w \<Longrightarrow> cx_wf cx"
  by (auto simp: inv_def counts_def dest!: invMD(3))

subsection \<open>Other objects than connections\<close>

text \<open>A step that leaves the connections alone.\<close>

lemma invM_other:
  assumes inv: "invM cx w M"
    and conns: "conns w' = conns w" "\<And>c p. chans w c \<noteq> None \<Longrightarrow> bound w c = Some (OwnConn p) \<Longrightarrow> chans w' c = chans w c \<and> bound w' c = bound w c"
      "in_map w' = in_map w" "\<And>so. server_known w so \<Longrightarrow> server_alive w' so = server_alive w so \<and> server_known w' so"
      "\<And>p k. conns w p = Some k \<Longrightarrow> 0 \<le> cn_socketFd k \<Longrightarrow> written (cn_socketFd k) (calls w') = written (cn_socketFd k) (calls w)"
    and cx': "cx_closing cx' = cx_closing cx" "cx_dropping cx' = cx_dropping cx" "cx_active cx' = cx_active cx"
    and M': "\<And>q. count M' (ConnectDestroyed q) = count M (ConnectDestroyed q)" "\<And>t. t \<in># M' \<Longrightarrow> task_ok w' t"
    and parts: "pend cx' w' M'" "reactor_inv w'" "counts cx' w' M'" "kinds w'" "fds cx' w'"
    and objs: "\<And>s r. servers w' s = Some r \<Longrightarrow> srv_ok w' s r" "\<And>a r. acceptors w' a = Some r \<Longrightarrow> acc_ok w' a r"
      "\<And>u r. udps w' u = Some r \<Longrightarrow> udp_ok w' u r" "\<And>c ch. chans w' c = Some ch \<Longrightarrow> chan_has_owner cx' w' c ch"
      "\<And>c. c \<in> cx_active cx \<Longrightarrow> act_ok w' M' c"
  shows "invM cx' w' M'"
proof -
  have "conn_ok cx' w' M' p k" if p: "conns w p = Some k" for p k
  proof -
    obtain c where c: "bound w (cn_channel k) = Some (OwnConn p)" "server_known w (cn_closeCb k)" "chans w (cn_channel k) \<noteq> None"
      using conn_okD [OF inv p] by (metis option.distinct(1))
    show ?thesis
      by (rule conn_ok_transfer [OF invMD(7) [OF inv p]]) (use conns(2) [OF c(3,1)] conns(3,4,5) c p cx' M'(1) in auto)
  qed
  then show ?thesis using M'(2) parts objs unfolding invM_def by (simp add: conns(1) cx'(3))
qed

lemma own_fd_cong: "conns w' = conns w \<Longrightarrow> acceptors w' = acceptors w \<Longrightarrow> udps w' = udps w \<Longrightarrow> own_fd w' = own_fd w"
proof
  fix x assume "conns w' = conns w" "acceptors w' = acceptors w" "udps w' = udps w"
  then show "own_fd w' x = own_fd w x" by (cases x) simp_all
qed

lemma acc_ok_transfer:
  assumes "acc_ok w a r" and "\<And>so. server_known w so \<Longrightarrow> server_known w' so"
    and "\<And>c. ac_acceptChannel r = Some c \<Longrightarrow> chans w' c = chans w c \<and> bound w' c = bound w c"
  shows "acc_ok w' a r"
  using assms by (cases "ac_acceptChannel r") (auto simp: acc_ok_def)

lemma srv_ok_transfer:
  assumes "srv_ok w s r" and conns: "conns w' = conns w"
    and acc: "\<And>a r. acceptors w a = Some r \<Longrightarrow> \<exists>r'. acceptors w' a = Some r' \<and> ac_newConnectionCb r' = ac_newConnectionCb r"
  shows "srv_ok w' s r"
proof -
  obtain a ra where "sv_acceptor r = Some a" "acceptors w a = Some ra" "ac_newConnectionCb ra = Some s"
    using assms(1) by (auto simp: srv_ok_def)
  with acc have "\<exists>a ra. sv_acceptor r = Some a \<and> acceptors w' a = Some ra \<and> ac_newConnectionCb ra = Some s" by fastforce
  with assms(1) show ?thesis by (simp add: srv_ok_def conns)
qed

lemma udp_ok_transfer:
  assumes "udp_ok w u r" and "\<And>c. ud_channel r = Some c \<Longrightarrow> chans w' c = chans w c \<and> bound w' c = bound w c"
  shows "udp_ok w' u r"
  using assms by (cases "ud_channel r") (auto simp: udp_ok_def)

lemma act_ok_transfer:
  assumes "act_ok w M c" and "chans w' (fst c) = chans w (fst c)" "bound w' (fst c) = bound w (fst c)" and "KeepChannel (fst c) \<in># M \<Longrightarrow> KeepChannel (fst c) \<in># M'"
  shows "act_ok w' M' c"
  using assms by (auto simp: act_ok_def)

lemma acc_channel:
  assumes "invM cx w M" and "acceptors w a = Some r" and "ac_acceptChannel r = Some c"
  obtains ch where "chans w c = Some ch" "bound w c = Some (OwnAcceptor a)" "ch_fd ch = ac_acceptSocket r" "0 \<le> ac_acceptSocket r"
    "ch_tie ch = Some a" "ch_events ch = kReadEvent" "ac_listening r"
  using invMD(9) [OF assms(1,2)] assms(3) by (auto simp: acc_ok_def)

lemma udp_channel:
  assumes "invM cx w M" and "udps w u = Some r" and "ud_channel r = Some c"
  obtains ch where "chans w c = Some ch" "bound w c = Some (OwnUdp u)" "ch_fd ch = ud_sockfd r" "0 \<le> ud_sockfd r"
    "ch_tie ch = None" "ch_events ch = (if ud_state r = kReceiving then kReadEvent else kNoneEvent)" "ud_state r \<noteq> kClosed"
  using invMD(10) [OF assms(1,2)] assms(3) by (auto simp: udp_ok_def)

subsection \<open>Channels\<close>

text \<open>The last reference to a channel.\<close>

lemma chan_no_refs:
  assumes inv: "invM cx0 w M" and cx: "cx_drops c cx0 cx" and c: "shared_chan w c" and t: "tally cx w M c = 0"
  obtains ch where "chans w c = Some ch" "ch_index ch = -1" "\<not> chan_owned w c" "capt M c = 0" "held w c = 0"
proof -
  have n: "\<not> chan_owned w c" "capt M c = 0" "held w c = 0" using t by (auto simp: tally_def owners_def)
  obtain ch where ch: "chans w c = Some ch" using c by (auto simp: shared_chan_def)
  have "chan_has_owner cx0 w c ch" by (rule invMD(11) [OF inv ch])
  then have "ch_index ch = -1"
    using c n(1) by (auto simp: shared_chan_def chan_has_owner_def chan_owned_def split: option.splits owner.splits)
  with ch n show thesis by (intro that)
qed

lemma invM_delete_chan:
  assumes inv: "invM cx0 w M" and cx: "cx_drops c cx0 cx" and c: "shared_chan w c" and t: "tally cx w M c = 0"
    and w': "w' = w\<lparr>refs := (refs w)(c := 0), chans := (chans w)(c := None), bound := (bound w)(c := None)\<rparr>"
  shows "invM cx w' M"
proof -
  obtain ch where ch: "chans w c = Some ch" "ch_index ch = -1" "\<not> chan_owned w c" "capt M c = 0" "held w c = 0"
    by (rule chan_no_refs [OF inv cx c t])
  note cxs = cx_dropsD [OF cx]
  have eqs: "conns w' = conns w" "acceptors w' = acceptors w" "servers w' = servers w" "udps w' = udps w" "expired w' = expired w"
    "held w' = held w" "calls w' = calls w" "refs w' = (refs w)(c := 0)" "chans w' = (chans w)(c := None)" "bound w' = (bound w)(c := None)"
    by (simp_all add: w')
  have cnt: "counts cx0 w M" and kd: "kinds w" by (rule invMD(3,4) [OF inv])+
  have maps: "in_map w' = in_map w" "server_alive w' = server_alive w" "server_known w' = server_known w"
    "owners w' = owners w"
    by (auto simp: fun_eq_iff in_map_def server_alive_def server_known_def owners_def acc_owned_def chan_owned_def eqs
        split: option.splits)
  have own: "own_fd w' = own_fd w" by (rule own_fd_cong) (simp_all add: eqs)
  have sc: "shared_chan w' x \<longleftrightarrow> shared_chan w x \<and> x \<noteq> c" for x by (auto simp: shared_chan_def eqs)
  have no_acc: "x \<noteq> c" if "acceptors w a = Some r" "ac_acceptChannel r = Some x" for a r x
    using that ch(3) by (auto simp: chan_owned_def)
  have no_udp: "x \<noteq> c" if "udps w u = Some r" "ud_channel r = Some x" for u r x
    using that ch(3) by (auto simp: chan_owned_def)
  have notconn: "bound w c \<noteq> Some (OwnConn p)" for p using c by (auto simp: shared_chan_def)
  have nokeep: "KeepChannel c \<notin># M" using ch(4) capt_mono [of "KeepChannel c" M c] by auto
  have tasks: "task_ok w' t" if "t \<in># M" for t
    using invMD(6) [OF inv that] nokeep that by (cases t) (auto simp: maps sc eqs)
  show ?thesis
  proof (rule invM_other [OF inv])
    show "reactor_inv w'"
      using reactor_inv_cong [OF _ _ _ reactor_inv_DeleteChannel [OF invMD(2) [OF inv] ch(1,2)], of w'] by (simp add: w')
    show "pend cx w' M" by (rule pend_cx [OF pend_cong [OF invMD(1) [OF inv]]]) (simp_all add: w' cxs)
    show "counts cx w' M"
    proof -
      have "tally cx w' = tally cx w" by (rule tally_cong) (simp_all add: maps eqs)
      moreover have "conns w c = None" "acceptors w c = None" using kd ch(1) by (auto simp: kinds_def)
      ultimately show ?thesis
        using cnt t cxs(8) unfolding counts_def by (auto simp: eqs shared_def sc cxs(9) dest: cxs(10,11))
    qed
    show "kinds w'" using kd by (auto simp: kinds_def eqs)
    show "fds cx w'" using invMD(5) [OF inv] unfolding fds_def own by (simp add: eqs cxs)
    show "srv_ok w' s r" if "servers w' s = Some r" for s r
      using invMD(8) [OF inv, of s r] that by (simp add: srv_ok_def eqs)
    show "acc_ok w' a r" if "acceptors w' a = Some r" for a r
      by (rule acc_ok_transfer [OF invMD(9) [OF inv]]) (use that no_acc in \<open>auto simp: maps eqs\<close>)
    show "udp_ok w' u r" if "udps w' u = Some r" for u r
      by (rule udp_ok_transfer [OF invMD(10) [OF inv]]) (use that no_udp in \<open>auto simp: eqs\<close>)
    show "chan_has_owner cx w' x y" if "chans w' x = Some y" for x y
      using invMD(11) [OF inv, of x y] that
      by (auto simp: chan_has_owner_def eqs cxs split: if_splits option.splits owner.splits)
    show "act_ok w' M x" if x: "x \<in> cx_active cx0" for x
    proof -
      have "act_ok w M x" by (rule invMD(12) [OF inv x])
      moreover from this have "fst x \<noteq> c" using ch nokeep by (auto simp: act_ok_def)
      ultimately show ?thesis by (simp add: act_ok_def eqs)
    qed
    show "task_ok w' t" if "t \<in># M" for t by (rule tasks [OF that])
  qed (use notconn in \<open>auto simp: maps cxs eqs\<close>)
qed

lemma release_chan_drops:
  assumes "inv cx0 w" and cx: "cx_drops c cx0 cx" and c: "shared_chan w c"
  shows "wpR (release_chan c w) (inv cx)"
proof -
  obtain M where inv: "invM cx0 w M" using assms(1) by (auto simp: inv_def)
  have refs: "refs w c = tally cx w M c + 1" using invMD(3) [OF inv] cx_dropsD(9) [OF cx] by (simp add: counts_def)
  show ?thesis
  proof (cases "tally cx w M c = 0")
    case True
    with invM_delete_chan [OF inv cx c True refl] refs show ?thesis by (auto simp: release_chan_def Let_def inv_def)
  next
    case False
    then have "invM cx (w\<lparr>refs := (refs w)(c := refs w c - 1)\<rparr>) M" by (intro invM_drop_ref [OF inv cx]) simp_all
    with False refs show ?thesis by (auto simp: release_chan_def Let_def inv_def)
  qed
qed

subsection \<open>Descriptors\<close>

text \<open>
  The part of the invariant about descriptors, for a function from roles to descriptors: calls that open and
  close descriptors, and the moves between the owners and the descriptors without an owner.
\<close>

definition fds_of :: "(role \<Rightarrow> fd) \<Rightarrow> history \<Rightarrow> fd set \<Rightarrow> fd set \<Rightarrow> bool" where
  "fds_of own h F R \<longleftrightarrow> fd_wf h {} \<and> (\<forall>f. f \<in> open_fds h \<longleftrightarrow> f \<in> F \<or> 0 \<le> f \<and> (\<exists>x. own x = f))
     \<and> (\<forall>x y. own x = own y \<and> 0 \<le> own x \<longrightarrow> x = y) \<and> (\<forall>x. 0 \<le> own x \<longrightarrow> own x \<notin> F \<and> own x \<notin> R)
     \<and> F \<inter> R = {} \<and> (\<forall>f \<in> F. 0 \<le> f)"

lemma fds_iff: "fds cx w = fds_of (own_fd w) (calls w) (cx_fds cx) (cx_reserved cx)"
  by (simp add: fds_def fds_of_def)

lemma fds_ofI:
  assumes "fd_wf h {}" and "\<And>f. f \<in> open_fds h \<longleftrightarrow> f \<in> F \<or> 0 \<le> f \<and> (\<exists>x. own x = f)"
    and "\<And>x y. own x = own y \<Longrightarrow> 0 \<le> own x \<Longrightarrow> x = y" and "\<And>x. 0 \<le> own x \<Longrightarrow> own x \<notin> F \<and> own x \<notin> R"
    and "F \<inter> R = {}" and "\<And>f. f \<in> F \<Longrightarrow> 0 \<le> f"
  shows "fds_of own h F R"
  unfolding fds_of_def using assms by (intro conjI allI impI ballI) simp_all

lemma fds_of_cong:
  assumes "fds_of own h F R" and same: "\<And>x. own' x = own x \<or> own' x < 0 \<and> own x < 0"
  shows "fds_of own' h F R"
proof -
  have eq: "own' x = f \<longleftrightarrow> own x = f" if "0 \<le> f" for x f using same [of x] that by auto
  have pos: "0 \<le> own' x \<longleftrightarrow> 0 \<le> own x" for x using same [of x] by auto
  show ?thesis
  proof (rule fds_ofI)
    show "f \<in> open_fds h \<longleftrightarrow> f \<in> F \<or> 0 \<le> f \<and> (\<exists>x. own' x = f)" for f
      using assms(1) eq [of f] unfolding fds_of_def by metis
    show "own' x = own' y \<Longrightarrow> 0 \<le> own' x \<Longrightarrow> x = y" for x y
      using assms(1) eq pos unfolding fds_of_def by metis
    show "0 \<le> own' x \<Longrightarrow> own' x \<notin> F \<and> own' x \<notin> R" for x
      using assms(1) eq pos unfolding fds_of_def by metis
  qed (use assms(1) in \<open>auto simp: fds_of_def\<close>)
qed

lemma fds_of_nonneg: "fds_of own h F R \<Longrightarrow> f \<in> open_fds h \<Longrightarrow> 0 \<le> f"
  by (auto simp: fds_of_def)

lemma fds_of_new:
  assumes "fds_of own h F R" and c: "c = SysSocket fam d f \<or> c = SysOpen f \<or> c = SysAccept s f \<and> s \<in> open_fds h" and "f \<notin> open_fds h \<union> R"
  shows "fds_of own (h @ [c]) (if 0 \<le> f then insert f F else F) R"
proof -
  have "fd_apply c (open_fds h) = (if 0 \<le> f then insert f (open_fds h) else open_fds h)" "fd_valid c (open_fds h)" using c assms(3) by auto
  moreover have "own x \<noteq> f" if "0 \<le> f" for x using assms(1,3) that by (auto simp: fds_of_def)
  ultimately show ?thesis using assms(1,3) by (auto simp: fds_of_def fd_wf_snoc)
qed

lemma fds_of_take:
  assumes "fds_of own h (insert f F) R" and "f \<notin> F" and "own r < 0"
  shows "fds_of (own(r := f)) h F R"
proof -
  have ex: "(\<exists>x. (own(r := f)) x = g) \<longleftrightarrow> g = f \<or> (\<exists>x. own x = g)" if "0 \<le> g" for g
    using assms(3) that by (metis fun_upd_apply leD)
  have f: "f \<in> open_fds h" "0 \<le> f" "f \<notin> R" "own x \<noteq> f" for x
    using assms(1) by (auto simp: fds_of_def)
  show ?thesis
  proof (rule fds_ofI)
    show "g \<in> open_fds h \<longleftrightarrow> g \<in> F \<or> 0 \<le> g \<and> (\<exists>x. (own(r := f)) x = g)" for g
      using assms(1) f(1,2) ex [of g] by (auto simp: fds_of_def simp del: fun_upd_apply)
    show "(own(r := f)) x = (own(r := f)) y \<Longrightarrow> 0 \<le> (own(r := f)) x \<Longrightarrow> x = y" for x y
      using assms(1) f(4) by (auto simp: fds_of_def split: if_splits)
    show "0 \<le> (own(r := f)) x \<Longrightarrow> (own(r := f)) x \<notin> F \<and> (own(r := f)) x \<notin> R" for x
      using assms(1,2) f(3) by (auto simp: fds_of_def)
  qed (use assms(1) in \<open>auto simp: fds_of_def\<close>)
qed

lemma fds_of_give:
  assumes "fds_of own h F R" and "own r = f" and "0 \<le> f"
  shows "fds_of (own(r := -1)) h (insert f F) R"
proof -
  have ex: "(\<exists>x. (own(r := -1)) x = g) \<longleftrightarrow> (\<exists>x. own x = g) \<and> g \<noteq> f" if "0 \<le> g" for g
    using assms that by (auto simp: fds_of_def)
  have "f \<in> open_fds h" "f \<notin> F" "f \<notin> R" using assms by (auto simp: fds_of_def)
  with assms show ?thesis unfolding fds_of_def by (auto simp: ex)
qed

lemma fds_of_close:
  assumes "fds_of own h (insert f F) R" and "f \<notin> F"
  shows "fds_of own (h @ [SysClose f]) F R"
  using assms by (auto simp: fds_of_def fd_wf_snoc)

lemma fds_of_close_own:
  assumes "fds_of own h F R"
  shows "fds_of (own(r := -1)) (if 0 \<le> own r then h @ [SysClose (own r)] else h) F R"
proof (cases "0 \<le> own r")
  case True
  moreover have "own r \<notin> F" using assms True by (auto simp: fds_of_def)
  ultimately show ?thesis using fds_of_close [OF fds_of_give [OF assms refl True]] by simp
next
  case False
  have ex: "(\<exists>x. (own(r := -1)) x = g) \<longleftrightarrow> (\<exists>x. own x = g)" if "0 \<le> g" for g
    using False that by (metis fun_upd_apply leD not_le neg_0_le_iff_le not_one_le_zero)
  have "fds_of (own(r := -1)) h F R"
  proof (rule fds_ofI)
    show "g \<in> open_fds h \<longleftrightarrow> g \<in> F \<or> 0 \<le> g \<and> (\<exists>x. (own(r := -1)) x = g)" for g
      using assms ex [of g] by (auto simp: fds_of_def simp del: fun_upd_apply)
    show "(own(r := -1)) x = (own(r := -1)) y \<Longrightarrow> 0 \<le> (own(r := -1)) x \<Longrightarrow> x = y" for x y
      using assms by (auto simp: fds_of_def split: if_splits)
    show "0 \<le> (own(r := -1)) x \<Longrightarrow> (own(r := -1)) x \<notin> F \<and> (own(r := -1)) x \<notin> R" for x
      using assms by (auto simp: fds_of_def)
  qed (use assms in \<open>auto simp: fds_of_def\<close>)
  with False show ?thesis by simp
qed

lemma fds_of_calls: "fds_of own h F R \<Longrightarrow> fd_calls f h h' \<Longrightarrow> f \<in> open_fds h \<Longrightarrow> fds_of own h' F R"
  using fd_calls_effect [of f h h'] by (simp add: fds_of_def)

lemma calls_close_if_open [simp]:
  "calls (close_if_open f w) = (if 0 \<le> f then calls w @ [SysClose f] else calls w)"
  by (simp add: close_if_open_def sock_close_def log_call_def)

lemma written_close [simp]: "written g (if b then h @ [SysClose f] else h) = written g h"
  by simp

subsection \<open>Giving up a channel\<close>

lemma chan_effect_trans: "chan_effect c x w w1 y \<Longrightarrow> chan_effect c y w1 w2 z \<Longrightarrow> chan_effect c x w w2 z"
  by (auto simp: chan_effect_def same_chan_def)

lemma detach_chan:
  assumes r: "reactor_inv w" and c: "chans w c = Some ch" and free: "fd_free c w" and os: "os_ok Z os"
  shows "wpR (bindR (disableAll (os_ctl os) True c w) (\<lambda>w1. bindR (Channel_remove (os_ctl os) True c w1) (\<lambda>w2.
      Inr (queueTask True (KeepChannel c) w2))))
    (\<lambda>w'. \<exists>w2 ch'. w' = queueTask True (KeepChannel c) w2 \<and> reactor_inv w2 \<and> chan_effect c ch w w2 ch'
       \<and> ch_events ch' = kNoneEvent \<and> ch_index ch' = -1)"
proof -
  have rm: "wpR (Channel_remove (os_ctl os) True c w1) (\<lambda>w2. \<exists>w2' ch'. queueTask True (KeepChannel c) w2 = queueTask True (KeepChannel c) w2'
      \<and> reactor_inv w2' \<and> chan_effect c ch w w2' ch' \<and> ch_events ch' = kNoneEvent \<and> ch_index ch' = -1)"
    if w1: "reactor_inv w1 \<and> (\<exists>c1. chan_effect c ch w w1 c1 \<and> ch_events c1 = kNoneEvent \<and> (ch_index ch \<noteq> -1 \<longrightarrow> ch_index c1 \<noteq> -1))" for w1
  proof -
    obtain c1 where c1: "chan_effect c ch w w1 c1" "ch_events c1 = kNoneEvent" using w1 by blast
    then have "chans w1 c = Some c1" by (simp add: chan_effect_def)
    from remove_spec [OF _ this c1(2), of "os_ctl os"] w1 show ?thesis
      by (auto elim!: wpF_mono intro: chan_effect_trans [OF c1(1)])
  qed
  show ?thesis
    using wpF_mono [OF disableAll_spec [OF r c free, of "os_ctl os", unfolded ctl_faults_ok [OF os]] rm] by simp
qed

subsection \<open>Acceptors\<close>

lemma ex_map_del:
  "(\<exists>x y. (m(a := None)) x = Some y \<and> Q x y) \<longleftrightarrow> (\<exists>x y. x \<noteq> a \<and> m x = Some y \<and> Q x y)"
  by (auto split: if_splits)

lemma acc_no_refs:
  assumes inv: "invM cx0 w M" and cx: "cx_drops a cx0 cx" and a: "acceptors w a = Some r" and t: "tally cx w M a = 0"
  shows "\<not> acc_owned w a" "StartServer s (Some a) \<notin># M" "a \<notin> cx_pinned cx" "conns w a = None" "\<not> shared_chan w a"
  using t cx_dropsD(8) [OF cx] capt_mono [of "StartServer s (Some a)" M a] invMD(4) [OF inv] a
  by (auto simp: tally_def owners_def cx_wf_def kinds_def shared_chan_def)

lemma srv_ok_without:
  assumes "srv_ok w s r" and "servers w s = Some r" and "\<not> acc_owned w a" and "conns w' = conns w" "acceptors w' = (acceptors w)(a := None)"
  shows "srv_ok w' s r"
proof -
  have "sv_acceptor r \<noteq> Some a" using assms(2,3) by (auto simp: acc_owned_def)
  with assms(1) show ?thesis by (auto simp: srv_ok_def assms(4,5))
qed

lemma invM_delete_acc:
  assumes inv: "invM cx0 w M" and cx: "cx_drops a cx0 cx" and a: "acceptors w a = Some r" "ac_acceptChannel r = None"
    and t: "tally cx w M a = 0"
    and w': "acceptors w' = (acceptors w)(a := None)" "expired w' = (expired w)(a := True)" "refs w' = (refs w)(a := 0)"
      "calls w' = (if 0 \<le> ac_idleFd r then calls w @ [SysClose (ac_idleFd r)] else calls w)"
      "conns w' = conns w" "servers w' = servers w" "udps w' = udps w" "chans w' = chans w" "bound w' = bound w" "held w' = held w"
      "pl_channels w' = pl_channels w" "ctl_trace w' = ctl_trace w" "lp_queue w' = lp_queue w" "lp_functors w' = lp_functors w"
  shows "invM cx w' M"
proof -
  note cxs = cx_dropsD [OF cx]
  have cnt: "counts cx0 w M" and kd: "kinds w" by (rule invMD(3,4) [OF inv])+
  note none = acc_no_refs [OF inv cx a(1) t]
  have maps: "in_map w' = in_map w" "acc_owned w' = acc_owned w"
    by (auto simp: fun_eq_iff in_map_def acc_owned_def w' split: option.splits)
  have srvs: "server_known w so \<Longrightarrow> server_alive w' so = server_alive w so \<and> server_known w' so" for so
    by (auto simp: server_alive_def server_known_def w' split: option.splits)
  have co: "chan_owned w' = chan_owned w"
    using a(2) unfolding fun_eq_iff chan_owned_def w' ex_map_del ex_map_split [of "acceptors w", OF a(1)] by simp
  have sc: "shared_chan w' = shared_chan w" by (auto simp: fun_eq_iff shared_chan_def w')
  have own: "own_fd w' x = ((own_fd w)(ListenOf a := -1, IdleOf a := -1)) x" for x by (cases x) (auto simp: w')
  show ?thesis
  proof (rule invM_other [OF inv])
    show "pend cx w' M" by (rule pend_cx [OF pend_cong [OF invMD(1) [OF inv]]]) (simp_all add: w' cxs)
    show "reactor_inv w'" by (rule reactor_inv_cong [OF _ _ _ invMD(2) [OF inv]]) (simp_all add: w')
    have "tally cx w' = tally cx w" by (rule tally_cong) (simp_all add: fun_eq_iff owners_def maps co w')
    then show "counts cx w' M"
      using cnt t none(3-5) cxs(8) unfolding counts_def by (auto simp: w' shared_def sc cxs(9) dest: cxs(10,11))
    show "kinds w'" using kd a(1) by (auto simp: kinds_def w')
    have "0 \<le> ac_acceptSocket r \<Longrightarrow> False" using invMD(9) [OF inv a(1)] a(2) by (auto simp: acc_ok_def)
    with fds_of_close_own [OF invMD(5) [OF inv, unfolded fds_iff], of "IdleOf a"] a(1) show "fds cx w'"
      unfolding fds_iff by (intro fds_of_cong [where own' = "own_fd w'"]) (auto simp: own w' cxs)
    show "task_ok w' t" if "t \<in># M" for t
      using invMD(6) [OF inv that] none(2) that srvs by (cases t) (fastforce simp: sc w')+
    show "srv_ok w' s sr" if "servers w' s = Some sr" for s sr
      by (rule srv_ok_without [OF invMD(8) [OF inv] _ none(1) w'(5,1)]) (use that in \<open>simp_all add: w'\<close>)
    show "acc_ok w' b rb" if "acceptors w' b = Some rb" for b rb
      by (rule acc_ok_transfer [OF invMD(9) [OF inv]]) (use that srvs in \<open>auto simp: w' split: if_splits\<close>)
    show "udp_ok w' u ru" if "udps w' u = Some ru" for u ru
      by (rule udp_ok_transfer [OF invMD(10) [OF inv]]) (use that in \<open>auto simp: w'\<close>)
    show "chan_has_owner cx w' x y" if x: "chans w' x = Some y" for x y
    proof -
      have "chan_has_owner cx0 w x y" using invMD(11) [OF inv] x by (simp add: w')
      then show ?thesis using a
        by (auto simp: chan_has_owner_def w' cxs split: option.splits owner.splits)
    qed
    show "act_ok w' M x" if "x \<in> cx_active cx0" for x
      by (rule act_ok_transfer [OF invMD(12) [OF inv that]]) (simp_all add: w')
  qed (use srvs in \<open>auto simp: maps cxs w'\<close>)
qed

lemma invM_delete_listening:
  assumes inv: "invM cx0 w M" and cx: "cx_drops a cx0 cx" and a: "acceptors w a = Some r" "ac_acceptChannel r = Some c"
    and t: "tally cx w M a = 0" and c: "chans w c = Some ch" and ch': "same_chan ch ch'" "ch_events ch' = kNoneEvent" "ch_index ch' = -1"
    and w': "acceptors w' = (acceptors w)(a := None)" "expired w' = (expired w)(a := True)"
      "refs w' = (refs w)(a := 0, c := refs w c + 1)"
      "calls w' = (if 0 \<le> ac_idleFd r then (calls w @ [SysClose (ac_acceptSocket r)]) @ [SysClose (ac_idleFd r)]
                   else calls w @ [SysClose (ac_acceptSocket r)])"
      "conns w' = conns w" "servers w' = servers w" "udps w' = udps w" "chans w' = (chans w)(c \<mapsto> ch')" "bound w' = bound w" "held w' = held w"
    and parts: "pend cx0 w' (add_mset (KeepChannel c) M)" "reactor_inv w'"
  shows "invM (cx_ref c cx) w' (add_mset (KeepChannel c) M)"
proof -
  note cxs = cx_dropsD [OF cx] and none = acc_no_refs [OF inv cx a(1) t]
  obtain ch0 where ch: "chans w c = Some ch0" "bound w c = Some (OwnAcceptor a)" "0 \<le> ac_acceptSocket r" "ch_tie ch0 = Some a"
    by (rule acc_channel [OF inv a])
  have un: "b = a" if "acceptors w b = Some rb" "ac_acceptChannel rb = Some c" for b rb
    using acc_channel [OF inv that] ch(2) by auto
  have un': "ud_channel ru \<noteq> Some c" if "udps w u = Some ru" for u ru
    using udp_channel [OF inv that, of c] ch(2) by fastforce
  have cnt: "counts cx0 w M" and kd: "kinds w" by (rule invMD(3,4) [OF inv])+
  have ac: "a \<noteq> c" using kd a(1) c by (auto simp: kinds_def)
  have maps: "in_map w' = in_map w" "acc_owned w' = acc_owned w"
    by (auto simp: fun_eq_iff in_map_def acc_owned_def w' split: option.splits)
  have srvs: "server_known w so \<Longrightarrow> server_alive w' so = server_alive w so \<and> server_known w' so" for so
    by (auto simp: server_alive_def server_known_def w' split: option.splits)
  have co: "chan_owned w' q \<longleftrightarrow> chan_owned w q \<and> q \<noteq> c" for q
    using a(2) un un' unfolding chan_owned_def w' ex_map_del ex_map_split [of "acceptors w", OF a(1)] by auto
  have sc: "shared_chan w' = shared_chan w" using c by (auto simp: fun_eq_iff shared_chan_def w')
  have own: "own_fd w' x = ((own_fd w)(ListenOf a := -1, IdleOf a := -1)) x" for x by (cases x) (auto simp: w')
  have keep: "shared_chan w c" using ch by (simp add: shared_chan_def)
  have owned: "chan_owned w c" using a by (auto simp: chan_owned_def)
  show ?thesis
  proof (rule invM_other [OF inv])
    show "pend (cx_ref c cx) w' (add_mset (KeepChannel c) M)" by (rule pend_cx [OF parts(1)]) (simp_all add: cxs)
    have "tally (cx_ref c cx) w' (add_mset (KeepChannel c) M) q = tally cx w M q + of_bool (q = c)" for q
      using owned by (auto simp: tally_def owners_def maps co w')
    then show "counts (cx_ref c cx) w' (add_mset (KeepChannel c) M)"
      using cnt t none(3-5) cxs(8) keep ac unfolding counts_def
      by (auto simp: w' shared_def sc cxs(9) cx_wf_ref dest: cxs(10,11))
    show "kinds w'" using kd a(1) c by (auto simp: kinds_def w')
    have "fds_of ((own_fd w)(ListenOf a := -1)) (calls w @ [SysClose (ac_acceptSocket r)]) (cx_fds cx0) (cx_reserved cx0)"
      using fds_of_close_own [OF invMD(5) [OF inv, unfolded fds_iff], of "ListenOf a"] a(1) ch(3) by simp
    from fds_of_close_own [OF this, of "IdleOf a"] a(1) show "fds (cx_ref c cx) w'"
      unfolding fds_iff by (intro fds_of_cong [where own' = "own_fd w'"]) (auto simp: own w' cxs)
    show "task_ok w' t" if "t \<in># add_mset (KeepChannel c) M" for t
      using invMD(6) [OF inv, of t] none(2) that srvs keep by (cases t) (fastforce simp: sc w')+
    show "srv_ok w' s sr" if "servers w' s = Some sr" for s sr
      by (rule srv_ok_without [OF invMD(8) [OF inv] _ none(1) w'(5,1)]) (use that in \<open>simp_all add: w'\<close>)
    show "acc_ok w' b rb" if "acceptors w' b = Some rb" for b rb
      by (rule acc_ok_transfer [OF invMD(9) [OF inv]]) (use that srvs un in \<open>auto simp: w' split: if_splits\<close>)
    show "udp_ok w' u ru" if "udps w' u = Some ru" for u ru
      by (rule udp_ok_transfer [OF invMD(10) [OF inv]]) (use that un' in \<open>auto simp: w'\<close>)
    show "chan_has_owner (cx_ref c cx) w' x y" if x: "chans w' x = Some y" for x y
    proof (cases "x = c")
      case True
      then show ?thesis using x ch ch' c by (auto simp: chan_has_owner_def w' same_chan_def)
    next
      case False
      then have "chan_has_owner cx0 w x y" using invMD(11) [OF inv] x by (simp add: w')
      with False a show ?thesis by (auto simp: chan_has_owner_def w' cxs split: option.splits owner.splits)
    qed
    show "act_ok w' (add_mset (KeepChannel c) M) x" if "x \<in> cx_active cx0" for x
      using invMD(12) [OF inv that] c ch' ch(2) by (auto simp: act_ok_def w' same_chan_def)
  qed (use srvs parts ch(2) in \<open>auto simp: maps cxs w'\<close>)
qed

lemma close_if_open_fields [simp]:
  "conns (close_if_open f w) = conns w" "acceptors (close_if_open f w) = acceptors w" "servers (close_if_open f w) = servers w"
  "udps (close_if_open f w) = udps w" "bound (close_if_open f w) = bound w" "expired (close_if_open f w) = expired w"
  "held (close_if_open f w) = held w" "refs (close_if_open f w) = refs w" "chans (close_if_open f w) = chans w"
  "pl_channels (close_if_open f w) = pl_channels w" "ctl_trace (close_if_open f w) = ctl_trace w"
  "lp_queue (close_if_open f w) = lp_queue w" "lp_functors (close_if_open f w) = lp_functors w"
  by (simp_all add: close_if_open_def sock_close_def log_call_def)

lemma cx_drops_ref: "cx_drops p cx0 cx \<Longrightarrow> cx_drops p (cx_ref q cx0) (cx_ref q cx)"
  by (auto simp: cx_drops_def cx_wf_ref fun_eq_iff)

lemma Acceptor_destroy_inv:
  assumes inv: "invM cx0 w M" and cx: "cx_drops a cx0 cx" and a: "acceptors w a = Some r" and t: "tally cx w M a = 0"
    and os: "os_ok Z os"
  shows "wpR (Acceptor_destroy os True a (w\<lparr>refs := (refs w)(a := 0)\<rparr>)) (inv cx)"
proof (cases "ac_acceptChannel r")
  case None
  let ?w = "close_if_open (ac_idleFd r) (close_if_open (ac_acceptSocket r)
     (w\<lparr>refs := (refs w)(a := 0), expired := (expired w)(a := True), acceptors := (acceptors w)(a := None)\<rparr>))"
  have "ac_acceptSocket r < 0" using invMD(9) [OF inv a] None by (simp add: acc_ok_def)
  then have "invM cx ?w M" by (intro invM_delete_acc [OF inv cx a None t]) simp_all
  then have "inv cx ?w" by (auto simp: inv_def)
  with None a show ?thesis
    by (simp add: Acceptor_destroy_def cleanupAcceptor_def run_CleanupAcceptor_def release_chan_opt_def)
next
  case (Some c)
  let ?w1 = "w\<lparr>refs := (refs w)(a := 0), expired := (expired w)(a := True), acceptors := (acceptors w)(a := None)\<rparr>"
  obtain ch where ch: "chans w c = Some ch" "bound w c = Some (OwnAcceptor a)" "0 \<le> ac_acceptSocket r"
    by (rule acc_channel [OF inv a Some])
  have ac: "a \<noteq> c" using invMD(4) [OF inv] a ch by (auto simp: kinds_def)
  have r: "reactor_inv ?w1" by (rule reactor_inv_cong [OF _ _ _ invMD(2) [OF inv]]) simp_all
  have free: "fd_free c ?w1" using acc_fd_free [OF inv a Some] fd_free_cong [where w' = ?w1 and w = w] by simp
  let ?fin = "\<lambda>w'. close_if_open (ac_idleFd r) (close_if_open (ac_acceptSocket r) w')"
  have fin: "wpR (release_chan c (?fin w')) (inv cx)"
    if w': "\<exists>w2 ch'. w' = queueTask True (KeepChannel c) w2 \<and> reactor_inv w2 \<and> chan_effect c ch ?w1 w2 ch'
       \<and> ch_events ch' = kNoneEvent \<and> ch_index ch' = -1" for w'
  proof -
    obtain w2 ch' where w2: "w' = queueTask True (KeepChannel c) w2" "reactor_inv w2" "chan_effect c ch ?w1 w2 ch'"
      "ch_events ch' = kNoneEvent" "ch_index ch' = -1" using w' by blast
    note more = chan_effect_more [OF w2(3)] and eqs = same_objectsD(1-7) [OF chan_effect_more(1) [OF w2(3)]]
    have "pend cx0 w2 M" by (rule pend_cong [OF invMD(1) [OF inv]]) (simp_all add: more)
    then have "pend cx0 (queueTask True (KeepChannel c) w2) (add_mset (KeepChannel c) M)" by (rule pend_queue)
    then have "pend cx0 (?fin w') (add_mset (KeepChannel c) M)" by (rule pend_cong) (simp_all add: w2(1))
    moreover have "reactor_inv (?fin w')" by (rule reactor_inv_cong [of _ w2]) (simp_all add: w2)
    ultimately have "invM (cx_ref c cx) (?fin w') (add_mset (KeepChannel c) M)"
      using ac ch(3) more eqs w2(4,5)
      by (intro invM_delete_listening [OF inv cx a Some t ch(1), of ch']) (simp_all add: w2(1) fun_eq_iff)
    then have "inv (cx_ref c cx) (?fin w')" by (auto simp: inv_def)
    moreover have "shared_chan (?fin w') c" using more eqs ch by (simp add: shared_chan_def w2(1))
    ultimately show ?thesis by (rule release_chan_drops [OF _ cx_drops_intro(2) [OF cx_dropsD(8) [OF cx]]])
  qed
  have chw1: "chans ?w1 c = Some ch" using ch(1) by simp
  have "wpR (bindR (disableAll (os_ctl os) True c ?w1) (\<lambda>w1. bindR (Channel_remove (os_ctl os) True c w1) (\<lambda>w2.
      Inr (queueTask True (KeepChannel c) w2)))) (\<lambda>w'. wpR (release_chan c (?fin w')) (inv cx))"
    by (rule wpF_mono [OF detach_chan [OF r chw1 free os]]) (rule fin)
  with Some a show ?thesis
    by (simp add: Acceptor_destroy_def cleanupAcceptor_def run_CleanupAcceptor_def release_chan_opt_def)
qed

lemma release_acceptor_drops:
  assumes "inv cx0 w" and cx: "cx_drops a cx0 cx" and a: "acceptors w a = Some r" and os: "os_ok Z os"
  shows "wpR (release_acceptor os True a w) (inv cx)"
proof -
  obtain M where inv: "invM cx0 w M" using assms(1) by (auto simp: inv_def)
  have refs: "refs w a = tally cx w M a + 1" using invMD(3) [OF inv] cx_dropsD(9) [OF cx] by (simp add: counts_def)
  show ?thesis
  proof (cases "tally cx w M a = 0")
    case True
    with Acceptor_destroy_inv [OF inv cx a True os] refs show ?thesis by (simp add: release_acceptor_def Let_def)
  next
    case False
    then have "invM cx (w\<lparr>refs := (refs w)(a := refs w a - 1)\<rparr>) M" by (intro invM_drop_ref [OF inv cx]) simp_all
    with False refs show ?thesis by (auto simp: release_acceptor_def Let_def inv_def)
  qed
qed

text \<open>Dropping any reference.\<close>

lemma release_drops:
  assumes inv: "inv cx0 w" and cx: "cx_drops p cx0 cx" and os: "os_ok Z os"
  shows "wpR (release os True p w) (inv cx)"
proof -
  obtain M where M: "invM cx0 w M" using inv by (auto simp: inv_def)
  have "0 < refs w p" using invMD(3) [OF M] cx_dropsD(9) [OF cx, of w M p] by (simp add: counts_def)
  then have "shared w p" using invMD(3) [OF M] unfolding counts_def by blast
  then show ?thesis
    using release_conn_drops [OF inv cx] release_acceptor_drops [OF inv cx _ os] release_chan_drops [OF inv cx]
    by (auto simp: release_def shared_def)
qed

end
