(* ===== verification/Teardown.thy ===== *)
theory Teardown
  imports Holders
begin

text \<open>
  The end of connections and servers: \<open>connectDestroyed\<close>, which closes the descriptor, and the destructor of a
  server, which takes the connections out of the map and destroys them one by one.
\<close>

subsection \<open>Closing the descriptor of a connection\<close>

lemma conn_gone:
  assumes inv: "invM cx w M" and p: "conns w p = Some k" "cn_state k = kDisconnected" "0 \<le> cn_socketFd k" "\<not> in_map w p"
      "cn_channel k \<notin> fst ` cx_active cx"
    and cx': "cx_active cx' = cx_active cx" "cx_fds cx' = cx_fds cx" "cx_reserved cx' = cx_reserved cx"
      "\<And>q. q \<noteq> p \<Longrightarrow> q \<in> cx_closing cx' \<longleftrightarrow> q \<in> cx_closing cx" "\<And>q. q \<noteq> p \<Longrightarrow> q \<in> cx_dropping cx' \<longleftrightarrow> q \<in> cx_dropping cx"
      "p \<notin> cx_dropping cx'" "p \<in> cx_closing cx' \<Longrightarrow> \<not> server_alive w (cn_closeCb k)"
    and M': "pend cx' w M'" "counts cx' w M'" "\<And>t. t \<in># M' \<Longrightarrow> t \<in># M" "\<And>c. KeepChannel c \<in># M \<Longrightarrow> KeepChannel c \<in># M'"
      "\<And>q. q \<noteq> p \<Longrightarrow> count M' (ConnectDestroyed q) = count M (ConnectDestroyed q)" "count M' (ConnectDestroyed p) = 0"
  shows "wpR (bindR (Channel_remove (os_ctl os) True (cn_channel k) w) (closeSocket p)) (\<lambda>w'. invM cx' w' M')"
proof -
  obtain c where c: "chans w (cn_channel k) = Some c" "conn_chan p k c" "conn_stream (calls w) k"
    using conn_okD [OF inv p(1)] by metis
  have ev: "ch_events c = kNoneEvent" using c(2) p(2) by (simp add: conn_chan_def conn_events_def)
  let ?k = "k\<lparr>cn_socketFd := -1\<rparr>"
  have fin: "invM cx' (w2\<lparr>conns := (conns w)(p \<mapsto> ?k), calls := calls w @ [SysClose (cn_socketFd k)]\<rparr>) M' \<and> conns w2 p = Some k \<and> calls w2 = calls w \<and> conns w2 = conns w"
    if w2: "reactor_inv w2 \<and> (\<exists>c'. chan_effect (cn_channel k) c w w2 c' \<and> ch_events c' = kNoneEvent \<and> ch_index c' = -1)" for w2
  proof -
    obtain c' where c': "chan_effect (cn_channel k) c w w2 c'" "ch_events c' = kNoneEvent" "ch_index c' = -1" using w2 by blast
    note more = chan_effect_more [OF c'(1)] and eqs = same_objectsD(1-7) [OF chan_effect_more(1) [OF c'(1)]]
    let ?w' = "w2\<lparr>conns := (conns w)(p \<mapsto> ?k), calls := calls w @ [SysClose (cn_socketFd k)]\<rparr>"
    have own: "own_fd ?w' x = ((own_fd w)(SockOf p := -1)) x" for x by (cases x) (auto simp: eqs)
    have "invM cx' ?w' M'"
    proof (rule invM_conn_step [OF inv p(1) c(1), of ?w' ?k c'])
      show "reactor_inv ?w'" by (rule reactor_inv_cong [of _ w2]) (use w2 in simp_all)
      show "fds cx' ?w'"
        using fds_of_close_own [OF invMD(5) [OF inv, unfolded fds_iff], of "SockOf p"] p(1,3)
        unfolding fds_iff by (intro fds_of_cong [where own' = "own_fd ?w'"]) (auto simp: own cx')
      show "pend cx' ?w' M'" by (rule pend_cong [OF M'(1)]) (simp_all add: more)
      have "owners ?w' = owners w" by (auto simp: fun_eq_iff owners_def in_map_def acc_owned_def chan_owned_def eqs)
      then have "tally cx' ?w' = tally cx' w" by (rule tally_cong) (simp add: eqs)
      moreover have "shared ?w' = shared w" using p(1) c(1) by (auto simp: fun_eq_iff shared_def shared_chan_def eqs more)
      ultimately show "counts cx' ?w' M'" using M'(2) p(1) by (auto simp: counts_def eqs more)
      show "conn_life (p \<in> cx_closing cx') (p \<in> cx_dropping cx') (in_map w p) (count M' (ConnectDestroyed p))
         (server_alive w (cn_closeCb ?k)) ?k"
        using p(2,4) cx'(6,7) M'(6) by (simp add: conn_life_def)
      show "conn_chan p ?k c'" using c(2) c' more(7) p(2) by (simp add: conn_chan_def conn_events_def same_chan_def)
    qed (use c' more(6,7) eqs p cx' M' in \<open>auto simp: same_chan_def conn_stream_def\<close>)
    then show ?thesis using eqs p(1) more(2) by simp
  qed
  have "wpR (Channel_remove (os_ctl os) True (cn_channel k) w) (\<lambda>w2. wpR (closeSocket p w2) (\<lambda>w'. invM cx' w' M'))"
  proof (rule wpF_mono [OF remove_spec [OF invMD(2) [OF inv] c(1) ev]])
    fix w2 assume "reactor_inv w2 \<and> (\<exists>c'. chan_effect (cn_channel k) c w w2 c' \<and> ch_events c' = kNoneEvent \<and> ch_index c' = -1)"
    from fin [OF this] p(3) show "wpR (closeSocket p w2) (\<lambda>w'. invM cx' w' M')"
      by (auto simp: closeSocket_def upd_conn_def sock_close_def log_call_def)
  qed
  then show ?thesis by simp
qed

subsection \<open>Dropping a connection\<close>

definition cx_drop :: "ptr \<Rightarrow> ctx \<Rightarrow> ctx" where
  "cx_drop p cx = (cx_guard p cx)\<lparr>cx_dropping := insert p (cx_dropping cx)\<rparr>"

lemma cx_drop_simps [simp]:
  "cx_closing (cx_drop p cx) = cx_closing cx" "cx_dropping (cx_drop p cx) = insert p (cx_dropping cx)"
  "cx_active (cx_drop p cx) = cx_active cx" "cx_fds (cx_drop p cx) = cx_fds cx"
  "cx_reserved (cx_drop p cx) = cx_reserved cx" "cx_running (cx_drop p cx) = cx_running cx"
  "cx_local (cx_drop p cx) = cx_local cx" "cx_guarded (cx_drop p cx) = insert p (cx_guarded cx)"
  "cx_pinned (cx_drop p cx) = cx_pinned cx" "cx_guards (cx_drop p cx) = (cx_guards cx)(p := cx_guards cx p + 1)"
  "tally (cx_drop p cx) w M q = tally cx w M q + of_bool (q = p)"
  by (simp_all add: cx_drop_def tally_def)

lemma life_dropping: "conn_life x t m d a k \<Longrightarrow> t \<Longrightarrow> 0 \<le> cn_socketFd k \<and> \<not> m \<and> d = 0 \<and> \<not> a"
  unfolding conn_life_def by blast

lemma dropping_conn:
  assumes "invM cx w M" and "conns w p = Some k" and "p \<in> cx_dropping cx"
  shows "0 \<le> cn_socketFd k" "\<not> in_map w p" "count M (ConnectDestroyed p) = 0" "\<not> server_alive w (cn_closeCb k)"
  using conn_okD [OF assms(1,2)] life_dropping [OF _ assms(3)] by metis+

lemma drop_close_cb:
  assumes inv: "invM (cx_drop p cx) w M" and p: "conns w p = Some k"
  shows "invM (cx_drop p cx) (w\<lparr>conns := (conns w)(p \<mapsto> k\<lparr>cn_closeCb := None\<rparr>)\<rparr>) M"
proof -
  obtain c where c: "chans w (cn_channel k) = Some c" "conn_chan p k c" "conn_stream (calls w) k"
    "conn_life (p \<in> cx_closing (cx_drop p cx)) (p \<in> cx_dropping (cx_drop p cx)) (in_map w p) (count M (ConnectDestroyed p))
       (server_alive w (cn_closeCb k)) k"
    using conn_okD [OF inv p] by metis
  have t: "p \<in> cx_dropping (cx_drop p cx)" by simp
  note fd = dropping_conn [OF inv p t]
  let ?k = "k\<lparr>cn_closeCb := None\<rparr>" and ?w = "w\<lparr>conns := (conns w)(p \<mapsto> k\<lparr>cn_closeCb := None\<rparr>)\<rparr>"
  have "reactor_inv ?w" by (rule reactor_inv_cong [OF _ _ _ invMD(2) [OF inv]]) simp_all
  moreover have "chan_effect (cn_channel k) c ?w ?w c" using c(1) by (intro chan_effect_refl) simp
  moreover have "conn_life (p \<in> cx_closing (cx_drop p cx)) (p \<in> cx_dropping (cx_drop p cx)) (in_map w p) (count M (ConnectDestroyed p))
       (server_alive w (cn_closeCb ?k)) ?k"
    using c(4) fd by (simp add: conn_life_def server_alive_def)
  ultimately show "invM (cx_drop p cx) ?w M"
    by (intro invM_conn_events [OF inv p c(1), of ?k "calls w"])
      (use c fd in \<open>auto simp: conn_chan_def conn_events_def conn_stream_def\<close>)
qed

lemma connectDestroyed_drop:
  assumes inv: "inv (cx_drop p cx) w" and p: "conns w p = Some k" and cx: "cx_wf cx" "p \<notin> cx_dropping cx" "cx_active cx = {}"
    and env: "env_ok e" and os: "os_ok (cx_reserved cx) (e_os e)"
  shows "wpF limits (connectDestroyed e True p w) (inv (cx_guard p cx))"
proof -
  have gone: "wpR (bindR (Channel_remove (os_ctl (e_os e)) True (cn_channel k') w') (closeSocket p)) (inv (cx_guard p cx))"
    if w': "inv cx' w'" "cx' = cx_drop p cx \<or> cx' = cx_close p (cx_drop p cx)"
      "conns w' p = Some k'" "cn_state k' = kDisconnected" for w' k' cx'
  proof -
    obtain M where M: "invM cx' w' M" using w'(1) by (auto simp: inv_def)
    have "p \<in> cx_dropping cx'" using w'(2) by auto
    note life = dropping_conn [OF M w'(3) this]
    have eqs: "cx_active cx' = cx_active cx" "cx_fds cx' = cx_fds cx" "cx_reserved cx' = cx_reserved cx" "cx_running cx' = cx_running cx"
      "cx_local cx' = cx_local cx" "tally cx' = tally (cx_drop p cx)" "cx_guarded cx' = insert p (cx_guarded cx)" "cx_pinned cx' = cx_pinned cx"
      using w'(2) by auto
    have "counts (cx_guard p cx) w' M"
      using invMD(3) [OF M] cx_wf_guard [OF cx(1), of p] unfolding counts_def eqs by auto
    moreover have "pend (cx_guard p cx) w' M" by (rule pend_cx [OF invMD(1) [OF M]]) (simp_all add: eqs)
    ultimately have "wpR (bindR (Channel_remove (os_ctl (e_os e)) True (cn_channel k') w') (closeSocket p)) (\<lambda>w''. invM (cx_guard p cx) w'' M)"
      by (intro conn_gone [OF M w'(3,4)]) (use life w'(2) cx(2,3) in auto)
    then show ?thesis by (rule wpF_mono) (auto simp: inv_def)
  qed
  show ?thesis
  proof (cases "cn_state k = kDisconnected")
    case True
    from wpX [OF gone [OF inv _ p True]] True p show ?thesis by (simp add: connectDestroyed_def assertInLoopThread_def)
  next
    case False
    obtain M c where M: "invM (cx_drop p cx) w M" "conn_chan p k c" "conn_stream (calls w) k" by (rule inv_connE [OF inv p])
    have os': "os_ok (cx_reserved (cx_drop p cx)) (e_os e)" using os by simp
    have "in_send w p k (cn_sent k) (calls w) w" using M conn_open [OF M(2) False] by (intro in_send_refl p) simp_all
    note beg = close_begin [OF M(1) this False os']
    have cb: "wpF limits (if cn_connectionCb k then e_cb e (CbConnection p kDisconnected) w2 else Inr w2) (inv (cx_close p (cx_drop p cx)))"
      if "inv (cx_close p (cx_drop p cx)) w2" for w2
      using env_ok_cb [OF env _ that, of "CbConnection p kDisconnected"] that os by simp
    have fin: "wpF limits (derefR (conns w3 p) (\<lambda>k'. bindR (Channel_remove (os_ctl (e_os e)) True (cn_channel k') w3) (closeSocket p)))
        (inv (cx_guard p cx))" if w3: "inv (cx_close p (cx_drop p cx)) w3" for w3
    proof -
      obtain k' where k': "conns w3 p = Some k'" using w3 by (fastforce simp: inv_def counts_def dest!: invMD(3))
      obtain M' c' where "conn_life (p \<in> cx_closing (cx_close p (cx_drop p cx))) (p \<in> cx_dropping (cx_close p (cx_drop p cx)))
         (in_map w3 p) (count M' (ConnectDestroyed p)) (server_alive w3 (cn_closeCb k')) k'" by (rule inv_connE [OF w3 k'])
      then have "cn_state k' = kDisconnected" using life_closing by fastforce
      from wpX [OF gone [OF w3 _ k' this]] k' show ?thesis by simp
    qed
    have "wpF limits (bindR (setState p kDisconnected w) (disableAll (os_ctl (e_os e)) True (cn_channel k)))
      (\<lambda>w2. wpF limits (if cn_connectionCb k then e_cb e (CbConnection p kDisconnected) w2 else Inr w2)
        (\<lambda>w3. wpF limits (derefR (conns w3 p) (\<lambda>k'. bindR (Channel_remove (os_ctl (e_os e)) True (cn_channel k') w3) (closeSocket p)))
          (inv (cx_guard p cx))))"
      by (rule wpF_weaken [OF beg]) (simp, rule wpF_mono [OF cb fin], auto simp: inv_def)
    with False p show ?thesis by (simp add: connectDestroyed_def assertInLoopThread_def)
  qed
qed

lemma cx_wf_drop: "cx_wf cx \<Longrightarrow> cx_wf (cx_drop p cx)"
  by (auto simp: cx_wf_def)

lemma cx_drop_guard: "cx_guard p (cx_drop p cx) = cx_drop p (cx_guard p cx)"
  by (simp add: cx_drop_def cx_guard_def)

lemma drop_conn_inv:
  assumes inv: "inv (cx_drop p cx) w" and cx: "cx_wf cx" "p \<notin> cx_dropping cx" "cx_active cx = {}"
    and env: "env_ok e" and os: "os_ok (cx_reserved cx) (e_os e)"
  shows "wpF limits (drop_conn e True (name, p) w) (inv cx)"
proof -
  obtain M where M: "invM (cx_drop p cx) w M" using inv by (auto simp: inv_def)
  then obtain k where k: "conns w p = Some k" using invMD(3) by (fastforce simp: counts_def)
  let ?w1 = "w\<lparr>conns := (conns w)(p \<mapsto> k\<lparr>cn_closeCb := None\<rparr>)\<rparr>"
  have "invM (cx_guard p (cx_drop p cx)) (acquire p ?w1) M" by (rule invM_acquire [OF drop_close_cb [OF M k]]) simp
  then have "inv (cx_drop p (cx_guard p cx)) (acquire p ?w1)" unfolding cx_drop_guard by (auto simp: inv_def)
  then have cd: "wpF limits (connectDestroyed e True p (acquire p ?w1)) (inv (cx_guard p (cx_guard p cx)))"
    by (rule connectDestroyed_drop [where k = "k\<lparr>cn_closeCb := None\<rparr>"]) (use cx env os cx_wf_guard in simp_all)
  have rel: "wpF limits (release_conn p w2) (\<lambda>w3. wpF limits (release_conn p w3) (inv cx))"
    if w2: "inv (cx_guard p (cx_guard p cx)) w2" for w2
    by (rule wpF_mono [OF wpX [OF release_conn_inv [OF w2 cx_wf_guard [OF cx(1)]]]]) (rule wpX [OF release_conn_inv [OF _ cx(1)]])
  from wpF_mono [OF cd rel] k show ?thesis by (simp add: drop_conn_def upd_conn_def)
qed

abbreviation cx_drop_all :: "ptr list \<Rightarrow> ctx \<Rightarrow> ctx" where
  "cx_drop_all ps cx \<equiv> foldr cx_drop ps cx"

lemma cx_drop_all_simps [simp]:
  "cx_closing (cx_drop_all ps cx) = cx_closing cx" "cx_dropping (cx_drop_all ps cx) = set ps \<union> cx_dropping cx"
  "cx_active (cx_drop_all ps cx) = cx_active cx" "cx_fds (cx_drop_all ps cx) = cx_fds cx"
  "cx_reserved (cx_drop_all ps cx) = cx_reserved cx" "cx_running (cx_drop_all ps cx) = cx_running cx"
  "cx_local (cx_drop_all ps cx) = cx_local cx" "cx_guarded (cx_drop_all ps cx) = set ps \<union> cx_guarded cx"
  "cx_pinned (cx_drop_all ps cx) = cx_pinned cx" "tally (cx_drop_all ps cx) w M q = tally cx w M q + count_list ps q"
  "cx_wf cx \<Longrightarrow> cx_wf (cx_drop_all ps cx)" "cx_guards (cx_drop_all ps cx) q = cx_guards cx q + count_list ps q"
  by (induction ps) (auto simp: cx_wf_drop)

lemma drop_conns_inv:
  assumes "inv (cx_drop_all (map snd xs) cx) w" and "cx_wf cx" "distinct (map snd xs)" "set (map snd xs) \<inter> cx_dropping cx = {}" "cx_active cx = {}"
    and env: "env_ok e" and os: "os_ok (cx_reserved cx) (e_os e)"
  shows "wpF limits (foldR (drop_conn e True) xs w) (inv cx)"
  using assms(1-5)
proof (induction xs arbitrary: w)
  case Nil
  then show ?case by simp
next
  case (Cons x xs)
  obtain name p where x: "x = (name, p)" by force
  have "wpF limits (drop_conn e True (name, p) w) (inv (cx_drop_all (map snd xs) cx))"
    using Cons.prems env os by (intro drop_conn_inv) (auto simp: x)
  then have "wpF limits (drop_conn e True (name, p) w) (\<lambda>w'. wpF limits (foldR (drop_conn e True) xs w') (inv cx))"
    by (rule wpF_mono) (rule Cons.IH, use Cons.prems in auto)
  then show ?case by (simp add: x)
qed

subsection \<open>Servers\<close>

lemma count_list_distinct: "distinct xs \<Longrightarrow> count_list xs x = of_bool (x \<in> set xs)"
  by (induction xs) auto

lemma srv_entry:
  "srv_ok w s r \<Longrightarrow> (nm, p) \<in> set (sv_connections r) \<Longrightarrow> \<exists>k. conns w p = Some k \<and> cn_name k = nm \<and> cn_closeCb k = Some s"
  unfolding srv_ok_def by blast

lemma conns_distinct:
  assumes inv: "invM cx w M" and s: "servers w s = Some r"
  shows "distinct (map snd (sv_connections r))"
proof -
  have ok: "srv_ok w s r" by (rule invMD(8) [OF inv s])
  have "distinct (map fst (sv_connections r))" using ok by (auto simp: srv_ok_def intro: sorted_wrt_less_distinct)
  moreover have "nm = nm'" if "(nm, p) \<in> set (sv_connections r)" "(nm', p) \<in> set (sv_connections r)" for nm nm' p
    using srv_entry [OF ok that(1)] srv_entry [OF ok that(2)] by auto
  ultimately show ?thesis by (auto simp: distinct_map inj_on_def)
qed

lemma life_dead: "conn_life x t False d a k \<Longrightarrow> conn_life x t False d False k"
  unfolding conn_life_def by blast

lemma life_drop: "conn_life x t True d a k \<Longrightarrow> conn_life x True False d False k"
  unfolding conn_life_def by blast

lemma server_gone:
  assumes inv: "invM cx w M" and s: "servers w s = Some r" "sv_acceptor r = Some a"
    and w': "w' = w\<lparr>expired := (expired w)(s := True), servers := (servers w)(s := None)\<rparr>"
  shows "invM (cx_ref a (cx_drop_all (map snd (sv_connections r)) cx)) w' M" (is "invM ?cx w' M")
    "set (map snd (sv_connections r)) \<inter> cx_dropping cx = {}"
proof -
  let ?ps = "map snd (sv_connections r)"
  have eqs: "conns w' = conns w" "acceptors w' = acceptors w" "servers w' = (servers w)(s := None)" "udps w' = udps w"
    "expired w' = (expired w)(s := True)" "held w' = held w" "calls w' = calls w" "refs w' = refs w" "chans w' = chans w" "bound w' = bound w"
    by (simp_all add: w')
  have cnt: "counts cx w M" and kd: "kinds w" by (rule invMD(3,4) [OF inv])+
  have ok: "srv_ok w s r" by (rule invMD(8) [OF inv s(1)])
  have here: "\<exists>k. conns w p = Some k \<and> cn_closeCb k = Some s" if "p \<in> set ?ps" for p
    using srv_entry [OF ok] that by fastforce
  have uniq: "s' = s" if "servers w s' = Some r'" "p \<in> snd ` set (sv_connections r')" "p \<in> set ?ps" for s' r' p
    using here [OF that(3)] in_map_entry(1) [OF inv _ that(1,2)] by fastforce
  have map: "in_map w' p \<longleftrightarrow> in_map w p \<and> p \<notin> set ?ps" for p
  proof -
    have "in_map w' p \<longleftrightarrow> (\<exists>s0 r0. s0 \<noteq> s \<and> servers w s0 = Some r0 \<and> p \<in> snd ` set (sv_connections r0))"
      unfolding in_map_def eqs ex_map_del ..
    moreover have "p \<in> set ?ps \<longleftrightarrow> p \<in> snd ` set (sv_connections r)" by simp
    ultimately show ?thesis using uniq [of _ _ p] in_map_split [OF s(1), of p] by blast
  qed
  have in_ps: "in_map w p" if "p \<in> set ?ps" for p using that unfolding in_map_split [OF s(1)] by simp
  have acc: "acc_owned w' q \<longleftrightarrow> acc_owned w q \<and> q \<noteq> a" for q
  proof -
    have "s' = s" if "servers w s' = Some r'" "sv_acceptor r' = Some a" for s' r'
      using invMD(8) [OF inv that(1)] ok that s(2) by (auto simp: srv_ok_def)
    then show ?thesis
      unfolding acc_owned_def eqs ex_map_del ex_map_split [of "servers w", OF s(1)] using s(2) by (metis option.inject)
  qed
  have co: "chan_owned w' = chan_owned w" by (simp add: fun_eq_iff chan_owned_def eqs)
  have sc: "shared_chan w' = shared_chan w" by (auto simp: fun_eq_iff shared_chan_def eqs)
  have known: "server_known w so \<Longrightarrow> server_known w' so" for so by (auto simp: server_known_def eqs split: option.splits)
  have alive: "server_alive w' so \<longleftrightarrow> server_alive w so \<and> so \<noteq> Some s" for so by (auto simp: server_alive_def eqs split: option.splits)
  have life: "p \<in> set ?ps \<Longrightarrow> p \<notin> cx_dropping cx" for p
    using dropping_conn(2) [OF inv _] here in_ps by blast
  then show "set ?ps \<inter> cx_dropping cx = {}" by blast
  have conn: "conn_ok ?cx w' M p k" if p: "conns w p = Some k" for p k
  proof -
    obtain c where c: "chans w (cn_channel k) = Some c" "bound w (cn_channel k) = Some (OwnConn p)" "conn_chan p k c"
      "conn_stream (calls w) k" "server_known w (cn_closeCb k)"
      "conn_life (p \<in> cx_closing cx) (p \<in> cx_dropping cx) (in_map w p) (count M (ConnectDestroyed p)) (server_alive w (cn_closeCb k)) k"
      using conn_okD [OF inv p] by metis
    have "conn_life (p \<in> cx_closing ?cx) (p \<in> cx_dropping ?cx) (in_map w' p) (count M (ConnectDestroyed p)) (server_alive w' (cn_closeCb k)) k"
    proof (cases "p \<in> set ?ps")
      case True
      then have "cn_closeCb k = Some s" using here [OF True] p by auto
      with True life_drop [of "p \<in> cx_closing cx" _ "count M (ConnectDestroyed p)"] c(6) in_ps [OF True] show ?thesis
        by (simp add: map alive)
    next
      case False
      show ?thesis
      proof (cases "cn_closeCb k = Some s")
        case True
        have "\<not> in_map w p"
          using False True in_map_entry(1) [OF inv p] unfolding in_map_split [OF s(1)] set_map by (metis option.inject)
        with False True life_dead c(6) show ?thesis by (simp add: map alive)
      next
        case other: False
        with False c(6) show ?thesis by (simp add: map alive)
      qed
    qed
    with c known show ?thesis by (auto simp: conn_ok_def eqs)
  qed
  show "invM ?cx w' M"
    unfolding invM_def
  proof (intro conjI allI ballI impI)
    show "pend ?cx w' M" by (rule pend_cx [OF pend_cong [OF invMD(1) [OF inv]]]) (simp_all add: w')
    show "reactor_inv w'" by (rule reactor_inv_cong [OF _ _ _ invMD(2) [OF inv]]) (simp_all add: w')
    have "tally ?cx w' M q = tally cx w M q" for q
    proof -
      have "acc_owned w a" using s by (auto simp: acc_owned_def)
      moreover have "count_list ?ps q = of_bool (q \<in> set ?ps)" using conns_distinct [OF inv s(1)] by (rule count_list_distinct)
      moreover have "tally ?cx w' M q = tally (cx_drop_all ?ps cx) w' M q + of_bool (q = a)" by (simp add: tally_def)
      ultimately show ?thesis using in_ps [of q] by (auto simp: tally_def owners_def map acc co eqs)
    qed
    moreover have "shared w' = shared w" by (auto simp: fun_eq_iff shared_def sc eqs)
    moreover have "cx_wf ?cx" using cnt by (intro cx_wf_ref cx_drop_all_simps(11)) (simp add: counts_def)
    moreover have "conns w p \<noteq> None" if "(nm, p) \<in> set (sv_connections r)" for nm p using srv_entry [OF ok that] by auto
    ultimately show "counts ?cx w' M" using cnt unfolding counts_def by (auto simp: eqs)
    show "kinds w'" using kd s(1) by (auto simp: kinds_def eqs)
    have "own_fd w' = own_fd w" by (rule own_fd_cong) (simp_all add: eqs)
    then show "fds ?cx w'" using invMD(5) [OF inv] by (simp add: fds_def eqs)
    show "task_ok w' t" if "t \<in># M" for t using invMD(6) [OF inv that] known by (cases t) (auto simp: sc eqs)
    show "conn_ok ?cx w' M p k" if "conns w' p = Some k" for p k using conn that by (simp add: eqs)
    show "srv_ok w' s' r'" if "servers w' s' = Some r'" for s' r'
      using invMD(8) [OF inv, of s' r'] that by (simp add: srv_ok_def eqs split: if_splits)
    show "acc_ok w' b rb" if "acceptors w' b = Some rb" for b rb
      by (rule acc_ok_transfer [OF invMD(9) [OF inv]]) (use that known in \<open>auto simp: eqs\<close>)
    show "udp_ok w' u ru" if "udps w' u = Some ru" for u ru
      by (rule udp_ok_transfer [OF invMD(10) [OF inv]]) (use that in \<open>auto simp: eqs\<close>)
    show "chan_has_owner ?cx w' x y" if x: "chans w' x = Some y" for x y
    proof -
      have "chan_has_owner cx w x y" using invMD(11) [OF inv] x by (simp add: eqs)
      then show ?thesis by (auto simp: chan_has_owner_def eqs split: option.splits owner.splits)
    qed
    show "act_ok w' M x" if "x \<in> cx_active ?cx" for x
      by (rule act_ok_transfer [OF invMD(12) [OF inv]]) (use that in \<open>simp_all add: eqs\<close>)
  qed
qed

lemma TcpServer_destroy_inv:
  assumes inv: "inv cx w" and s: "servers w s = Some r" and cx: "cx_active cx = {}"
    and env: "env_ok e" and os: "os_ok (cx_reserved cx) (e_os e)"
  shows "wpF limits (TcpServer_destroy e True s w) (inv cx)"
proof -
  obtain M where M: "invM cx w M" using inv by (auto simp: inv_def)
  obtain a ra where a: "sv_acceptor r = Some a" "acceptors w a = Some ra" using invMD(8) [OF M s] by (auto simp: srv_ok_def)
  let ?w = "w\<lparr>expired := (expired w)(s := True), servers := (servers w)(s := None)\<rparr>"
  let ?cx = "cx_drop_all (map snd (sv_connections r)) cx"
  note gone = server_gone [OF M s a(1) refl]
  have wf: "cx_wf cx" "cx_wf ?cx" using inv_wf [OF inv] by simp_all
  have "inv (cx_ref a ?cx) ?w" using gone(1) by (auto simp: inv_def)
  then have "wpF limits (release_acceptor (e_os e) True a ?w) (inv ?cx)"
    using a(2) by (intro wpX release_acceptor_drops [OF _ cx_drops_intro(2) [OF wf(2)] _ os]) simp_all
  then have "wpF limits (release_acceptor (e_os e) True a ?w) (\<lambda>w2. wpF limits (foldR (drop_conn e True) (sv_connections r) w2) (inv cx))"
    by (rule wpF_mono) (rule drop_conns_inv [OF _ wf(1) conns_distinct [OF M s] gone(2) cx env os])
  with s a(1) show ?thesis by (simp add: TcpServer_destroy_def)
qed

end
