(* ===== verification/Accepting.thy ===== *)
theory Accepting
  imports Teardown
begin

text \<open>
  The birth of acceptors, servers and connections: every descriptor that the kernel hands out gets an owner or is
  closed.
\<close>

subsection \<open>Calls\<close>

definition cx_fd :: "fd \<Rightarrow> ctx \<Rightarrow> ctx" where
  "cx_fd f cx = cx\<lparr>cx_fds := insert f (cx_fds cx)\<rparr>"

lemma cx_fd_simps [simp]:
  "cx_closing (cx_fd f cx) = cx_closing cx" "cx_dropping (cx_fd f cx) = cx_dropping cx"
  "cx_active (cx_fd f cx) = cx_active cx" "cx_fds (cx_fd f cx) = insert f (cx_fds cx)"
  "cx_reserved (cx_fd f cx) = cx_reserved cx" "cx_running (cx_fd f cx) = cx_running cx"
  "cx_local (cx_fd f cx) = cx_local cx" "cx_guarded (cx_fd f cx) = cx_guarded cx"
  "cx_pinned (cx_fd f cx) = cx_pinned cx" "cx_guards (cx_fd f cx) = cx_guards cx" "tally (cx_fd f cx) = tally cx" "cx_wf (cx_fd f cx) = cx_wf cx"
  by (simp_all add: cx_fd_def fun_eq_iff tally_def cx_wf_def)

lemma invM_calls:
  assumes inv: "invM cx w M" and fds: "fds_of (own_fd w) h (cx_fds cx') (cx_reserved cx)"
    and wr: "\<And>f. f \<in> open_fds (calls w) \<Longrightarrow> written f h = written f (calls w)"
    and cx': "cx' = cx\<lparr>cx_fds := F\<rparr>" and w': "w' = w\<lparr>calls := h\<rparr>"
  shows "invM cx' w' M"
proof -
  have eqs: "conns w' = conns w" "acceptors w' = acceptors w" "servers w' = servers w" "udps w' = udps w" "expired w' = expired w"
    "held w' = held w" "refs w' = refs w" "chans w' = chans w" "bound w' = bound w" "calls w' = h"
    by (simp_all add: w')
  have same: "same_objects w w'" by (simp add: same_objects_def eqs)
  note maps = same_objectsD(8-14) [OF same]
  have cxs: "cx_closing cx' = cx_closing cx" "cx_dropping cx' = cx_dropping cx" "cx_active cx' = cx_active cx"
    "cx_reserved cx' = cx_reserved cx" "cx_running cx' = cx_running cx" "cx_local cx' = cx_local cx" "cx_guarded cx' = cx_guarded cx"
    "cx_pinned cx' = cx_pinned cx" "cx_wf cx' = cx_wf cx" "tally cx' = tally cx"
    by (simp_all add: cx' fun_eq_iff tally_def cx_wf_def)
  have sc: "shared_chan w' = shared_chan w" by (auto simp: fun_eq_iff shared_chan_def eqs)
  show ?thesis
  proof (rule invM_other [OF inv])
    show "pend cx' w' M" by (rule pend_cx [OF pend_cong [OF invMD(1) [OF inv]]]) (simp_all add: w' cxs)
    show "reactor_inv w'" by (rule reactor_inv_cong [OF _ _ _ invMD(2) [OF inv]]) (simp_all add: w')
    have "tally cx w' = tally cx w" by (rule tally_cong) (simp_all add: maps eqs)
    moreover have "shared w' = shared w" by (rule shared_cong [OF same]) (simp add: eqs)
    ultimately show "counts cx' w' M" using invMD(3) [OF inv] by (auto simp: counts_def cxs eqs)
    show "kinds w'" using invMD(4) [OF inv] by (simp add: kinds_def eqs)
    show "fds cx' w'" using fds by (simp add: fds_iff maps eqs cxs)
    show "task_ok w' t" if "t \<in># M" for t using invMD(6) [OF inv that] by (cases t) (auto simp: eqs maps sc)
    show "srv_ok w' s r" if "servers w' s = Some r" for s r using invMD(8) [OF inv, of s r] that by (simp add: srv_ok_def eqs)
    show "acc_ok w' a r" if "acceptors w' a = Some r" for a r
      by (rule acc_ok_transfer [OF invMD(9) [OF inv]]) (use that in \<open>auto simp: eqs maps\<close>)
    show "udp_ok w' u r" if "udps w' u = Some r" for u r
      by (rule udp_ok_transfer [OF invMD(10) [OF inv]]) (use that in \<open>auto simp: eqs\<close>)
    show "chan_has_owner cx' w' c ch" if "chans w' c = Some ch" for c ch
      using invMD(11) [OF inv, of c ch] that by (simp add: chan_has_owner_def eqs cxs cong: option.case_cong owner.case_cong)
    show "act_ok w' M c" if "c \<in> cx_active cx" for c
      by (rule act_ok_transfer [OF invMD(12) [OF inv that]]) (simp_all add: eqs)
    show "written (cn_socketFd k) (calls w') = written (cn_socketFd k) (calls w)" if "conns w p = Some k" "0 \<le> cn_socketFd k" for p k
      using wr conn_fd_open [OF inv that] by (simp add: eqs)
  qed (auto simp: eqs maps cxs)
qed

lemma inv_fds: "invM cx w M \<Longrightarrow> fds_of (own_fd w) (calls w) (cx_fds cx) (cx_reserved cx)"
  by (drule invMD(5)) (simp add: fds_iff)

text \<open>A call on an open descriptor, a new descriptor, and one that is closed again.\<close>

lemma inv_call:
  assumes "inv cx w" and f: "f \<in> open_fds (calls w)" and c: "fd_call f c" "\<And>g d. written_step g c d = d"
  shows "inv cx (log_call c w)"
proof -
  obtain M where M: "invM cx w M" using assms(1) by (auto simp: inv_def)
  have "invM cx (log_call c w) M"
    by (rule invM_calls [OF M, of "calls w @ [c]" _ "cx_fds cx"])
      (use fds_of_calls [OF inv_fds [OF M] _ f, of "calls w @ [c]"] c in \<open>auto simp: log_call_def\<close>)
  then show ?thesis by (auto simp: inv_def)
qed

lemma inv_new_fd:
  assumes "inv cx w" and c: "c = SysSocket fam d f \<or> c = SysOpen f \<or> c = SysAccept s f \<and> s \<in> open_fds (calls w)"
    and new: "f \<notin> open_fds (calls w) \<union> cx_reserved cx"
  shows "inv (if 0 \<le> f then cx_fd f cx else cx) (log_call c w)" "f \<notin> cx_fds cx"
proof -
  obtain M where M: "invM cx w M" using assms(1) by (auto simp: inv_def)
  show "f \<notin> cx_fds cx" using inv_fds [OF M] new by (auto simp: fds_of_def)
  have "invM (if 0 \<le> f then cx_fd f cx else cx) (log_call c w) M"
    by (rule invM_calls [OF M, of "calls w @ [c]" _ "if 0 \<le> f then insert f (cx_fds cx) else cx_fds cx"])
      (use fds_of_new [OF inv_fds [OF M] c new] c new in \<open>auto simp: log_call_def cx_fd_def\<close>)
  then show "inv (if 0 \<le> f then cx_fd f cx else cx) (log_call c w)" by (auto simp: inv_def)
qed

lemma inv_close_fd:
  assumes "inv (cx_fd f cx) w" and "f \<notin> cx_fds cx"
  shows "inv cx (sock_close f w)"
proof -
  obtain M where M: "invM (cx_fd f cx) w M" using assms(1) by (auto simp: inv_def)
  have "invM cx (sock_close f w) M"
    by (rule invM_calls [OF M, of "calls w @ [SysClose f]" _ "cx_fds cx"])
      (use fds_of_close [OF inv_fds [OF M, simplified] assms(2)] in \<open>auto simp: sock_close_def log_call_def cx_fd_def\<close>)
  then show ?thesis by (auto simp: inv_def)
qed

text \<open>A descriptor without an owner is unknown to the poller.\<close>

lemma fresh_fd:
  assumes inv: "invM cx w M" and f: "f \<in> cx_fds cx"
  shows "pl_channels w f = None"
proof (rule ccontr)
  assume "pl_channels w f \<noteq> None"
  then obtain c ch where c: "chans w c = Some ch" "ch_index ch \<noteq> -1" "ch_fd ch = f"
    using reactor_invD(3) [OF invMD(2) [OF inv], of f] by blast
  from inv c(1,2) show False
  proof (cases rule: chan_fd_role)
    case res
    then show ?thesis using invMD(5) [OF inv] f c(3) by (auto simp: fds_def)
  next
    case (own x p)
    then show ?thesis using own_fd_open(3) [OF invMD(5) [OF inv] own(1,2)] f c(3) by simp
  qed
qed

subsection \<open>Servers\<close>

lemma ex_map_new:
  "m a = None \<Longrightarrow> (\<exists>x y. (m(a \<mapsto> b)) x = Some y \<and> Q x y) \<longleftrightarrow> Q a b \<or> (\<exists>x y. m x = Some y \<and> Q x y)"
  unfolding ex_map_upd by (metis option.distinct(1))

lemma unused_refs:
  assumes inv: "invM cx w M" and p: "unused p w"
  shows "refs w p = 0" "tally cx w M p = 0" "held w p = 0" "p \<notin> cx_guarded cx" "p \<notin> cx_pinned cx" "KeepChannel p \<notin># M"
    "p \<notin> fst ` cx_active cx" "\<not> chan_owned w p" "\<not> in_map w p" "\<not> acc_owned w p"
proof -
  have cnt: "counts cx w M" by (rule invMD(3) [OF inv])
  have "\<not> shared w p" using p by (simp add: shared_def unused_def shared_chan_def)
  then show r: "refs w p = 0" using cnt unfolding counts_def by (metis neq0_conv)
  then show t: "tally cx w M p = 0" using cnt unfolding counts_def by metis
  then show "held w p = 0" "\<not> chan_owned w p" "\<not> in_map w p" "\<not> acc_owned w p" by (simp_all add: tally_def owners_def)
  show "p \<notin> cx_guarded cx" "p \<notin> cx_pinned cx" using cnt p by (auto simp: counts_def unused_def)
  show "KeepChannel p \<notin># M" using t capt_mono [of "KeepChannel p" M p] by (auto simp: tally_def)
  show "p \<notin> fst ` cx_active cx" using p by (force simp: act_ok_def unused_def dest: invMD(12) [OF inv])
qed

lemma inv_server_field:
  assumes "inv cx w" and s: "servers w s = Some r"
    and r': "sv_name r' = sv_name r" "sv_acceptor r' = sv_acceptor r" "sv_nextConnId r' = sv_nextConnId r" "sv_connections r' = sv_connections r"
  shows "inv cx (w\<lparr>servers := (servers w)(s \<mapsto> r')\<rparr>)" (is "inv cx ?w")
proof -
  obtain M where inv: "invM cx w M" using assms(1) by (auto simp: inv_def)
  have eqs: "conns ?w = conns w" "acceptors ?w = acceptors w" "servers ?w = (servers w)(s \<mapsto> r')" "udps ?w = udps w" "expired ?w = expired w"
    "held ?w = held w" "refs ?w = refs w" "chans ?w = chans w" "bound ?w = bound w" "calls ?w = calls w" "pl_channels ?w = pl_channels w"
    "ctl_trace ?w = ctl_trace w" "lp_queue ?w = lp_queue w" "lp_functors ?w = lp_functors w"
    by simp_all
  have map: "in_map ?w = in_map w"
    unfolding fun_eq_iff in_map_def eqs ex_map_upd ex_map_split [of "servers w", OF s] r' by simp
  have acc: "acc_owned ?w = acc_owned w"
    unfolding fun_eq_iff acc_owned_def eqs ex_map_upd ex_map_split [of "servers w", OF s] r' by simp
  have maps: "server_alive ?w = server_alive w" "server_known ?w = server_known w" "chan_owned ?w = chan_owned w" "shared_chan ?w = shared_chan w"
    using s by (auto simp: fun_eq_iff server_alive_def server_known_def chan_owned_def shared_chan_def split: option.splits)
  have "owners ?w = owners w" by (simp add: fun_eq_iff owners_def map acc maps)
  then have tl: "tally cx ?w = tally cx w" by (rule tally_cong) simp
  have own: "own_fd ?w = own_fd w" by (rule own_fd_cong) simp_all
  have "invM cx ?w M"
  proof (rule invM_other [OF inv])
    show "pend cx ?w M" by (rule pend_cong [OF invMD(1) [OF inv]]) (simp_all add: eqs)
    show "reactor_inv ?w" by (rule reactor_inv_cong [OF _ _ _ invMD(2) [OF inv]]) (simp_all add: eqs)
    show "counts cx ?w M" using invMD(3) [OF inv] unfolding counts_def shared_def tl maps(4) eqs by blast
    show "kinds ?w" using invMD(4) [OF inv] s by (auto simp: kinds_def)
    show "fds cx ?w" using invMD(5) [OF inv] by (simp add: fds_def own)
    show "task_ok ?w t" if "t \<in># M" for t
      using invMD(6) [OF inv that] maps by (cases t) simp_all
    show "srv_ok ?w x y" if "servers ?w x = Some y" for x y
    proof -
      have "srv_ok ?w x y = srv_ok w x y" for x y by (simp add: srv_ok_def)
      moreover have "srv_ok w s r'" using invMD(8) [OF inv s] by (simp add: srv_ok_def r')
      ultimately show ?thesis using that invMD(8) [OF inv, of x y] by (simp split: if_splits)
    qed
    show "acc_ok ?w a ra" if "acceptors ?w a = Some ra" for a ra
      by (rule acc_ok_transfer [OF invMD(9) [OF inv]]) (use that in \<open>auto simp: maps\<close>)
    show "udp_ok ?w u ru" if "udps ?w u = Some ru" for u ru
      by (rule udp_ok_transfer [OF invMD(10) [OF inv]]) (use that in auto)
    show "chan_has_owner cx ?w c ch" if "chans ?w c = Some ch" for c ch
      using invMD(11) [OF inv, of c ch] that by (simp add: chan_has_owner_def cong: option.case_cong owner.case_cong)
    show "act_ok ?w M c" if "c \<in> cx_active cx" for c
      by (rule act_ok_transfer [OF invMD(12) [OF inv that]]) simp_all
  qed (simp_all add: map maps)
  then show ?thesis by (auto simp: inv_def)
qed

lemma invM_new_server:
  assumes inv: "invM (cx_fd f cx) w M \<and> f \<notin> cx_fds cx \<or> invM cx w M \<and> f < 0" and a: "unused a w" and s: "unused s w" "a \<noteq> s"
    and r: "ac_acceptSocket ra = -1" "ac_acceptChannel ra = None" "ac_newConnectionCb ra = Some s" "\<not> ac_listening ra" "ac_idleFd ra = f"
      "sv_acceptor r = Some a" "sv_nextConnId r = 1" "sv_connections r = []" "length (c_str (sv_name r)) \<le> name_limit"
    and w': "w' = w\<lparr>refs := (refs w)(a := 1), acceptors := (acceptors w)(a \<mapsto> ra), servers := (servers w)(s \<mapsto> r)\<rparr>"
  shows "invM cx w' M"
proof -
  obtain cx0 where inv0: "invM cx0 w M" and cx0: "cx0 = cx_fd f cx \<or> cx0 = cx" using inv by blast
  have cxs: "cx_closing cx = cx_closing cx0" "cx_dropping cx = cx_dropping cx0" "cx_active cx = cx_active cx0"
    "cx_reserved cx = cx_reserved cx0" "cx_running cx = cx_running cx0" "cx_local cx = cx_local cx0" "cx_guarded cx = cx_guarded cx0"
    "cx_pinned cx = cx_pinned cx0" "cx_wf cx = cx_wf cx0" "tally cx = tally cx0"
    using cx0 by auto
  have eqs: "conns w' = conns w" "acceptors w' = (acceptors w)(a \<mapsto> ra)" "servers w' = (servers w)(s \<mapsto> r)" "udps w' = udps w" "expired w' = expired w"
    "held w' = held w" "refs w' = (refs w)(a := 1)" "chans w' = chans w" "bound w' = bound w" "calls w' = calls w" "pl_channels w' = pl_channels w"
    "ctl_trace w' = ctl_trace w" "lp_queue w' = lp_queue w" "lp_functors w' = lp_functors w"
    by (simp_all add: w')
  note ua = unused_refs [OF inv0 a] and cnt = invMD(3) [OF inv0] and kd = invMD(4) [OF inv0]
  have nons: "servers w s = None" "\<not> expired w s" "acceptors w a = None" using s a by (simp_all add: unused_def)
  have map: "in_map w' = in_map w"
    using r(8) unfolding fun_eq_iff in_map_def eqs ex_map_new [of "servers w", OF nons(1)] by simp
  have acc: "acc_owned w' q \<longleftrightarrow> acc_owned w q \<or> q = a" for q
    using r(6) unfolding acc_owned_def eqs ex_map_new [of "servers w", OF nons(1)] by auto
  have co: "chan_owned w' = chan_owned w"
    using r(2) unfolding fun_eq_iff chan_owned_def eqs ex_map_new [of "acceptors w", OF nons(3)] by simp
  have sc: "shared_chan w' = shared_chan w" by (auto simp: fun_eq_iff shared_chan_def eqs)
  have srvs: "server_known w so \<Longrightarrow> server_alive w' so = server_alive w so \<and> server_known w' so" for so
    using nons by (auto simp: server_alive_def server_known_def eqs split: option.splits)
  have tl: "tally cx0 w' M q = tally cx0 w M q + of_bool (q = a)" for q
    using ua(10) by (auto simp: tally_def owners_def map acc co eqs)
  have own: "own_fd w' x = ((own_fd w)(IdleOf a := f, ListenOf a := -1)) x" for x using r by (cases x) (auto simp: eqs)
  show ?thesis
  proof (rule invM_other [OF inv0])
    show "pend cx w' M" by (rule pend_cx [OF pend_cong [OF invMD(1) [OF inv0]]]) (simp_all add: eqs cxs)
    show "reactor_inv w'" by (rule reactor_inv_cong [OF _ _ _ invMD(2) [OF inv0]]) (simp_all add: eqs)
    show "counts cx w' M" using cnt ua(1,2,5) unfolding counts_def by (auto simp: tl eqs cxs shared_def sc)
    show "kinds w'" using kd a s by (auto simp: kinds_def eqs unused_def)
    have neg: "own_fd w (ListenOf a) = -1" "own_fd w (IdleOf a) = -1" using nons(3) by simp_all
    have "fds_of ((own_fd w)(IdleOf a := f)) (calls w) (cx_fds cx) (cx_reserved cx)"
      using inv
    proof
      assume "invM (cx_fd f cx) w M \<and> f \<notin> cx_fds cx"
      then show ?thesis using fds_of_take [OF inv_fds [of "cx_fd f cx" w M, simplified]] neg by simp
    next
      assume "invM cx w M \<and> f < 0"
      then show ?thesis using neg by (intro fds_of_cong [OF inv_fds]) auto
    qed
    then show "fds cx w'" unfolding fds_iff eqs by (rule fds_of_cong) (use neg in \<open>auto simp: own\<close>)
    show "task_ok w' t" if "t \<in># M" for t using invMD(6) [OF inv0 that] srvs by (cases t) (auto simp: eqs sc)
    show "srv_ok w' x y" if x: "servers w' x = Some y" for x y
    proof (cases "x = s")
      case True
      with x have "y = r" by (simp add: eqs)
      with True show ?thesis using r by (auto simp: srv_ok_def eqs)
    next
      case False
      then have "srv_ok w x y" using x invMD(8) [OF inv0] by (simp add: eqs)
      then show ?thesis by (rule srv_ok_transfer) (use nons(3) in \<open>auto simp: eqs\<close>)
    qed
    show "acc_ok w' b rb" if b: "acceptors w' b = Some rb" for b rb
    proof (cases "b = a")
      case True
      with b r show ?thesis by (auto simp: acc_ok_def eqs server_known_def)
    next
      case False
      then have "acc_ok w b rb" using b invMD(9) [OF inv0] by (simp add: eqs)
      then show ?thesis by (rule acc_ok_transfer) (use srvs in \<open>auto simp: eqs\<close>)
    qed
    show "udp_ok w' u ru" if "udps w' u = Some ru" for u ru
      by (rule udp_ok_transfer [OF invMD(10) [OF inv0]]) (use that in \<open>auto simp: eqs\<close>)
    show "chan_has_owner cx w' c ch" if "chans w' c = Some ch" for c ch
      using invMD(11) [OF inv0, of c ch] that nons(3)
      by (auto simp: chan_has_owner_def eqs cxs split: option.splits owner.splits)
    show "act_ok w' M c" if "c \<in> cx_active cx0" for c
      by (rule act_ok_transfer [OF invMD(12) [OF inv0 that]]) (simp_all add: eqs)
  qed (use srvs in \<open>auto simp: eqs map cxs\<close>)
qed

lemma unused_log [simp]: "unused p (log_call c w) = unused p w" "unused p (w\<lparr>calls := h\<rparr>) = unused p w"
  by (simp_all add: unused_def log_call_def)

lemma TcpServer_new_inv:
  assumes inv: "inv cx w" and os: "os_ok (cx_reserved cx) os" and name: "length (c_str name) \<le> name_limit"
  shows "wpF limits (TcpServer_new os addr name w) (\<lambda>(s, w'). inv cx w' \<and> servers w' s \<noteq> None)"
proof -
  let ?f = "os_open os (calls w)" and ?a = "os_new os (calls w) 0"
  let ?w1 = "log_call (SysOpen ?f) w"
  let ?s = "os_new os (calls ?w1) 1"
  have new: "?f \<notin> open_fds (calls w) \<union> cx_reserved cx" using os by (simp add: os_ok_def)
  note opened = inv_new_fd [OF inv _ new, of "SysOpen ?f"]
  then obtain M where M: "invM (if 0 \<le> ?f then cx_fd ?f cx else cx) ?w1 M" by (auto simp: inv_def)
  let ?ra = "\<lparr>ac_listenAddr = addr, ac_reuseport = True, ac_acceptSocket = -1, ac_acceptChannel = None,
       ac_newConnectionCb = Some ?s, ac_listening = False, ac_idleFd = ?f\<rparr>"
  let ?r = "\<lparr>sv_name = name, sv_acceptor = Some ?a, sv_connectionCb = False, sv_messageCb = False,
       sv_writeCompleteCb = False, sv_state = kIdle, sv_nextConnId = 1, sv_connections = []\<rparr>"
  have "invM cx (?w1\<lparr>refs := (refs w)(?a := 1), servers := (servers w)(?s \<mapsto> ?r), acceptors := (acceptors w)(?a \<mapsto> ?ra)\<rparr>) M"
    if "unused ?a w" "unused ?s w" "?a \<noteq> ?s"
    by (rule invM_new_server [where w = ?w1 and f = ?f and ra = ?ra and r = ?r and a = ?a and s = ?s]) (use that M name opened in \<open>auto simp: log_call_def split: if_splits\<close>)
  then show ?thesis
    by (auto simp: TcpServer_new_def Acceptor_new_def openIdleFd_def Let_def upd_acceptor_def limits_def inv_def unused_def log_call_def
        split: if_splits)
qed

lemma setCallbacks_inv:
  assumes "inv cx w" and "servers w s \<noteq> None"
  shows "wpR (setCallbacks c m wc s w) (inv cx)"
  using assms inv_server_field [OF assms(1), of s] by (auto simp: setCallbacks_def upd_server_def)

subsection \<open>Channels of acceptors and UDP sockets\<close>

lemma unused_chan:
  assumes inv: "invM cx w M" and c: "unused c w"
  shows "acceptors w a = Some r \<Longrightarrow> ac_acceptChannel r \<noteq> Some c" "udps w u = Some ru \<Longrightarrow> ud_channel ru \<noteq> Some c"
  using unused_refs(8) [OF inv c] by (auto simp: chan_owned_def)

lemma invM_new_chan:
  assumes inv: "invM cx0 w M" and cx: "cx = cx0\<lparr>cx_fds := F\<rparr>" and c: "unused c w"
    and own: "own = OwnAcceptor x \<or> own = OwnUdp x"
    and w': "conns w' = conns w" "servers w' = servers w" "expired w' = expired w" "held w' = held w" "calls w' = calls w"
      "chans w' = (chans w)(c \<mapsto> ch)" "bound w' = (bound w)(c \<mapsto> own)" "refs w' = (refs w)(c := 1)"
    and parts: "pend cx w' M" "reactor_inv w'" "fds cx w'"
    and acc: "\<And>a. acceptors w' a = None \<longleftrightarrow> acceptors w a = None" "\<And>u. udps w' u = None \<longleftrightarrow> udps w u = None"
      "\<And>a r. acceptors w a = Some r \<Longrightarrow> \<exists>r'. acceptors w' a = Some r' \<and> ac_newConnectionCb r' = ac_newConnectionCb r \<and> (ac_listening r \<longrightarrow> ac_listening r')"
      "\<And>q. chan_owned w' q \<longleftrightarrow> chan_owned w q \<or> q = c"
    and oks: "\<And>a r. acceptors w' a = Some r \<Longrightarrow> acc_ok w' a r" "\<And>u r. udps w' u = Some r \<Longrightarrow> udp_ok w' u r"
      "\<And>y z. chans w' y = Some z \<Longrightarrow> chan_has_owner cx w' y z"
  shows "invM cx w' M"
proof -
  note uc = unused_refs [OF inv c] and cnt = invMD(3) [OF inv] and kd = invMD(4) [OF inv]
  have cxs: "cx_closing cx = cx_closing cx0" "cx_dropping cx = cx_dropping cx0" "cx_active cx = cx_active cx0"
    "cx_guarded cx = cx_guarded cx0" "cx_pinned cx = cx_pinned cx0" "cx_wf cx = cx_wf cx0" "tally cx = tally cx0"
    by (simp_all add: cx fun_eq_iff tally_def cx_wf_def)
  have maps: "in_map w' = in_map w" "server_alive w' = server_alive w" "server_known w' = server_known w" "acc_owned w' = acc_owned w"
    by (auto simp: fun_eq_iff in_map_def server_alive_def server_known_def acc_owned_def w' split: option.splits)
  have new: "chans w c = None" "conns w c = None" "acceptors w c = None" "servers w c = None" "udps w c = None" "\<not> expired w c"
    using c by (simp_all add: unused_def)
  have sc: "shared_chan w' q \<longleftrightarrow> shared_chan w q \<or> q = c" for q using own new(1) by (auto simp: shared_chan_def w')
  have tl: "tally cx0 w' M q = tally cx0 w M q + of_bool (q = c)" for q
    using uc(8) by (auto simp: tally_def owners_def maps acc(4) w')
  show ?thesis
  proof (rule invM_other [OF inv])
    show "counts cx w' M"
      using cnt uc(1,2) acc(3) unfolding counts_def cxs shared_def
      by (auto simp: tl w' sc acc(1) simp flip: not_None_eq) metis+
    show "kinds w'" using kd new unfolding kinds_def by (auto simp: w' acc simp flip: not_None_eq)
    show "task_ok w' t" if "t \<in># M" for t
      using invMD(6) [OF inv that] by (cases t) (auto simp: maps sc w' acc(1) simp flip: not_None_eq)
    show "srv_ok w' s r" if "servers w' s = Some r" for s r
      by (rule srv_ok_transfer [OF invMD(8) [OF inv] w'(1)]) (use that acc(3) in \<open>auto simp: w'\<close>)
    show "act_ok w' M y" if "y \<in> cx_active cx0" for y
      by (rule act_ok_transfer [OF invMD(12) [OF inv that]]) (use imageI [OF that, of fst] uc(7) in \<open>auto simp: w'\<close>)
  qed (use parts oks new in \<open>auto simp: w' maps cxs\<close>)
qed

text \<open>A channel that was made and not registered yet.\<close>

lemma reactor_inv_fresh:
  assumes r: "reactor_inv w" and c: "chans w c = None" and ch: "ch_fd ch = f" "ch_events ch = 0" "ch_index ch = -1" "\<not> ch_addedToLoop ch"
    and w': "chans w' = (chans w)(c \<mapsto> ch)" "pl_channels w' = pl_channels w" "ctl_trace w' = ctl_trace w"
  shows "reactor_inv w'"
  by (rule reactor_inv_frame [OF reactor_inv_NewChannel [OF r c, of f]]) (use ch in \<open>simp_all add: w' Channel_new_def\<close>)

lemma register_fresh:
  assumes r: "reactor_inv w" and c: "chans w c = Some ch" "ch_events ch = 0" "pl_channels w (ch_fd ch) = None" and os: "os_ok Z os"
  shows "wpR (enableReading (os_ctl os) True c w) (\<lambda>w'. reactor_inv w' \<and> (\<exists>ch'. chan_effect c ch w w' ch' \<and> ch_events ch' = kReadEvent))"
proof -
  have "fd_free c w" using c by (simp add: fd_free_def)
  from enableReading_spec [OF r c(1) this, of "os_ctl os", unfolded ctl_faults_ok [OF os]] show ?thesis
    by (rule wpF_mono) (auto simp: c(2))
qed

lemma listen_channel_inv:
  assumes inv: "inv (cx_fd f cx) w" and f: "f \<notin> cx_fds cx" and a: "acceptors w a = Some r" "\<not> ac_listening r"
    and os: "os_ok (cx_reserved cx) os"
  shows "wpF limits (listen_channel os True a f w) (\<lambda>w'. inv cx w' \<and> servers w' = servers w)"
proof (cases "unused (os_new os (calls w) 0) w")
  case False
  then show ?thesis by (simp add: listen_channel_def Let_def limits_def)
next
  case True
  define c where "c = os_new os (calls w) 0"
  have c: "unused c w" using True by (simp add: c_def)
  obtain M where M: "invM (cx_fd f cx) w M" using inv by (auto simp: inv_def)
  have none: "ac_acceptChannel r = None" "ac_acceptSocket r < 0"
    using invMD(9) [OF M a(1)] a(2) by (auto simp: acc_ok_def split: option.splits)
  have f0: "0 \<le> f" using inv_fds [OF M] by (auto simp: fds_of_def)
  let ?r = "r\<lparr>ac_acceptSocket := f, ac_acceptChannel := Some c\<rparr>"
  let ?ch = "(Channel_new f)\<lparr>ch_callbacks := (\<lambda>_. False)(ReadCb := True), ch_tie := Some a\<rparr>"
  let ?w = "w\<lparr>refs := (refs w)(c := 1), acceptors := (acceptors w)(a \<mapsto> ?r), bound := (bound w)(c \<mapsto> OwnAcceptor a), chans := (chans w)(c \<mapsto> ?ch)\<rparr>"
  have cs: "chans w c = None" using c by (simp add: unused_def)
  have rw: "reactor_inv ?w" by (rule reactor_inv_fresh [OF invMD(2) [OF M] cs, of ?ch f]) (simp_all add: Channel_new_def)
  have reg: "wpR (enableReading (os_ctl os) True c ?w) (\<lambda>w'. reactor_inv w' \<and> (\<exists>ch'. chan_effect c ?ch ?w w' ch' \<and> ch_events ch' = kReadEvent))"
    by (rule register_fresh [OF rw _ _ _ os]) (use fresh_fd [OF M, of f] in \<open>simp_all add: Channel_new_def\<close>)
  have fin: "wpR (upd_acceptor a (\<lambda>r. r\<lparr>ac_listening := True\<rparr>) w2) (\<lambda>w'. inv cx w' \<and> servers w' = servers w)"
    if w2: "reactor_inv w2 \<and> (\<exists>ch'. chan_effect c ?ch ?w w2 ch' \<and> ch_events ch' = kReadEvent)" for w2
  proof -
    obtain ch' where ch': "chan_effect c ?ch ?w w2 ch'" "ch_events ch' = kReadEvent" using w2 by blast
    note more = chan_effect_more [OF ch'(1)] and eqs = same_objectsD(1-7) [OF chan_effect_more(1) [OF ch'(1)]]
    have ch: "ch_fd ch' = f" "ch_tie ch' = Some a" using more(7) by (simp_all add: same_chan_def Channel_new_def)
    let ?r' = "?r\<lparr>ac_listening := True\<rparr>"
    let ?w' = "w2\<lparr>acceptors := (acceptors w)(a \<mapsto> ?r')\<rparr>"
    have own: "own_fd ?w' x = ((own_fd w)(ListenOf a := f)) x" for x using a by (cases x) (auto simp: eqs)
    have known: "server_known (w2\<lparr>acceptors := X\<rparr>) = server_known w" for X
      by (auto simp: fun_eq_iff server_known_def eqs split: option.splits)
    have "invM cx ?w' M"
    proof (rule invM_new_chan [OF M, where F = "cx_fds cx" and ch = ch' and own = "OwnAcceptor a"])
      show "pend cx ?w' M" by (rule pend_cx [OF pend_cong [OF invMD(1) [OF M]]]) (simp_all add: more)
      show "reactor_inv ?w'" by (rule reactor_inv_cong [of _ w2]) (use w2 in simp_all)
      show "fds cx ?w'"
        unfolding fds_iff ext [of "own_fd ?w'", OF own]
        using fds_of_take [OF inv_fds [OF M, simplified] f, of "ListenOf a"] a none more(2) by simp
      show "chan_owned ?w' q \<longleftrightarrow> chan_owned w q \<or> q = c" for q
        using none(1) unfolding chan_owned_def by (simp add: eqs ex_map_upd ex_map_split [of "acceptors w", OF a(1)]) blast
      show "acc_ok ?w' b rb" if b: "acceptors ?w' b = Some rb" for b rb
      proof (cases "b = a")
        case True
        then show ?thesis using b ch ch'(2) f0 invMD(9) [OF M a(1)] by (auto simp: acc_ok_def eqs more(6) known)
      next
        case False
        with b unused_chan(1) [OF M c] show ?thesis
          by (intro acc_ok_transfer [OF invMD(9) [OF M]]) (auto simp: eqs more(6) known)
      qed
      show "udp_ok ?w' u ru" if "udps ?w' u = Some ru" for u ru
        by (rule udp_ok_transfer [OF invMD(10) [OF M]]) (use that unused_chan(2) [OF M c] in \<open>auto simp: eqs more(6)\<close>)
      show "chan_has_owner cx ?w' y z" if y: "chans ?w' y = Some z" for y z
      proof (cases "y = c")
        case True
        then show ?thesis by (simp add: chan_has_owner_def eqs)
      next
        case False
        then have "chan_has_owner (cx_fd f cx) w y z" using y invMD(11) [OF M] by (simp add: more(6))
        with False none(1) a(1) show ?thesis by (auto simp: chan_has_owner_def eqs split: option.splits owner.splits)
      qed
    qed (use c a eqs more in \<open>auto simp: cx_fd_def\<close>)
    then show ?thesis by (auto simp: upd_acceptor_def eqs inv_def)
  qed
  have "wpF limits (enableReading (os_ctl os) True c ?w) (\<lambda>w2. wpF limits (upd_acceptor a (\<lambda>r. r\<lparr>ac_listening := True\<rparr>) w2) (\<lambda>w'. inv cx w' \<and> servers w' = servers w))"
    by (rule wpF_mono [OF wpX [OF reg]]) (rule wpX [OF fin])
  then show ?thesis
    using True a(1) by (simp add: listen_channel_def Let_def upd_acceptor_def setCallback_def Channel_tie_def upd_chan_def Channel_new_def flip: c_def)
qed

text \<open>The socket calls before it, each of which may fail and then closes the new descriptor.\<close>

lemma Acceptor_listen_inv:
  assumes inv: "inv cx w" and a: "acceptors w a = Some r" and os: "os_ok (cx_reserved cx) os"
  shows "wpF limits (Acceptor_listen os True a w) (\<lambda>(ok, w'). inv cx w' \<and> servers w' = servers w)"
proof (cases "ac_listening r")
  case True
  with inv a show ?thesis by (simp add: Acceptor_listen_def assertInLoopThread_def)
next
  case False
  let ?f = "os_socket os (calls w) (family (ac_listenAddr r)) False"
  let ?w1 = "log_call (SysSocket (family (ac_listenAddr r)) False ?f) w"
  have new: "?f \<notin> open_fds (calls w) \<union> cx_reserved cx" using os by (simp add: os_ok_def)
  note sock = inv_new_fd [OF inv _ new, of "SysSocket (family (ac_listenAddr r)) False ?f" "family (ac_listenAddr r)" False]
  show ?thesis
  proof (cases "?f < 0")
    case True
    with sock a False show ?thesis
      by (simp add: Acceptor_listen_def assertInLoopThread_def createNonblocking_def Let_def) (simp add: log_call_def)
  next
    case pos: False
    define f where "f = ?f"
    have i1: "inv (cx_fd f cx) ?w1" and f: "f \<notin> cx_fds cx" using sock pos by (auto simp: f_def)
    have opn: "f \<in> open_fds (calls w')" if "inv (cx_fd f cx) w'" for w'
      using that by (auto simp: inv_def fds_of_def dest!: inv_fds)
    have call: "inv (cx_fd f cx) (log_call c w')" if "inv (cx_fd f cx) w'" "fd_call f c" "\<And>g d. written_step g c d = d" for c w'
      by (rule inv_call [OF that(1) opn [OF that(1)] that(2,3)])
    let ?w2 = "setReusePort f (ac_reuseport r) (setReuseAddr f True ?w1)"
    have i2: "inv (cx_fd f cx) ?w2" unfolding setReusePort_def setReuseAddr_def by (intro call i1) simp_all
    let ?w3 = "\<lambda>b. log_call (SysBind f b) ?w2"
    have i3: "inv (cx_fd f cx) (?w3 b)" for b by (intro call i2) simp_all
    let ?w4 = "\<lambda>b l. log_call (SysListen f l) (?w3 b)"
    have i4: "inv (cx_fd f cx) (?w4 b l)" for b l by (intro call i3) simp_all
    have a4: "acceptors (?w4 b l) a = Some r" for b l using a by (simp add: log_call_def setReusePort_def setReuseAddr_def)
    have sv: "servers (?w4 b l) = servers w" "servers (?w3 b) = servers w" for b l
      by (simp_all add: log_call_def setReusePort_def setReuseAddr_def)
    have "wpF limits (listen_channel os True a f (?w4 b l)) (\<lambda>w'. inv cx w' \<and> servers w' = servers w)" for b l
      using listen_channel_inv [OF i4 f a4 False os] by (simp only: sv)
    moreover have "inv cx (sock_close f (?w3 b))" "inv cx (sock_close f (?w4 b l))" for b l by (intro inv_close_fd i3 i4 f)+
    moreover have "servers (sock_close f (?w3 b)) = servers w" "servers (sock_close f (?w4 b l)) = servers w" for b l
      by (simp_all add: sock_close_def log_call_def setReusePort_def setReuseAddr_def)
    ultimately show ?thesis
      using a False pos
      by (simp add: Acceptor_listen_def assertInLoopThread_def createNonblocking_def sock_bind_def sock_listen_def Let_def flip: f_def)
  qed
qed

lemma start_now_inv:
  assumes inv: "inv cx w" and s: "servers w s \<noteq> None" and a: "acceptors w a \<noteq> None" and os: "os_ok (cx_reserved cx) os"
  shows "wpF limits (start_now os True s (Some a) w) (\<lambda>w'. inv cx w' \<and> servers w' s \<noteq> None)"
proof -
  obtain r ra where r: "servers w s = Some r" "acceptors w a = Some ra" using s a by auto
  have set: "inv cx (w1\<lparr>servers := (servers w)(s \<mapsto> r\<lparr>sv_state := x\<rparr>)\<rparr>)" if "inv cx w1" "servers w1 = servers w" for w1 x
    using inv_server_field [OF that(1), of s r "r\<lparr>sv_state := x\<rparr>"] r(1) that(2) by simp
  have "wpF limits (Acceptor_listen os True a w) (\<lambda>(ok, w1).
      wpF limits (upd_server s (\<lambda>r. r\<lparr>sv_state := if ok then kListening else kIdle\<rparr>) w1) (\<lambda>w'. inv cx w' \<and> servers w' s \<noteq> None))"
    by (rule wpF_mono [OF Acceptor_listen_inv [OF inv r(2) os]])
      (auto simp: upd_server_def r(1) intro: set)
  then show ?thesis by (simp add: start_now_def case_prod_beta')
qed

lemma TcpServer_start_inv:
  assumes inv: "inv cx w" and s: "servers w s \<noteq> None" and os: "os_ok (cx_reserved cx) os"
  shows "wpF limits (TcpServer_start os il s w) (\<lambda>(st, w'). inv cx w')"
proof -
  obtain r where r: "servers w s = Some r" using s by auto
  obtain M where M: "invM cx w M" using inv by (auto simp: inv_def)
  obtain a where a: "sv_acceptor r = Some a" "acceptors w a \<noteq> None" using invMD(8) [OF M r] by (auto simp: srv_ok_def)
  let ?w1 = "w\<lparr>servers := (servers w)(s \<mapsto> r\<lparr>sv_state := kStarting\<rparr>)\<rparr>"
  have i1: "inv cx ?w1" by (rule inv_server_field [OF inv r]) simp_all
  have "wpF limits (start_now os True s (Some a) ?w1) (\<lambda>w2. wpF limits (derefR (servers w2 s) (\<lambda>r2. Inr (sv_state r2, w2))) (\<lambda>(st, w'). inv cx w'))"
    by (rule wpF_mono [OF start_now_inv [OF i1 _ _ os]]) (use a(2) in auto)
  moreover have "inv cx (queueTask False (StartServer s (Some a)) ?w1)"
    using a(2) by (intro inv_queue [OF i1]) (auto simp: server_known_def)
  ultimately show ?thesis using r a(1) inv by (simp add: TcpServer_start_def upd_server_def)
qed

lemma run_StartServer_inv:
  assumes inv: "inv cx w" and a: "acceptors w a \<noteq> None" and os: "os_ok (cx_reserved cx) os"
  shows "wpF limits (run_StartServer os True s (Some a) w) (inv cx)"
  using inv wpF_mono [OF start_now_inv [OF inv _ a os, of s]] by (auto simp: run_StartServer_def)

end
