(* ===== verification/Births.thy ===== *)
theory Births
  imports Accepting
begin

text \<open>
  The loop that accepts connections: names of connections are distinct, every accepted descriptor belongs to a
  connection of the map or is closed, and the idle descriptor is put back after \<open>EMFILE\<close>.
\<close>

subsection \<open>Names\<close>

lemma conn_name_inj:
  assumes n: "length (c_str name) \<le> name_limit" and i: "1 \<le> i" "i < 2 ^ 31" and j: "1 \<le> j" "j < 2 ^ 31"
    and eq: "conn_name name i = conn_name name j"
  shows "i = j"
proof -
  have full: "conn_name name k = name @ ''-'' @ c_str name @ ''#'' @ decimal (nat k)" if k: "1 \<le> k" "k < 2 ^ 31" for k
  proof -
    have "length (decimal (nat k)) \<le> 10" using k by (intro decimal_length) simp_all
    then show ?thesis using n k by (simp add: conn_name_def snprintf_def decimal_int_def name_limit_def)
  qed
  from eq have "decimal (nat i) = decimal (nat j)" by (simp add: full [OF i] full [OF j])
  then have "nat i = nat j" by (metis undecimal_decimal)
  then show ?thesis using i j by simp
qed

lemma set_map_set: "k \<notin> fst ` set xs \<Longrightarrow> set (map_set k v xs) = insert (k, v) (set xs)"
  by (induction xs) auto

lemma sorted_map_set:
  assumes "sorted_wrt (<) (map fst xs)" and "k \<notin> fst ` set xs"
  shows "sorted_wrt (<) (map fst (map_set k v xs))"
  using assms
proof (induction xs)
  case (Cons x xs)
  then have "set (map_set k v xs) = insert (k, v) (set xs)" by (intro set_map_set) simp
  with Cons show ?case by auto
qed simp

subsection \<open>A new connection\<close>

lemma life_new: "cn_state k = kConnected \<Longrightarrow> 0 \<le> cn_socketFd k \<Longrightarrow> conn_life False False True 0 True k"
  by (simp add: conn_life_def)

lemma conn_name_new:
  assumes ok: "srv_ok w s r" and n: "sv_nextConnId r < 2 ^ 31 - 1"
  shows "conn_name (sv_name r) (sv_nextConnId r) \<notin> fst ` set (sv_connections r)"
proof
  assume "conn_name (sv_name r) (sv_nextConnId r) \<in> fst ` set (sv_connections r)"
  then obtain i where i: "1 \<le> i" "i < sv_nextConnId r" "conn_name (sv_name r) (sv_nextConnId r) = conn_name (sv_name r) i"
    using ok unfolding srv_ok_def by blast
  have "sv_nextConnId r = i"
    by (rule conn_name_inj [OF _ _ _ _ _ i(3)]) (use ok i n in \<open>auto simp: srv_ok_def\<close>)
  with i show False by simp
qed

lemma srv_ok_more:
  assumes "srv_ok w s r" and "conns w p = None" and "conns w' = (conns w)(p \<mapsto> k)" "acceptors w' = acceptors w"
  shows "srv_ok w' s r"
proof -
  have "\<exists>k. conns w' q = Some k \<and> cn_name k = nm \<and> cn_closeCb k = Some s"
    if "\<exists>k. conns w q = Some k \<and> cn_name k = nm \<and> cn_closeCb k = Some s" for q nm
    using that assms(2,3) by (cases "q = p") auto
  with assms(1) show ?thesis unfolding srv_ok_def assms(4) by blast
qed

lemma srv_ok_insert:
  assumes ok: "srv_ok w s r" and new: "nm \<notin> fst ` set (sv_connections r)" and nm: "nm = conn_name (sv_name r) (sv_nextConnId r)"
    and n: "sv_nextConnId r < 2 ^ 31 - 1" and p: "conns w p = None" "conns w' = (conns w)(p \<mapsto> k)" "cn_name k = nm" "cn_closeCb k = Some s"
    and acc: "acceptors w' = acceptors w"
  shows "srv_ok w' s (r\<lparr>sv_nextConnId := sv_nextConnId r + 1, sv_connections := map_set nm p (sv_connections r)\<rparr>)"
proof -
  have ok': "srv_ok w' s r" by (rule srv_ok_more [OF ok p(1,2) acc])
  have "sorted_wrt (<) (map fst (map_set nm p (sv_connections r)))" using ok new by (intro sorted_map_set) (auto simp: srv_ok_def)
  moreover have "\<forall>(nm', q) \<in> insert (nm, p) (set (sv_connections r)). \<exists>k. conns w' q = Some k \<and> cn_name k = nm' \<and> cn_closeCb k = Some s"
    using ok' p(2-4) unfolding srv_ok_def by simp
  moreover have "\<exists>i. 1 \<le> i \<and> i < sv_nextConnId r + 1 \<and> nm' = conn_name (sv_name r) i"
    if n': "nm' \<in> insert nm (fst ` set (sv_connections r))" for nm'
  proof (cases "nm' = nm")
    case True
    then show ?thesis using ok nm by (intro exI [of _ "sv_nextConnId r"]) (auto simp: srv_ok_def)
  next
    case False
    then obtain i where "1 \<le> i" "i < sv_nextConnId r" "nm' = conn_name (sv_name r) i" using n' ok unfolding srv_ok_def by blast
    then show ?thesis by (intro exI [of _ i]) simp
  qed
  moreover have "fst ` set (map_set nm p (sv_connections r)) = insert nm (fst ` set (sv_connections r))"
    by (simp add: set_map_set [OF new])
  ultimately show ?thesis using ok' n unfolding srv_ok_def by (simp add: set_map_set [OF new])
qed

lemma buffer_new_ok: "buffer_inv (Buffer_new kInitialSize)"
  by (rule buffer_inv_new) (simp add: kCheapPrepend_def kInitialSize_def vec_max_size_def)

lemma invM_new_conn:
  assumes inv: "invM (cx_fd f cx) w M" and f: "f \<notin> cx_fds cx" "written f (calls w) = []"
    and pc: "unused p w" "unused c w" "p \<noteq> c" and s: "servers w s = Some r" "sv_nextConnId r < 2 ^ 31 - 1"
    and nm: "nm = conn_name (sv_name r) (sv_nextConnId r)"
    and k: "cn_name k = nm" "cn_state k = kConnected" "cn_channel k = c" "cn_socketFd k = f" "cn_closeCb k = Some s" "cn_sent k = []"
      "cn_input k = Buffer_new kInitialSize" "cn_output k = Buffer_new kInitialSize"
    and ch: "ch_fd ch = f" "ch_tie ch = Some p" "ch_events ch = kReadEvent"
    and w': "conns w' = (conns w)(p \<mapsto> k)" "chans w' = (chans w)(c \<mapsto> ch)" "bound w' = (bound w)(c \<mapsto> OwnConn p)"
      "servers w' = (servers w)(s \<mapsto> r\<lparr>sv_nextConnId := sv_nextConnId r + 1, sv_connections := map_set nm p (sv_connections r)\<rparr>)"
      "refs w' = (refs w)(p := 3)" "acceptors w' = acceptors w" "udps w' = udps w" "expired w' = expired w" "held w' = held w" "calls w' = calls w"
      "lp_queue w' = lp_queue w" "lp_functors w' = lp_functors w"
    and r': "reactor_inv w'"
  shows "invM (cx_guard p (cx_guard p cx)) w' M"
proof -
  let ?cx = "cx_guard p (cx_guard p cx)" and ?r = "r\<lparr>sv_nextConnId := sv_nextConnId r + 1, sv_connections := map_set nm p (sv_connections r)\<rparr>"
  note up = unused_refs [OF inv pc(1)] and uc = unused_refs [OF inv pc(2)] and cnt = invMD(3) [OF inv] and kd = invMD(4) [OF inv]
  have ok: "srv_ok w s r" by (rule invMD(8) [OF inv s(1)])
  note new = conn_name_new [OF ok s(2), folded nm]
  have nons: "conns w p = None" "chans w c = None" "acceptors w p = None" "chans w p = None" "servers w p = None" "udps w p = None" "\<not> expired w p"
    "conns w c = None" "acceptors w c = None" "servers w c = None" "udps w c = None" "\<not> expired w c"
    using pc by (simp_all add: unused_def)
  have map: "in_map w' q \<longleftrightarrow> in_map w q \<or> q = p" for q
    unfolding in_map_upd [of w' w s ?r, OF w'(4)] in_map_split [OF s(1)] using set_map_set [OF new, of p] by auto
  have acc: "acc_owned w' = acc_owned w"
    unfolding fun_eq_iff acc_owned_def w' ex_map_upd ex_map_split [of "servers w", OF s(1)] by simp
  have maps: "server_alive w' = server_alive w" "server_known w' = server_known w" "chan_owned w' = chan_owned w"
    using s(1) by (auto simp: fun_eq_iff server_alive_def server_known_def chan_owned_def w' split: option.splits)
  have sc: "shared_chan w' = shared_chan w" using nons(2) by (auto simp: fun_eq_iff shared_chan_def w')
  have own: "own_fd w' = (own_fd w)(SockOf p := f)"
  proof
    fix x show "own_fd w' x = ((own_fd w)(SockOf p := f)) x" using k by (cases x) (auto simp: w')
  qed
  have tl: "tally cx w' M q = tally cx w M q + of_bool (q = p)" for q
    using up(9) by (auto simp: tally_def owners_def map acc maps w')
  have f0: "0 \<le> f" using inv_fds [OF inv] by (auto simp: fds_of_def)
  have nodes: "ConnectDestroyed p \<notin># M" using up(2) capt_mono [of "ConnectDestroyed p" M p] by (auto simp: tally_def)
  have notclosing: "p \<notin> cx_closing cx" "p \<notin> cx_dropping cx" using up(4) cnt by (auto simp: counts_def cx_wf_def)
  have conn: "conn_ok ?cx w' M q kq" if q: "conns w' q = Some kq" for q kq
  proof (cases "q = p")
    case True
    then have "kq = k" using q by (simp add: w')
    moreover have "conn_chan p k ch"
      using k ch f0 buffer_new_ok by (auto simp: conn_chan_def conn_events_def readableBytes_def Buffer_new_def)
    moreover have "conn_stream (calls w') k" using k f by (simp add: conn_stream_def w' peek_def Buffer_new_def)
    moreover have "server_alive w (Some s)" using s by (simp add: server_alive_def)
    ultimately show ?thesis
      using True k life_new [of k] f0 notclosing nodes s(1)
      by (auto simp: conn_ok_def w' map maps server_known_def not_in_iff)
  next
    case False
    then have q': "conns w q = Some kq" using q by (simp add: w')
    then have "cn_channel kq \<noteq> c" using conn_okD [OF inv q'] nons(2) by (metis option.distinct(1))
    with False show ?thesis by (intro conn_ok_transfer [OF invMD(7) [OF inv q']]) (auto simp: w' map maps)
  qed
  have srv: "srv_ok w' x y" if x: "servers w' x = Some y" for x y
  proof (cases "x = s")
    case True
    with x have "y = ?r" by (simp add: w')
    then show ?thesis using srv_ok_insert [OF ok new nm s(2) nons(1) w'(1) k(1,5) w'(6)] True by simp
  next
    case False
    then have "srv_ok w x y" using x invMD(8) [OF inv] by (simp add: w')
    then show ?thesis by (rule srv_ok_more [OF _ nons(1) w'(1,6)])
  qed
  show "invM ?cx w' M"
    unfolding invM_def
  proof (intro conjI allI ballI impI)
    show "pend ?cx w' M" by (rule pend_cx [OF pend_cong [OF invMD(1) [OF inv]]]) (simp_all add: w')
    show "reactor_inv w'" by (rule r')
    show "counts ?cx w' M"
      using cnt up(1,2) s(1) unfolding counts_def shared_def by (auto simp: tl w' sc cx_wf_guard)
    show "kinds w'" using kd nons s(1) pc(3) unfolding kinds_def by (auto simp: w')
    show "fds ?cx w'"
      using fds_of_take [OF inv_fds [OF inv, simplified] f(1), of "SockOf p"] nons(1) by (simp add: fds_iff own w')
    show "task_ok w' t" if "t \<in># M" for t using invMD(6) [OF inv that] by (cases t) (auto simp: maps sc w')
    show "acc_ok w' b rb" if "acceptors w' b = Some rb" for b rb
      by (rule acc_ok_transfer [OF invMD(9) [OF inv]]) (use that unused_chan(1) [OF inv pc(2)] in \<open>auto simp: w' maps\<close>)
    show "udp_ok w' u ru" if "udps w' u = Some ru" for u ru
      by (rule udp_ok_transfer [OF invMD(10) [OF inv]]) (use that unused_chan(2) [OF inv pc(2)] in \<open>auto simp: w'\<close>)
    show "chan_has_owner ?cx w' x y" if x: "chans w' x = Some y" for x y
    proof (cases "x = c")
      case True
      then show ?thesis using k(3) by (simp add: chan_has_owner_def w')
    next
      case False
      then have "chan_has_owner (cx_fd f cx) w x y" using x invMD(11) [OF inv] by (simp add: w')
      with False nons(1) show ?thesis by (auto simp: chan_has_owner_def w' split: option.splits owner.splits)
    qed
    show "act_ok w' M x" if x: "x \<in> cx_active ?cx" for x
    proof -
      have "x \<in> cx_active (cx_fd f cx)" using x by simp
      then show ?thesis using uc(7) by (intro act_ok_transfer [OF invMD(12) [OF inv]]) (auto simp: w')
    qed
  qed (use conn srv in auto)
qed

text \<open>
  \<open>newConnection\<close>: the constructor, the entry in the map and \<open>connectEstablished\<close> up to the callback of the application
  are one step of the invariant.
\<close>

lemma newConnection_inv:
  assumes inv: "inv (cx_fd f cx) w" and f: "f \<notin> cx_fds cx" "written f (calls w) = []" and s: "servers w s = Some r"
    and env: "env_ok e" and os: "os_ok (cx_reserved cx) (e_os e)"
  shows "wpF limits (newConnection e True s f peer w) (inv cx)"
proof -
  obtain M where M: "invM (cx_fd f cx) w M" using inv by (auto simp: inv_def)
  have wf: "cx_wf cx" using inv_wf [OF inv] by simp
  define p where "p = os_new (e_os e) (calls w) 0"
  define c where "c = os_new (e_os e) (calls w) (Suc 0)"
  let ?nm = "conn_name (sv_name r) (sv_nextConnId r)"
  show ?thesis
  proof (cases "sv_nextConnId r < 2 ^ 31 - 1 \<and> unused p w \<and> unused c w \<and> p \<noteq> c")
    case False
    then show ?thesis
      using s by (auto simp: newConnection_def assertInLoopThread_def TcpConnection_new_def Let_def limits_def unused_def p_def c_def)
  next
    case True
    then have n: "sv_nextConnId r < 2 ^ 31 - 1" and pc: "unused p w" "unused c w" "p \<noteq> c" by simp_all
    let ?k = "(TcpConnection_init ?nm c f (getLocalAddr (os_sockname (e_os e)) f) peer)\<lparr>cn_connectionCb := sv_connectionCb r,
        cn_messageCb := sv_messageCb r, cn_writeCompleteCb := sv_writeCompleteCb r, cn_closeCb := Some s\<rparr>"
    let ?ch = "(Channel_new f)\<lparr>ch_callbacks := (\<lambda>_. False)(ReadCb := True, WriteCb := True, CloseCb := True, ErrorCb := True), ch_tie := Some p\<rparr>"
    let ?r = "r\<lparr>sv_nextConnId := sv_nextConnId r + 1, sv_connections := map_set ?nm p (sv_connections r)\<rparr>"
    let ?w = "w\<lparr>bound := (bound w)(c \<mapsto> OwnConn p), servers := (servers w)(s \<mapsto> ?r), refs := (refs w)(p := 3),
        conns := (conns w)(p \<mapsto> ?k\<lparr>cn_state := kConnected\<rparr>), chans := (chans w)(c \<mapsto> ?ch)\<rparr>"
    have cs: "chans w c = None" using pc by (simp add: unused_def)
    have rw: "reactor_inv ?w" by (rule reactor_inv_fresh [OF invMD(2) [OF M] cs, of ?ch f]) (simp_all add: Channel_new_def)
    have reg: "wpR (enableReading (os_ctl (e_os e)) True c ?w) (\<lambda>w'. reactor_inv w' \<and> (\<exists>ch'. chan_effect c ?ch ?w w' ch' \<and> ch_events ch' = kReadEvent))"
      by (rule register_fresh [OF rw _ _ _ os]) (use fresh_fd [OF M, of f] in \<open>simp_all add: Channel_new_def\<close>)
    have step: "inv (cx_guard p (cx_guard p cx)) w2"
      if w2: "reactor_inv w2 \<and> (\<exists>ch'. chan_effect c ?ch ?w w2 ch' \<and> ch_events ch' = kReadEvent)" for w2
    proof -
      obtain ch' where ch': "chan_effect c ?ch ?w w2 ch'" "ch_events ch' = kReadEvent" using w2 by blast
      note more = chan_effect_more [OF ch'(1)] and eqs = same_objectsD(1-7) [OF chan_effect_more(1) [OF ch'(1)]]
      have "ch_fd ch' = f" "ch_tie ch' = Some p" using more(7) by (simp_all add: same_chan_def Channel_new_def)
      then have "invM (cx_guard p (cx_guard p cx)) w2 M"
        by (intro invM_new_conn [OF M f pc s n refl, of "?k\<lparr>cn_state := kConnected\<rparr>" ch' w2])
          (use ch'(2) w2 more eqs in \<open>simp_all add: TcpConnection_init_def\<close>)
      then show ?thesis by (auto simp: inv_def)
    qed
    have old: "map_of (sv_connections r) ?nm = None"
      using conn_name_new [OF invMD(8) [OF M s] n] by (simp add: map_of_eq_None_iff)
    let ?cb = "\<lambda>w3. if sv_connectionCb r then e_cb e (CbConnection p kConnected) w3 else Inr w3"
    have cb: "wpF limits (?cb w3) (inv (cx_guard p (cx_guard p cx)))" if "inv (cx_guard p (cx_guard p cx)) w3" for w3
      using env_ok_cb [OF env _ that, of "CbConnection p kConnected"] that os by simp
    have rel: "wpF limits (release_conn p w3) (\<lambda>w4. wpF limits (release_conn p w4) (inv cx))" if "inv (cx_guard p (cx_guard p cx)) w3" for w3
      by (rule wpF_mono [OF wpX [OF release_conn_inv [OF that cx_wf_guard [OF wf]]]]) (rule wpX [OF release_conn_inv [OF _ wf]])
    have "wpF limits (enableReading (os_ctl (e_os e)) True c ?w) (\<lambda>w3. wpF limits (?cb w3)
        (\<lambda>w4. wpF limits (release_conn p w4) (\<lambda>w5. wpF limits (release_conn p w5) (inv cx))))"
      by (rule wpF_mono [OF wpX [OF reg]]) (rule wpF_mono [OF cb rel], erule step)
    moreover have "p \<noteq> s" "c \<noteq> s" using pc s by (auto simp: unused_def)
    then have "newConnection e True s f peer w = bindR (bindR (bindR (enableReading (os_ctl (e_os e)) True c ?w) ?cb) (release_conn p)) (release_conn p)"
      using s pc n old by (simp add: newConnection_def assertInLoopThread_def TcpConnection_new_def Let_def insert_conn_def upd_conn_def
          connectEstablished_def setState_def Channel_tie_def setCallback_def upd_chan_def acquire_def unused_def TcpConnection_init_def
          Channel_new_def numeral_3_eq_3 flip: p_def c_def)
    ultimately show ?thesis by simp
  qed
qed

lemma newConnectionCb_inv:
  assumes inv: "inv (cx_fd f cx) w" and f: "f \<notin> cx_fds cx" "written f (calls w) = []"
    and env: "env_ok e" and os: "os_ok (cx_reserved cx) (e_os e)"
  shows "wpF limits (newConnectionCb e True s f peer w) (inv cx)"
  using newConnection_inv [OF inv f _ env os] inv_close_fd [OF inv f(1)] by (auto simp: newConnectionCb_def)

subsection \<open>The accept loop\<close>

text \<open>The idle descriptor of an acceptor is replaced.\<close>

lemma invM_acc_idle:
  assumes inv: "invM cx w M" and a: "acceptors w a = Some r" and w': "w' = w\<lparr>acceptors := (acceptors w)(a \<mapsto> r\<lparr>ac_idleFd := f\<rparr>), calls := h\<rparr>"
    and fds: "fds_of ((own_fd w)(IdleOf a := f)) h (cx_fds cx) (cx_reserved cx)"
    and wr: "\<And>p k. conns w p = Some k \<Longrightarrow> 0 \<le> cn_socketFd k \<Longrightarrow> written (cn_socketFd k) h = written (cn_socketFd k) (calls w)"
  shows "invM cx w' M"
proof -
  have eqs: "conns w' = conns w" "acceptors w' = (acceptors w)(a \<mapsto> r\<lparr>ac_idleFd := f\<rparr>)" "servers w' = servers w" "udps w' = udps w"
    "expired w' = expired w" "held w' = held w" "refs w' = refs w" "chans w' = chans w" "bound w' = bound w" "calls w' = h"
    by (simp_all add: w')
  have maps: "in_map w' = in_map w" "server_alive w' = server_alive w" "server_known w' = server_known w" "acc_owned w' = acc_owned w"
    by (auto simp: fun_eq_iff in_map_def server_alive_def server_known_def acc_owned_def eqs split: option.splits)
  have co: "chan_owned w' = chan_owned w"
    unfolding fun_eq_iff chan_owned_def eqs ex_map_upd ex_map_split [of "acceptors w", OF a] by simp
  have sc: "shared_chan w' = shared_chan w" by (auto simp: fun_eq_iff shared_chan_def eqs)
  have own: "own_fd w' = (own_fd w)(IdleOf a := f)"
  proof
    fix x show "own_fd w' x = ((own_fd w)(IdleOf a := f)) x" using a by (cases x) (auto simp: eqs)
  qed
  show ?thesis
  proof (rule invM_other [OF inv])
    show "pend cx w' M" by (rule pend_cong [OF invMD(1) [OF inv]]) (simp_all add: w')
    show "reactor_inv w'" by (rule reactor_inv_cong [OF _ _ _ invMD(2) [OF inv]]) (simp_all add: w')
    have "tally cx w' = tally cx w" by (rule tally_cong) (simp_all add: fun_eq_iff owners_def maps co eqs)
    then show "counts cx w' M" using invMD(3) [OF inv] a unfolding counts_def shared_def by (auto simp: eqs sc)
    show "kinds w'" using invMD(4) [OF inv] a by (auto simp: kinds_def eqs)
    show "fds cx w'" using fds by (simp add: fds_iff own eqs)
    show "task_ok w' t" if "t \<in># M" for t using invMD(6) [OF inv that] a by (cases t) (auto simp: maps sc eqs)
    show "srv_ok w' s r" if "servers w' s = Some r" for s r
      by (rule srv_ok_transfer [OF invMD(8) [OF inv] eqs(1)]) (use that a in \<open>auto simp: eqs\<close>)
    show "acc_ok w' b rb" if b: "acceptors w' b = Some rb" for b rb
    proof (cases "b = a")
      case True
      then show ?thesis using b invMD(9) [OF inv a] by (auto simp: acc_ok_def eqs maps cong: option.case_cong)
    next
      case False
      with b show ?thesis by (intro acc_ok_transfer [OF invMD(9) [OF inv]]) (auto simp: eqs maps)
    qed
    show "udp_ok w' u ru" if "udps w' u = Some ru" for u ru
      by (rule udp_ok_transfer [OF invMD(10) [OF inv]]) (use that in \<open>auto simp: eqs\<close>)
    show "chan_has_owner cx w' x y" if "chans w' x = Some y" for x y
      using invMD(11) [OF inv, of x y] that a by (auto simp: chan_has_owner_def eqs split: option.splits owner.splits)
    show "act_ok w' M x" if "x \<in> cx_active cx" for x
      by (rule act_ok_transfer [OF invMD(12) [OF inv that]]) (simp_all add: eqs)
  qed (use wr in \<open>auto simp: eqs maps\<close>)
qed

lemma pinned_acceptor:
  assumes "inv cx w" and "a \<in> cx_pinned cx"
  obtains M r c where "invM cx w M" "acceptors w a = Some r" "ac_listening r" "ac_acceptChannel r = Some c"
    "0 \<le> ac_acceptSocket r" "ac_acceptSocket r \<in> open_fds (calls w)"
proof -
  obtain M where M: "invM cx w M" using assms(1) by (auto simp: inv_def)
  obtain r where r: "acceptors w a = Some r" "ac_listening r" using invMD(3) [OF M] assms(2) by (auto simp: counts_def)
  then obtain c where c: "ac_acceptChannel r = Some c" "0 \<le> ac_acceptSocket r"
    using invMD(9) [OF M r(1)] by (auto simp: acc_ok_def split: option.splits)
  have "ac_acceptSocket r \<in> open_fds (calls w)" using own_fd_open(1) [OF invMD(5) [OF M], of "ListenOf a"] r(1) c(2) by simp
  with M r c show thesis by (intro that)
qed

lemma fds_of_open: "fds_of own h F R \<Longrightarrow> 0 \<le> own x \<Longrightarrow> own x \<in> open_fds h"
  unfolding fds_of_def by blast

lemma fds_of_held: "fds_of own h F R \<Longrightarrow> F \<subseteq> open_fds h"
  unfolding fds_of_def by blast

lemma fds_of_swap_idle:
  assumes fds: "fds_of own h F R" and s: "own l = s" "0 \<le> s" "l \<noteq> i"
    and h1: "h1 = (if 0 \<le> own i then h @ [SysClose (own i)] else h)" and f: "f \<notin> open_fds h1 \<union> R"
    and h3: "h3 = (if 0 \<le> f then (h1 @ [SysAccept s f]) @ [SysClose f] else h1 @ [SysAccept s f])" and g: "g \<notin> open_fds h3 \<union> R"
  shows "fds_of (own(i := g)) (h3 @ [SysOpen g]) F R"
    and "own x = y \<Longrightarrow> 0 \<le> y \<Longrightarrow> x \<noteq> i \<Longrightarrow> written y (h3 @ [SysOpen g]) = written y h"
proof -
  let ?own = "own(i := -1)"
  have a1: "fds_of ?own h1 F R" using fds_of_close_own [OF fds, of i] by (simp add: h1)
  have opn: "y \<in> open_fds h1" if "own x = y" "0 \<le> y" "x \<noteq> i" for x y
    using fds_of_open [OF a1, of x] that by simp
  have F: "F \<subseteq> open_fds h1" by (rule fds_of_held [OF a1])
  have a2: "fds_of ?own (h1 @ [SysAccept s f]) (if 0 \<le> f then insert f F else F) R"
    using opn [OF s] by (intro fds_of_new [OF a1 _ f]) simp
  have a3: "fds_of ?own h3 F R"
    using a2 fds_of_close [of ?own "h1 @ [SysAccept s f]" f F R] F f unfolding h3 by (auto split: if_splits)
  have a4: "fds_of ?own (h3 @ [SysOpen g]) (if 0 \<le> g then insert g F else F) R" by (rule fds_of_new [OF a3 _ g]) simp
  have "g \<notin> F" using fds_of_held [OF a3] g by auto
  show "fds_of (own(i := g)) (h3 @ [SysOpen g]) F R"
  proof (cases "0 \<le> g")
    case True
    with fds_of_take [of ?own "h3 @ [SysOpen g]" g F R i] a4 \<open>g \<notin> F\<close> show ?thesis by simp
  next
    case False
    with a4 have "fds_of ?own (h3 @ [SysOpen g]) F R" by simp
    with False show ?thesis by (elim fds_of_cong) simp_all
  qed
  show "written y (h3 @ [SysOpen g]) = written y h" if "own x = y" "0 \<le> y" "x \<noteq> i"
  proof -
    have "f \<noteq> y" using opn [OF that] f by blast
    then show ?thesis by (simp add: h3 h1 written_snoc)
  qed
qed

lemma drop_one_inv:
  assumes inv: "inv cx w" and a: "a \<in> cx_pinned cx" and os: "os_ok (cx_reserved cx) os"
  shows "wpR (drop_one os a w) (inv cx)"
proof -
  obtain M r c where r: "invM cx w M" "acceptors w a = Some r" "ac_listening r" "ac_acceptChannel r = Some c"
    "0 \<le> ac_acceptSocket r" "ac_acceptSocket r \<in> open_fds (calls w)" by (rule pinned_acceptor [OF inv a])
  define h1 where "h1 = (if 0 \<le> ac_idleFd r then calls w @ [SysClose (ac_idleFd r)] else calls w)"
  define f where "f = fst (os_accept os h1 (ac_acceptSocket r))"
  define h3 where "h3 = (if 0 \<le> f then (h1 @ [SysAccept (ac_acceptSocket r) f]) @ [SysClose f] else h1 @ [SysAccept (ac_acceptSocket r) f])"
  define g where "g = os_open os h3"
  have new: "f \<notin> open_fds h1 \<union> cx_reserved cx" "g \<notin> open_fds h3 \<union> cx_reserved cx"
    using os by (simp_all add: f_def g_def os_ok_def)
  have roles: "own_fd w (ListenOf a) = ac_acceptSocket r" "own_fd w (IdleOf a) = ac_idleFd r" using r(2) by simp_all
  note swap = fds_of_swap_idle [OF inv_fds [OF r(1)] roles(1) r(5) _ _ new(1) h3_def new(2), of "IdleOf a"]
  let ?w = "w\<lparr>acceptors := (acceptors w)(a \<mapsto> r\<lparr>ac_idleFd := g\<rparr>), calls := h3 @ [SysOpen g]\<rparr>"
  have "invM cx ?w M"
  proof (rule invM_acc_idle [OF r(1,2) refl])
    show "fds_of ((own_fd w)(IdleOf a := g)) (h3 @ [SysOpen g]) (cx_fds cx) (cx_reserved cx)"
      by (rule swap(1)) (use roles(2) in \<open>simp_all add: h1_def\<close>)
    show "written (cn_socketFd k) (h3 @ [SysOpen g]) = written (cn_socketFd k) (calls w)" if "conns w p = Some k" "0 \<le> cn_socketFd k" for p k
      by (rule swap(2) [of "SockOf p"]) (use that roles(2) in \<open>simp_all add: h1_def\<close>)
  qed
  moreover have "drop_one os a w = Inr ?w"
  proof -
    have w1: "close_if_open (ac_idleFd r) w = w\<lparr>calls := h1\<rparr>"
      by (simp add: close_if_open_def sock_close_def log_call_def h1_def)
    have w2: "close_if_open f (log_call (SysAccept (ac_acceptSocket r) f) (w\<lparr>calls := h1\<rparr>)) = w\<lparr>calls := h3\<rparr>"
      by (simp add: close_if_open_def sock_close_def log_call_def h3_def)
    have w3: "openIdleFd os (w\<lparr>calls := h3\<rparr>) = (g, w\<lparr>calls := h3 @ [SysOpen g]\<rparr>)"
      by (simp add: openIdleFd_def log_call_def g_def Let_def)
    have f: "fst (os_accept os (calls (w\<lparr>calls := h1\<rparr>)) (ac_acceptSocket r)) = f" by (simp add: f_def)
    show ?thesis using r(2) unfolding drop_one_def by (simp only: derefR_def option.case w1 Let_def f w2 w3 prod.case) (simp add: upd_acceptor_def)
  qed
  ultimately show ?thesis by (auto simp: inv_def)
qed

lemma accept_loop_inv:
  assumes "inv cx w" and a: "a \<in> cx_pinned cx" and env: "env_ok e" and os: "os_ok (cx_reserved cx) (e_os e)"
  shows "wpF limits (accept_loop (e_os e) (newConnectionCb e True) n a w) (inv cx)"
  using assms(1)
proof (induction n arbitrary: w)
  case 0
  then show ?case by simp
next
  case (Suc n)
  obtain M r c where r: "invM cx w M" "acceptors w a = Some r" "ac_listening r" "ac_acceptChannel r = Some c"
    "0 \<le> ac_acceptSocket r" "ac_acceptSocket r \<in> open_fds (calls w)" by (rule pinned_acceptor [OF Suc.prems a])
  obtain f err addr len where acc: "os_accept (e_os e) (calls w) (ac_acceptSocket r) = (f, err, addr, len)" by (metis prod_cases4)
  have new: "f \<notin> open_fds (calls w) \<union> cx_reserved cx" and err: "f < 0 \<Longrightarrow> err \<in> set accept_transient"
    using os acc unfolding os_ok_def by (metis fst_conv)+
  let ?w1 = "log_call (SysAccept (ac_acceptSocket r) f) w"
  note opened = inv_new_fd [OF Suc.prems _ new, of "SysAccept (ac_acceptSocket r) f" AF_UNSPEC False "ac_acceptSocket r"]
  show ?case
  proof (cases "0 \<le> f")
    case True
    have i1: "inv (cx_fd f cx) ?w1" and f: "f \<notin> cx_fds cx" using opened r(6) True by simp_all
    have "written f (calls ?w1) = []" by (simp add: log_call_def)
    note new1 = newConnectionCb_inv [OF i1 f this env os]
    have "wpF limits (case ac_newConnectionCb r of None \<Rightarrow> Inr (sock_close f ?w1)
        | Some s \<Rightarrow> newConnectionCb e True s f (InetAddress_sockaddr addr len) ?w1) (inv cx)"
      using new1 inv_close_fd [OF i1 f] by (simp split: option.splits)
    then have "wpF limits (case ac_newConnectionCb r of None \<Rightarrow> Inr (sock_close f ?w1)
        | Some s \<Rightarrow> newConnectionCb e True s f (InetAddress_sockaddr addr len) ?w1)
        (\<lambda>w2. wpF limits (accept_loop (e_os e) (newConnectionCb e True) n a w2) (inv cx))"
      by (rule wpF_mono) (rule Suc.IH)
    with True acc r(2) show ?thesis by (simp add: sock_accept_def)
  next
    case False
    have i1: "inv cx ?w1" using opened r(6) False by simp
    from wpX [OF drop_one_inv [OF i1 a os]] i1 False acc r(2) err show ?thesis by (simp add: sock_accept_def)
  qed
qed

lemma Acceptor_handleRead_inv:
  assumes inv: "inv cx w" and a: "a \<in> cx_pinned cx" and env: "env_ok e" and os: "os_ok (cx_reserved cx) (e_os e)"
  shows "wpF limits (Acceptor_handleRead (e_os e) (newConnectionCb e True) True a w) (inv cx)"
proof -
  obtain M r c where "acceptors w a = Some r" by (rule pinned_acceptor [OF inv a])
  with accept_loop_inv [OF assms] show ?thesis by (simp add: Acceptor_handleRead_def assertInLoopThread_def)
qed

end
