(* ===== verification/Datagrams.thy ===== *)
theory Datagrams
  imports Births
begin

text \<open>
  UDP sockets keep the invariant: a socket owns its descriptor and its channel from \<open>ensureSocket\<close> to
  \<open>cleanupUdpSocket\<close>, and a failed \<open>bind\<close> of a new socket gives both back.
\<close>

subsection \<open>Steps that concern sockets only\<close>

lemma invM_udps:
  assumes inv: "invM cx w M"
    and w': "conns w' = conns w" "servers w' = servers w" "acceptors w' = acceptors w" "held w' = held w" "bound w' = bound w"
      "refs w' = refs w" "calls w' = calls w"
    and chs: "\<And>c. chans w' c = chans w c \<or> (\<exists>ch ch' u. chans w c = Some ch \<and> chans w' c = Some ch' \<and> same_chan ch ch'
        \<and> (ch_index ch \<noteq> -1 \<longrightarrow> ch_index ch' \<noteq> -1) \<and> bound w c = Some (OwnUdp u))"
    and objs: "\<And>p. udps w' p \<noteq> None \<Longrightarrow> udps w p \<noteq> None \<or> unused p w" "\<And>p. expired w p \<Longrightarrow> expired w' p"
      "\<And>p. expired w' p \<Longrightarrow> expired w p \<or> udps w p \<noteq> None \<and> udps w' p = None"
    and own: "chan_owned w' = chan_owned w"
    and parts: "pend cx w' M" "reactor_inv w'" "fds cx w'"
    and oks: "\<And>u r. udps w' u = Some r \<Longrightarrow> udp_ok w' u r"
      "\<And>c ch u. chans w' c = Some ch \<Longrightarrow> bound w c = Some (OwnUdp u) \<Longrightarrow> chan_has_owner cx w' c ch"
  shows "invM cx w' M"
proof -
  have cnt: "counts cx w M" and kd: "kinds w" by (rule invMD(3,4) [OF inv])+
  have maps: "in_map w' = in_map w" "server_alive w' = server_alive w" "acc_owned w' = acc_owned w"
    by (auto simp: fun_eq_iff in_map_def server_alive_def acc_owned_def w' split: option.splits)
  have known: "server_known w so \<Longrightarrow> server_known w' so" for so using objs(2) by (auto simp: server_known_def w' split: option.splits)
  have none: "chans w' c = None \<longleftrightarrow> chans w c = None" for c using chs [of c] by auto
  have other: "chans w' c = chans w c" if "\<And>u. bound w c \<noteq> Some (OwnUdp u)" for c using chs [of c] that by blast
  have sc: "shared_chan w' = shared_chan w" by (auto simp: fun_eq_iff shared_chan_def w' none simp flip: not_None_eq)
  have sh: "shared w' = shared w" by (simp add: fun_eq_iff shared_def sc w')
  have tl: "tally cx w' = tally cx w" by (simp add: fun_eq_iff tally_def owners_def maps own w')
  show ?thesis
  proof (rule invM_other [OF inv])
    show "counts cx w' M" using cnt unfolding counts_def by (auto simp: tl sh w')
    show "kinds w'" unfolding kinds_def w' none using kd objs unfolding kinds_def unused_def by metis
    show "task_ok w' t" if "t \<in># M" for t
      using that invMD(6) [OF inv, of t] known by (cases t) (auto simp: sc w')
    show "srv_ok w' s r" if "servers w' s = Some r" for s r
      by (rule srv_ok_transfer [OF invMD(8) [OF inv] w'(1)]) (use that in \<open>simp_all add: w'\<close>)
    show "acc_ok w' b rb" if b: "acceptors w' b = Some rb" for b rb
    proof (rule acc_ok_transfer [OF invMD(9) [OF inv]])
      show a: "acceptors w b = Some rb" using b by (simp add: w')
      show "chans w' c = chans w c \<and> bound w' c = bound w c" if c: "ac_acceptChannel rb = Some c" for c
      proof -
        obtain ch where "bound w c = Some (OwnAcceptor b)" by (rule acc_channel [OF inv a c])
        with other [of c] show ?thesis by (simp add: w')
      qed
    qed (rule known)
    show "chan_has_owner cx w' c ch" if c: "chans w' c = Some ch" for c ch
    proof (cases "\<exists>u. bound w c = Some (OwnUdp u)")
      case True
      then show ?thesis using oks(2) [OF c] by blast
    next
      case False
      then have "chan_has_owner cx w c ch" using other [of c] c by (intro invMD(11) [OF inv]) auto
      with False objs(2) show ?thesis by (auto simp: chan_has_owner_def w' split: option.splits owner.splits)
    qed
    show "act_ok w' M c" if "c \<in> cx_active cx" for c
      using invMD(12) [OF inv that] chs [of "fst c"] by (auto simp: act_ok_def w' same_chan_def)
    show "chans w' c = chans w c \<and> bound w' c = bound w c" if "bound w c = Some (OwnConn p)" for c p
      using that other [of c] by (simp add: w')
  qed (use known parts oks(1) in \<open>simp_all add: maps w'\<close>)
qed

text \<open>Changes of a socket that has no channel, before the first use and at the end.\<close>

lemma own_fd_udps:
  "conns w' = conns w \<Longrightarrow> acceptors w' = acceptors w \<Longrightarrow> udps w' = (udps w)(u := x) \<Longrightarrow>
   own_fd w' = (own_fd w)(UdpOf u := (case x of None \<Rightarrow> -1 | Some r \<Rightarrow> ud_sockfd r))"
proof
  fix y assume "conns w' = conns w" "acceptors w' = acceptors w" "udps w' = (udps w)(u := x)"
  then show "own_fd w' y = ((own_fd w)(UdpOf u := (case x of None \<Rightarrow> -1 | Some r \<Rightarrow> ud_sockfd r))) y" by (cases y) simp_all
qed

lemma chan_owned_udps:
  assumes "acceptors w' = acceptors w" "udps w' = (udps w)(u := z)"
  shows "chan_owned w' q \<longleftrightarrow> (\<exists>a r. acceptors w a = Some r \<and> ac_acceptChannel r = Some q) \<or> (\<exists>y. z = Some y \<and> ud_channel y = Some q)
    \<or> (\<exists>x y. x \<noteq> u \<and> udps w x = Some y \<and> ud_channel y = Some q)"
  unfolding chan_owned_def assms by (metis fun_upd_apply)

lemma chan_owned_split:
  "chan_owned w q \<longleftrightarrow> (\<exists>a r. acceptors w a = Some r \<and> ac_acceptChannel r = Some q) \<or> (\<exists>y. udps w u = Some y \<and> ud_channel y = Some q)
    \<or> (\<exists>x y. x \<noteq> u \<and> udps w x = Some y \<and> ud_channel y = Some q)"
  using chan_owned_udps [of w w u "udps w u"] by simp

lemma inv_udp_closed:
  assumes "inv cx w" and u: "unused u w \<or> (\<exists>r. udps w u = Some r \<and> ud_channel r = None)"
    and r': "ud_channel r' = None" "ud_sockfd r' < 0" "ud_state r' = kClosed"
  shows "inv cx (w\<lparr>udps := (udps w)(u \<mapsto> r')\<rparr>)"
proof -
  obtain M where M: "invM cx w M" using assms(1) by (auto simp: inv_def)
  let ?w = "w\<lparr>udps := (udps w)(u \<mapsto> r')\<rparr>"
  have old: "own_fd w (UdpOf u) < 0" "\<And>r c. udps w u = Some r \<Longrightarrow> ud_channel r \<noteq> Some c"
    using u invMD(10) [OF M, of u] by (auto simp: unused_def udp_ok_def)
  have "invM cx ?w M"
  proof (rule invM_udps [OF M])
    show "chan_owned ?w = chan_owned w"
      using old(2) r'(1) by (simp add: fun_eq_iff chan_owned_udps [of ?w w u "Some r'"] chan_owned_split [of w _ u]) blast
    show "pend cx ?w M" by (rule pend_cong [OF invMD(1) [OF M]]) simp_all
    show "reactor_inv ?w" by (rule reactor_inv_cong [OF _ _ _ invMD(2) [OF M]]) simp_all
    show "fds cx ?w" unfolding fds_iff own_fd_udps [of ?w w u "Some r'", simplified]
      by (rule fds_of_cong) (use inv_fds [OF M] old(1) r'(2) in auto)
    show "udp_ok ?w x r" if "udps ?w x = Some r" for x r
    proof (cases "x = u")
      case True
      with that r' show ?thesis by (simp add: udp_ok_def)
    next
      case False
      with that show ?thesis by (intro udp_ok_transfer [OF invMD(10) [OF M]]) auto
    qed
    show "chan_has_owner cx ?w c ch" if "chans ?w c = Some ch" "bound w c = Some (OwnUdp x)" for c ch x
      using invMD(11) [OF M, of c ch] that old(2) by (auto simp: chan_has_owner_def)
    show "udps w p \<noteq> None \<or> unused p w" if "udps ?w p \<noteq> None" for p using that u by (auto split: if_splits)
  qed auto
  then show ?thesis by (auto simp: inv_def)
qed

lemma inv_udp_gone:
  assumes "inv cx w" and u: "udps w u = Some r" "ud_channel r = None"
  shows "inv cx (w\<lparr>expired := (expired w)(u := True), udps := (udps w)(u := None)\<rparr>)"
proof -
  obtain M where M: "invM cx w M" using assms(1) by (auto simp: inv_def)
  let ?w = "w\<lparr>expired := (expired w)(u := True), udps := (udps w)(u := None)\<rparr>"
  have old: "own_fd w (UdpOf u) < 0" using u invMD(10) [OF M u(1)] by (auto simp: udp_ok_def)
  have "invM cx ?w M"
  proof (rule invM_udps [OF M])
    show "chan_owned ?w = chan_owned w" using u by (simp add: fun_eq_iff chan_owned_udps [of ?w w u None] chan_owned_split [of w _ u])
    show "pend cx ?w M" by (rule pend_cong [OF invMD(1) [OF M]]) simp_all
    show "reactor_inv ?w" by (rule reactor_inv_cong [OF _ _ _ invMD(2) [OF M]]) simp_all
    show "fds cx ?w" unfolding fds_iff own_fd_udps [of ?w w u None, simplified]
      by (rule fds_of_cong) (use inv_fds [OF M] old in auto)
    show "udp_ok ?w x y" if "udps ?w x = Some y" for x y
      using that by (intro udp_ok_transfer [OF invMD(10) [OF M]]) (auto split: if_splits)
    show "chan_has_owner cx ?w c ch" if "chans ?w c = Some ch" "bound w c = Some (OwnUdp x)" for c ch x
      using invMD(11) [OF M, of c ch] that u by (auto simp: chan_has_owner_def)
    show "expired w p \<or> udps w p \<noteq> None \<and> udps ?w p = None" if "expired ?w p" for p using that u by (auto split: if_splits)
  qed (auto split: if_splits)
  then show ?thesis by (auto simp: inv_def)
qed

text \<open>A step of a socket and its channel.\<close>

lemma invM_udp_step:
  assumes inv: "invM cx w M" and u: "udps w u = Some r" "ud_channel r = Some c" and c: "chans w c = Some ch"
    and w': "conns w' = conns w" "servers w' = servers w" "acceptors w' = acceptors w" "held w' = held w" "bound w' = bound w"
      "refs w' = refs w" "calls w' = calls w" "expired w' = expired w" "udps w' = (udps w)(u \<mapsto> r')" "chans w' = (chans w)(c \<mapsto> ch')"
    and r': "ud_channel r' = Some c" "ud_sockfd r' = ud_sockfd r" "ud_state r' \<noteq> kClosed"
    and ch': "same_chan ch ch'" "ch_index ch \<noteq> -1 \<Longrightarrow> ch_index ch' \<noteq> -1"
      "ch_events ch' = (if ud_state r' = kReceiving then kReadEvent else kNoneEvent)"
    and parts: "pend cx w' M" "reactor_inv w'"
  shows "invM cx w' M"
proof -
  obtain ch0 where "chans w c = Some ch0" and bnd: "bound w c = Some (OwnUdp u)" and ch0: "ch_fd ch0 = ud_sockfd r" "0 \<le> ud_sockfd r" "ch_tie ch0 = None"
    by (rule udp_channel [OF inv u])
  with c have ch: "ch_fd ch = ud_sockfd r" "ch_tie ch = None" by simp_all
  have ch1: "ch_fd ch' = ud_sockfd r" "ch_tie ch' = None" using ch'(1) ch by (simp_all add: same_chan_def)
  have inj: "ud_channel y \<noteq> Some c" if "udps w x = Some y" "x \<noteq> u" for x y
    using udp_channel [OF inv that(1), of c] bnd that(2) by auto
  show ?thesis
  proof (rule invM_udps [OF inv])
    show "chan_owned w' = chan_owned w"
      by (simp add: fun_eq_iff chan_owned_udps [OF w'(3,9)] chan_owned_split [of w _ u] u r'(1))
    have own: "own_fd w' = (own_fd w)(UdpOf u := ud_sockfd r)" using own_fd_udps [of w' w u "Some r'"] by (simp add: w' r')
    show "fds cx w'" unfolding fds_iff own w'(7) by (rule fds_of_cong) (use inv_fds [OF inv] u in auto)
    show "udp_ok w' x y" if x: "udps w' x = Some y" for x y
    proof (cases "x = u")
      case True
      with x have "y = r'" by (simp add: w')
      with True show ?thesis using r' ch'(3) ch1 ch0 bnd by (simp add: udp_ok_def w')
    next
      case False
      with x inj [of x y] show ?thesis by (intro udp_ok_transfer [OF invMD(10) [OF inv]]) (auto simp: w')
    qed
    show "chan_has_owner cx w' y z" if y: "chans w' y = Some z" "bound w y = Some (OwnUdp x)" for y z x
    proof (cases "y = c")
      case True
      with bnd r'(1) show ?thesis by (simp add: chan_has_owner_def w')
    next
      case False
      then have "chan_has_owner cx w y z" using y(1) by (intro invMD(11) [OF inv]) (simp add: w')
      with y(2) u(1) r'(1) u(2) False show ?thesis by (auto simp: chan_has_owner_def w')
    qed
  qed (use u c ch' bnd parts in \<open>auto simp: w' split: if_splits\<close>)
qed

subsection \<open>Receiving\<close>

lemma inv_udp_state:
  assumes "inv cx w" and u: "udps w u = Some r" "ud_channel r = Some c"
    and r': "ud_channel r' = Some c" "ud_sockfd r' = ud_sockfd r" "ud_state r' \<noteq> kClosed" "ud_state r' = kReceiving \<longleftrightarrow> ud_state r = kReceiving"
  shows "inv cx (w\<lparr>udps := (udps w)(u \<mapsto> r')\<rparr>)"
proof -
  obtain M where M: "invM cx w M" using assms(1) by (auto simp: inv_def)
  obtain ch where ch: "chans w c = Some ch" "ch_events ch = (if ud_state r = kReceiving then kReadEvent else kNoneEvent)"
    by (rule udp_channel [OF M u])
  have "invM cx (w\<lparr>udps := (udps w)(u \<mapsto> r')\<rparr>) M"
    by (rule invM_udp_step [OF M u ch(1), of _ r' ch])
      (use r' ch in \<open>auto simp: same_chan_def intro: pend_cong [OF invMD(1) [OF M]] reactor_inv_cong [OF _ _ _ invMD(2) [OF M]]\<close>)
  then show ?thesis by (auto simp: inv_def)
qed

lemma udp_interest:
  assumes M: "invM cx w M" and u: "udps w u = Some r" "ud_channel r = Some c" and ch: "chans w c = Some ch"
    and r': "ud_channel r' = Some c" "ud_sockfd r' = ud_sockfd r" "ud_state r' \<noteq> kClosed"
    and ev: "f (ch_events ch) = (if ud_state r' = kReceiving then kReadEvent else kNoneEvent)" and os: "os_ok Z os"
  shows "wpR (set_events f (os_ctl os) True c (w\<lparr>udps := (udps w)(u \<mapsto> r')\<rparr>)) (inv cx)"
proof -
  let ?w = "w\<lparr>udps := (udps w)(u \<mapsto> r')\<rparr>"
  have rw: "reactor_inv ?w" by (rule reactor_inv_cong [OF _ _ _ invMD(2) [OF M]]) simp_all
  have free: "fd_free c ?w" using udp_fd_free [OF M u] fd_free_cong [where w' = ?w and w = w] by simp
  have chw: "chans ?w c = Some ch" using ch by simp
  have fin: "inv cx w2" if w2: "reactor_inv w2 \<and> (\<exists>ch'. chan_effect c ch ?w w2 ch' \<and> ch_events ch' = f (ch_events ch)
      \<and> (ch_index ch \<noteq> -1 \<longrightarrow> ch_index ch' \<noteq> -1))" for w2
  proof -
    obtain ch' where ch': "chan_effect c ch ?w w2 ch'" "ch_events ch' = f (ch_events ch)" "ch_index ch \<noteq> -1 \<longrightarrow> ch_index ch' \<noteq> -1"
      using w2 by blast
    note more = chan_effect_more [OF ch'(1)] and eqs = same_objectsD(1-7) [OF chan_effect_more(1) [OF ch'(1)]]
    have "pend cx w2 M" by (rule pend_cong [OF invMD(1) [OF M]]) (simp_all add: more)
    then have "invM cx w2 M"
      by (intro invM_udp_step [OF M u ch, of w2 r' ch']) (use r' ev ch' w2 more eqs in simp_all)
    then show ?thesis by (auto simp: inv_def)
  qed
  from set_events_spec [OF rw chw free, of "os_ctl os" f, unfolded ctl_faults_ok [OF os]] show ?thesis
    by (rule wpF_mono) (rule fin)
qed

lemma startReceive_inv:
  assumes inv: "inv cx w" and u: "udps w u \<noteq> None" and os: "os_ok Z os"
  shows "wpR (startReceive os True u w) (\<lambda>(ok, err, w'). inv cx w')"
proof -
  obtain r where r: "udps w u = Some r" using u by auto
  obtain M where M: "invM cx w M" using inv by (auto simp: inv_def)
  show ?thesis
  proof (cases "ud_channel r")
    case None
    with r inv show ?thesis by (simp add: startReceive_def)
  next
    case (Some c)
    obtain ch where ch: "chans w c = Some ch" "ch_events ch = (if ud_state r = kReceiving then kReadEvent else kNoneEvent)"
      by (rule udp_channel [OF M r Some])
    have "wpR (enableReading (os_ctl os) True c (w\<lparr>udps := (udps w)(u \<mapsto> r\<lparr>ud_state := kReceiving\<rparr>)\<rparr>)) (inv cx)"
      unfolding enableReading_def by (rule udp_interest [OF M r Some ch(1) _ _ _ _ os]) (use Some ch(2) in \<open>simp_all add: kNoneEvent_def\<close>)
    then show ?thesis using r Some inv by (simp add: startReceive_def upd_udp_def)
  qed
qed

lemma stopReceive_inv:
  assumes inv: "inv cx w" and u: "udps w u \<noteq> None" and os: "os_ok Z os"
  shows "wpR (stopReceive os True u w) (inv cx)"
proof -
  obtain r where r: "udps w u = Some r" using u by auto
  obtain M where M: "invM cx w M" using inv by (auto simp: inv_def)
  show ?thesis
  proof (cases "ud_channel r")
    case None
    with r inv show ?thesis by (simp add: stopReceive_def)
  next
    case (Some c)
    obtain ch where ch: "chans w c = Some ch" "ud_state r \<noteq> kClosed" "ch_events ch = (if ud_state r = kReceiving then kReadEvent else kNoneEvent)"
      by (rule udp_channel [OF M r Some])
    let ?r = "r\<lparr>ud_state := if ud_state r = kReceiving then kBound else ud_state r\<rparr>"
    have "wpR (disableReading (os_ctl os) True c (w\<lparr>udps := (udps w)(u \<mapsto> ?r)\<rparr>)) (inv cx)"
      unfolding disableReading_def by (rule udp_interest [OF M r Some ch(1) _ _ _ _ os]) (use Some ch(2,3) in \<open>simp_all add: kNoneEvent_def\<close>)
    then show ?thesis using r Some inv by (simp add: stopReceive_def upd_udp_def)
  qed
qed

subsection \<open>Opening\<close>

lemma udp_new_channel:
  assumes M: "invM (cx_fd f cx) w M" and f: "f \<notin> cx_fds cx" and u: "udps w u = Some r" "ud_channel r = None" and c: "unused c w"
    and r': "ud_channel r' = Some c" "ud_sockfd r' = f" "ud_state r' = kOpened"
    and ch: "ch_fd ch = f" "ch_tie ch = None" "ch_events ch = kNoneEvent" "ch_index ch = -1" "\<not> ch_addedToLoop ch"
    and w': "w' = w\<lparr>udps := (udps w)(u \<mapsto> r'), chans := (chans w)(c \<mapsto> ch), bound := (bound w)(c \<mapsto> OwnUdp u), refs := (refs w)(c := 1)\<rparr>"
  shows "invM cx w' M"
proof (rule invM_new_chan [OF M, where F = "cx_fds cx" and ch = ch and own = "OwnUdp u"])
  have cs: "chans w c = None" and udp: "udps w c = None" using c by (simp_all add: unused_def)
  have old: "own_fd w (UdpOf u) < 0" using u invMD(10) [OF M u(1)] by (auto simp: udp_ok_def)
  have f0: "0 \<le> f" using inv_fds [OF M] by (auto simp: fds_of_def)
  show "pend cx w' M" by (rule pend_cx [OF pend_cong [OF invMD(1) [OF M]]]) (simp_all add: w')
  show "reactor_inv w'" by (rule reactor_inv_fresh [OF invMD(2) [OF M] cs]) (use ch in \<open>simp_all add: w' kNoneEvent_def\<close>)
  have own: "own_fd w' = (own_fd w)(UdpOf u := f)" using own_fd_udps [of w' w u "Some r'"] by (simp add: w' r')
  have "fds_of ((own_fd w)(UdpOf u := f)) (calls w) (cx_fds cx) (cx_reserved cx)"
    by (rule fds_of_take [OF inv_fds [OF M, simplified] f old])
  then show "fds cx w'" by (simp add: fds_iff own) (simp add: w')
  show "chan_owned w' q \<longleftrightarrow> chan_owned w q \<or> q = c" for q
    using u r'(1) chan_owned_udps [of w' w u "Some r'" q] by (auto simp: w' chan_owned_split [of w _ u])
  show "acc_ok w' a ra" if "acceptors w' a = Some ra" for a ra
    by (rule acc_ok_transfer [OF invMD(9) [OF M]])
      (use that unused_chan(1) [OF M c] in \<open>auto simp: w' server_known_def split: option.splits\<close>)
  show "udp_ok w' x y" if x: "udps w' x = Some y" for x y
  proof (cases "x = u")
    case True
    with x have "y = r'" by (simp add: w')
    with True show ?thesis using r' ch f0 by (simp add: udp_ok_def w')
  next
    case False
    with x unused_chan(2) [OF M c] show ?thesis by (intro udp_ok_transfer [OF invMD(10) [OF M]]) (auto simp: w')
  qed
  show "chan_has_owner cx w' y z" if y: "chans w' y = Some z" for y z
  proof (cases "y = c")
    case True
    with r'(1) show ?thesis by (simp add: chan_has_owner_def w')
  next
    case False
    then have "chan_has_owner (cx_fd f cx) w y z" using y invMD(11) [OF M] by (simp add: w')
    with False u r'(1) show ?thesis by (auto simp: chan_has_owner_def w' split: option.splits owner.splits)
  qed
qed (use c u in \<open>auto simp: w' cx_fd_def\<close>)

lemma ensureSocket_inv:
  assumes inv: "inv cx w" and u: "udps w u \<noteq> None" and os: "os_ok (cx_reserved cx) os"
  shows "wpF limits (ensureSocket os u fam w) (\<lambda>(ok, err, w'). inv cx w' \<and> (\<exists>r. udps w' u = Some r
    \<and> (ok \<longrightarrow> 0 \<le> ud_sockfd r \<and> ((\<exists>r0. udps w u = Some r0 \<and> ud_sockfd r0 < 0) \<longrightarrow>
         (\<forall>c ch. ud_channel r = Some c \<and> chans w' c = Some ch \<longrightarrow> ch_revents ch = 0)))))"
proof -
  obtain r where r: "udps w u = Some r" using u by auto
  obtain M where M: "invM cx w M" using inv by (auto simp: inv_def)
  show ?thesis
  proof (cases "0 \<le> ud_sockfd r")
    case True
    with r inv show ?thesis by (simp add: ensureSocket_def)
  next
    case neg: False
    then have closed: "ud_channel r = None" "ud_state r = kClosed"
      using invMD(10) [OF M r] by (auto simp: udp_ok_def split: option.splits)
    define f where "f = os_socket os (calls w) fam True"
    let ?w1 = "log_call (SysSocket fam True f) w"
    have new: "f \<notin> open_fds (calls w) \<union> cx_reserved cx" using os by (simp add: os_ok_def f_def)
    note sock = inv_new_fd [OF inv _ new, of "SysSocket fam True f" fam True]
    have r1: "udps ?w1 u = Some r" using r by (simp add: log_call_def)
    show ?thesis
    proof (cases "f < 0")
      case True
      then have "inv cx (?w1\<lparr>udps := (udps ?w1)(u \<mapsto> r\<lparr>ud_sockfd := f\<rparr>)\<rparr>)"
        using sock r1 closed by (intro inv_udp_closed) auto
      with True neg r r1 show ?thesis by (simp add: ensureSocket_def createNonblockingUdp_def Let_def upd_udp_def flip: f_def)
    next
      case False
      define c where "c = os_new os (calls ?w1) 0"
      let ?w2 = "setReusePort f True (setReuseAddr f True ?w1)"
      have i1: "inv (cx_fd f cx) ?w1" and fF: "f \<notin> cx_fds cx" using sock False by auto
      have call: "inv (cx_fd f cx) (log_call x w')" if "inv (cx_fd f cx) w'" "fd_call f x" "\<And>g d. written_step g x d = d" for x w'
        by (rule inv_call [OF that(1) _ that(2,3)]) (use that(1) in \<open>auto simp: inv_def fds_of_def dest!: inv_fds\<close>)
      have "inv (cx_fd f cx) ?w2" unfolding setReusePort_def setReuseAddr_def by (intro call i1) simp_all
      then obtain M2 where M2: "invM (cx_fd f cx) ?w2 M2" by (auto simp: inv_def)
      let ?r = "r\<lparr>ud_sockfd := f, ud_family := fam, ud_state := kOpened, ud_channel := Some c\<rparr>"
      let ?ch = "(Channel_new f)\<lparr>ch_callbacks := (\<lambda>_. False)(ReadCb := True)\<rparr>"
      let ?w3 = "w\<lparr>refs := (refs w)(c := 1), udps := (udps w)(u \<mapsto> ?r), bound := (bound w)(c \<mapsto> OwnUdp u), calls := calls ?w2, chans := (chans w)(c \<mapsto> ?ch)\<rparr>"
      have un: "unused c (w\<lparr>calls := h, udps := (udps w)(u \<mapsto> y)\<rparr>) = unused c w" for h y using r by (auto simp: unused_def)
      have "invM cx ?w3 M2" if "unused c w"
      proof (rule udp_new_channel [OF M2 fF _ closed(1), of u c ?r ?ch])
        show "?w3 = ?w2\<lparr>udps := (udps ?w2)(u \<mapsto> ?r), chans := (chans ?w2)(c \<mapsto> ?ch), bound := (bound ?w2)(c \<mapsto> OwnUdp u), refs := (refs ?w2)(c := 1)\<rparr>"
          by (rule world.equality) (simp_all add: log_call_def setReusePort_def setReuseAddr_def)
      qed (use r that in \<open>simp_all add: setReusePort_def setReuseAddr_def Channel_new_def kNoneEvent_def\<close>, simp add: log_call_def)
      moreover have "ensureSocket os u fam w = (if unused c w then Inr (True, None, ?w3) else Inl OutOfMemory)"
      proof -
        have c: "os_new os (calls w @ [SysSocket fam True f]) 0 = c" by (simp add: c_def log_call_def)
        show ?thesis
          using False neg r
          by (cases "unused c w") (simp_all add: ensureSocket_def createNonblockingUdp_def Let_def upd_udp_def setCallback_def upd_chan_def Channel_new_def
            log_call_def setReusePort_def setReuseAddr_def un c flip: f_def)
      qed
      ultimately show ?thesis using False by (auto simp: limits_def inv_def Channel_new_def)
    qed
  qed
qed

subsection \<open>Giving up the descriptor and the channel\<close>

text \<open>
  The channel \<open>c\<close> of a socket loses its owner. It stays in the store while the closure \<open>KeepChannel c\<close> waits
  and while \<open>cleanupUdpSocket\<close> holds its reference.
\<close>

definition closed_udp :: "udp option \<Rightarrow> bool" where
  "closed_udp z = (case z of None \<Rightarrow> True | Some r \<Rightarrow> ud_channel r = None \<and> ud_sockfd r < 0 \<and> ud_state r = kClosed)"

lemma invM_detach:
  assumes inv: "invM cx w M" and u: "udps w u = Some r" "ud_channel r = Some c" and c: "chans w c = Some ch"
    and ch': "same_chan ch ch'" "ch_index ch' = -1" and z: "closed_udp z" "z = None \<or> ch_revents ch = 0"
    and w': "conns w' = conns w" "servers w' = servers w" "acceptors w' = acceptors w" "held w' = held w" "bound w' = bound w"
      "expired w' = (if z = None then (expired w)(u := True) else expired w)" "udps w' = (udps w)(u := z)"
      "chans w' = (chans w)(c \<mapsto> ch')" "refs w' = (refs w)(c := refs w c + 1)" "calls w' = calls w @ [SysClose (ud_sockfd r)]"
    and parts: "pend cx w' (add_mset (KeepChannel c) M)" "reactor_inv w'"
  shows "invM (cx_ref c cx) w' (add_mset (KeepChannel c) M)"
proof -
  have cnt: "counts cx w M" and kd: "kinds w" by (rule invMD(3,4) [OF inv])+
  obtain ch0 where ch0: "chans w c = Some ch0" "bound w c = Some (OwnUdp u)" "0 \<le> ud_sockfd r" "ch_tie ch0 = None"
    by (rule udp_channel [OF inv u])
  have maps: "in_map w' = in_map w" "server_alive w' = server_alive w" "acc_owned w' = acc_owned w"
    by (auto simp: fun_eq_iff in_map_def server_alive_def acc_owned_def w' split: option.splits)
  have known: "server_known w so \<Longrightarrow> server_known w' so" for so by (auto simp: server_known_def w' split: option.splits)
  have inj: "ud_channel y \<noteq> Some c" if "udps w x = Some y" "x \<noteq> u" for x y
    using udp_channel [OF inv that(1), of c] ch0(2) that(2) by auto
  have injA: "ac_acceptChannel y \<noteq> Some c" if "acceptors w x = Some y" for x y
    using acc_channel [OF inv that, of c] ch0(2) by auto
  have own: "chan_owned w' q \<longleftrightarrow> chan_owned w q \<and> q \<noteq> c" for q
    using z(1) u inj injA unfolding chan_owned_udps [OF w'(3,7)] chan_owned_split [of w q u]
    by (auto simp: closed_udp_def split: option.splits)
  have owned: "chan_owned w c" using u by (auto simp: chan_owned_def)
  have sc: "shared_chan w' = shared_chan w" using c by (auto simp: fun_eq_iff shared_chan_def w')
  have shc: "shared_chan w c" using c ch0(2) by (auto simp: shared_chan_def)
  have sh: "shared w' = shared w" by (simp add: fun_eq_iff shared_def sc w')
  have tl: "tally (cx_ref c cx) w' (add_mset (KeepChannel c) M) q = tally cx w M q + of_bool (q = c)" for q
    using owned by (auto simp: tally_def owners_def maps own w')
  have ufd: "own_fd w' = (own_fd w)(UdpOf u := (case z of None \<Rightarrow> -1 | Some r \<Rightarrow> ud_sockfd r))" by (rule own_fd_udps) (simp_all add: w')
  show ?thesis
  proof (rule invM_other [OF inv])
    show "pend (cx_ref c cx) w' (add_mset (KeepChannel c) M)" by (rule pend_cx [OF parts(1)]) simp_all
    show "counts (cx_ref c cx) w' (add_mset (KeepChannel c) M)"
      using cnt shc unfolding counts_def by (auto simp: tl sh w' cx_wf_ref shared_def)
    show "kinds w'" using kd c u unfolding kinds_def by (auto simp: w')
    have "fds_of ((own_fd w)(UdpOf u := -1)) (calls w') (cx_fds cx) (cx_reserved cx)"
      using fds_of_close_own [OF inv_fds [OF inv], of "UdpOf u"] u ch0(3) by (simp add: w')
    then show "fds (cx_ref c cx) w'" unfolding fds_iff ufd cx_ref_simps
      by (rule fds_of_cong) (use z(1) in \<open>auto simp: closed_udp_def split: option.splits\<close>)
    show "task_ok w' t" if "t \<in># add_mset (KeepChannel c) M" for t
      using that invMD(6) [OF inv, of t] shc known by (cases t) (auto simp: sc w')
    show "srv_ok w' s r" if "servers w' s = Some r" for s r
      by (rule srv_ok_transfer [OF invMD(8) [OF inv] w'(1)]) (use that in \<open>simp_all add: w'\<close>)
    show "acc_ok w' b rb" if "acceptors w' b = Some rb" for b rb
      by (rule acc_ok_transfer [OF invMD(9) [OF inv] known]) (use that injA in \<open>auto simp: w'\<close>)
    show "udp_ok w' x y" if x: "udps w' x = Some y" for x y
    proof (cases "x = u")
      case True
      with x z(1) show ?thesis by (auto simp: udp_ok_def closed_udp_def w')
    next
      case False
      with x inj [of x y] show ?thesis by (intro udp_ok_transfer [OF invMD(10) [OF inv]]) (auto simp: w')
    qed
    show "chan_has_owner (cx_ref c cx) w' x y" if x: "chans w' x = Some y" for x y
    proof (cases "x = c")
      case True
      with x ch' ch0 c z(2) show ?thesis by (auto simp: chan_has_owner_def w' same_chan_def)
    next
      case False
      then have "chan_has_owner cx w x y" using x invMD(11) [OF inv] by (simp add: w')
      with False u show ?thesis by (auto simp: chan_has_owner_def w' split: option.splits owner.splits)
    qed
    show "act_ok w' (add_mset (KeepChannel c) M) x" if "x \<in> cx_active cx" for x
      using invMD(12) [OF inv that] c ch'(1) ch0(2) by (auto simp: act_ok_def w' same_chan_def)
    show "chans w' x = chans w x \<and> bound w' x = bound w x" if "bound w x = Some (OwnConn p)" for x p
      using that ch0(2) by (auto simp: w')
  qed (use known parts(2) in \<open>simp_all add: maps w'\<close>)
qed

lemma cleanupUdpSocket_inv:
  assumes M: "invM cx w M" and u: "udps w u = Some r" "ud_channel r = Some c" and z: "closed_udp z" and os: "os_ok Z os"
    and new: "\<And>ch. chans w c = Some ch \<Longrightarrow> z = None \<or> ch_revents ch = 0"
    and w1: "w1 = (if z = None then w\<lparr>expired := (expired w)(u := True), udps := (udps w)(u := None)\<rparr> else w\<lparr>udps := (udps w)(u := z)\<rparr>)"
  shows "wpR (cleanupUdpSocket os True (Some c) (ud_sockfd r) w1) (inv cx)"
proof -
  obtain ch where ch: "chans w c = Some ch" "bound w c = Some (OwnUdp u)" "0 \<le> ud_sockfd r" by (rule udp_channel [OF M u])
  have eqs1: "conns w1 = conns w" "servers w1 = servers w" "acceptors w1 = acceptors w" "held w1 = held w" "bound w1 = bound w"
    "expired w1 = (if z = None then (expired w)(u := True) else expired w)" "udps w1 = (udps w)(u := z)" "chans w1 = chans w"
    "refs w1 = refs w" "calls w1 = calls w" "lp_queue w1 = lp_queue w" "lp_functors w1 = lp_functors w" "pl_channels w1 = pl_channels w"
    "ctl_trace w1 = ctl_trace w" by (simp_all add: w1)
  have r: "reactor_inv w1" by (rule reactor_inv_cong [OF _ _ _ invMD(2) [OF M]]) (simp_all add: eqs1)
  have free: "fd_free c w1" using udp_fd_free [OF M u] fd_free_cong [where w' = w1 and w = w] by (simp add: eqs1)
  let ?fin = "\<lambda>w'. close_if_open (ud_sockfd r) w'"
  have fin: "wpR (release_chan c (?fin w')) (inv cx)"
    if w': "\<exists>w2 ch'. w' = queueTask True (KeepChannel c) w2 \<and> reactor_inv w2 \<and> chan_effect c ch w1 w2 ch'
       \<and> ch_events ch' = kNoneEvent \<and> ch_index ch' = -1" for w'
  proof -
    obtain w2 ch' where w2: "w' = queueTask True (KeepChannel c) w2" "reactor_inv w2" "chan_effect c ch w1 w2 ch'" "ch_index ch' = -1"
      using w' by blast
    note more = chan_effect_more [OF w2(3)] and eqs = same_objectsD(1-7) [OF chan_effect_more(1) [OF w2(3)]]
    have "pend cx w2 M" by (rule pend_cong [OF invMD(1) [OF M]]) (simp_all add: more eqs1)
    then have "pend cx (queueTask True (KeepChannel c) w2) (add_mset (KeepChannel c) M)" by (rule pend_queue)
    then have "pend cx (?fin w') (add_mset (KeepChannel c) M)" by (rule pend_cong) (simp_all add: w2(1))
    moreover have "reactor_inv (?fin w')" by (rule reactor_inv_cong [of _ w2]) (simp_all add: w2)
    ultimately have "invM (cx_ref c cx) (?fin w') (add_mset (KeepChannel c) M)"
      using ch(3) more eqs w2(4)
      by (intro invM_detach [OF M u ch(1) _ _ z new [OF ch(1)], of ch']) (simp_all add: w2(1) fun_eq_iff eqs1)
    then have "inv (cx_ref c cx) (?fin w')" by (auto simp: inv_def)
    moreover have "shared_chan (?fin w') c" using more eqs ch by (simp add: shared_chan_def w2(1) eqs1)
    moreover have "cx_drops c (cx_ref c cx) cx" using invMD(3) [OF M] by (simp add: counts_def)
    ultimately show ?thesis by (metis release_chan_drops)
  qed
  have "chans w1 c = Some ch" using ch(1) by (simp add: eqs1)
  then have "wpR (bindR (disableAll (os_ctl os) True c w1) (\<lambda>w1. bindR (Channel_remove (os_ctl os) True c w1) (\<lambda>w2.
      Inr (queueTask True (KeepChannel c) w2)))) (\<lambda>w'. wpR (release_chan c (?fin w')) (inv cx))"
    by (intro wpF_mono [OF detach_chan [OF r _ free os]] fin)
  then show ?thesis by (simp add: cleanupUdpSocket_def run_CleanupUdp_def release_chan_opt_def)
qed

lemma UdpSocket_destroy_inv:
  assumes inv: "inv cx w" and u: "udps w u \<noteq> None" and os: "os_ok Z os"
  shows "wpR (UdpSocket_destroy os True u w) (inv cx)"
proof -
  obtain r where r: "udps w u = Some r" using u by auto
  obtain M where M: "invM cx w M" using inv by (auto simp: inv_def)
  show ?thesis
  proof (cases "ud_channel r")
    case None
    then have "ud_sockfd r < 0" using invMD(10) [OF M r] by (simp add: udp_ok_def)
    with inv_udp_gone [OF inv r None] r None show ?thesis
      by (simp add: UdpSocket_destroy_def cleanupUdpSocket_def run_CleanupUdp_def release_chan_opt_def close_if_open_def)
  next
    case (Some c)
    from cleanupUdpSocket_inv [OF M r Some _ os, of None] r Some show ?thesis
      by (simp add: UdpSocket_destroy_def closed_udp_def)
  qed
qed

lemma udp_fd_open:
  assumes "inv cx w" "udps w u = Some r" "0 \<le> ud_sockfd r"
  shows "ud_sockfd r \<in> open_fds (calls w)"
proof -
  obtain M where "invM cx w M" using assms(1) by (auto simp: inv_def)
  then show ?thesis using own_fd_open(1) [OF invMD(5), of cx w M "UdpOf u"] assms by simp
qed

lemma udp_bind_inv:
  assumes inv: "inv cx w" and u: "udps w u \<noteq> None" and os: "os_ok (cx_reserved cx) os"
  shows "wpF limits (udp_bind os True u addr w) (\<lambda>(ok, err, w'). inv cx w')"
proof -
  obtain r0 where r0: "udps w u = Some r0" using u by auto
  have fin: "wpF limits (derefR (udps w1 u) (\<lambda>r.
         let (bound_ok, w2) = sock_bind os (ud_sockfd r) addr w1 in
         if \<not> bound_ok then
           (if ud_sockfd r0 < 0 then
              bindR (upd_udp u (\<lambda>r. r\<lparr>ud_channel := None, ud_family := AF_UNSPEC, ud_sockfd := -1, ud_state := kClosed\<rparr>) w2)
                (\<lambda>w3. bindR (cleanupUdpSocket os True (ud_channel r) (ud_sockfd r) w3) (\<lambda>w4. Inr (False, None, w4)))
            else Inr (False, None, w2))
         else if ud_state r \<noteq> kReceiving then
           bindR (upd_udp u (\<lambda>r. r\<lparr>ud_state := kBound\<rparr>) w2) (\<lambda>w3. Inr (True, None, w3))
         else Inr (True, None, w2))) (\<lambda>(ok, err, w'). inv cx w')"
    if w1: "inv cx w1" "udps w1 u = Some r" "0 \<le> ud_sockfd r"
      and new: "ud_sockfd r0 < 0 \<longrightarrow> (\<forall>c ch. ud_channel r = Some c \<and> chans w1 c = Some ch \<longrightarrow> ch_revents ch = 0)" for w1 r
  proof -
    obtain M where M: "invM cx w1 M" using w1(1) by (auto simp: inv_def)
    obtain c where c: "ud_channel r = Some c" using invMD(10) [OF M w1(2)] w1(3) by (auto simp: udp_ok_def split: option.splits)
    have i2: "inv cx (log_call (SysBind (ud_sockfd r) b) w1)" for b by (rule inv_call [OF w1(1) udp_fd_open [OF w1]]) simp_all
    have u2: "udps (log_call x w1) u = Some r" for x using w1(2) by (simp add: log_call_def)
    have st: "inv cx ((log_call (SysBind (ud_sockfd r) b) w1)\<lparr>udps := (udps (log_call (SysBind (ud_sockfd r) b) w1))(u \<mapsto> r\<lparr>ud_state := kBound\<rparr>)\<rparr>)"
      if "ud_state r \<noteq> kReceiving" for b by (rule inv_udp_state [OF i2 u2 c]) (use c that in simp_all)
    have cl: "wpR (cleanupUdpSocket os True (Some c) (ud_sockfd r) (w2\<lparr>udps := (udps w2)
          (u \<mapsto> r\<lparr>ud_channel := None, ud_family := AF_UNSPEC, ud_sockfd := -1, ud_state := kClosed\<rparr>)\<rparr>)) (inv cx)"
      if w2: "inv cx w2" "udps w2 u = Some r" "chans w2 = chans w1" and neg: "ud_sockfd r0 < 0" for w2
    proof -
      obtain M2 where M2: "invM cx w2 M2" using w2(1) by (auto simp: inv_def)
      show ?thesis by (rule cleanupUdpSocket_inv [OF M2 w2(2) c _ os, of "Some _"])
        (use new neg c w2(3) in \<open>auto simp: closed_udp_def\<close>)
    qed
    show ?thesis using w1(2) st i2 u2 c wpX [OF cl [OF i2 u2]] by (simp add: sock_bind_def Let_def upd_udp_def) (simp add: log_call_def)
  qed
  show ?thesis
    unfolding udp_bind_def r0 derefR_simps Let_def wpF_bind
  proof (rule wpF_mono [OF ensureSocket_inv [OF assms, of "family addr"]], goal_cases)
    case (1 x)
    obtain ok err w1 where x: "x = (ok, err, w1)" by (cases x)
    show ?case
    proof (cases ok)
      case True
      with 1 x r0 obtain r where "inv cx w1" "udps w1 u = Some r" "0 \<le> ud_sockfd r"
        "ud_sockfd r0 < 0 \<longrightarrow> (\<forall>c ch. ud_channel r = Some c \<and> chans w1 c = Some ch \<longrightarrow> ch_revents ch = 0)" by auto
      from fin [OF this, unfolded Let_def] True show ?thesis by (simp only: x prod.case not_True_eq_False if_False)
    next
      case False
      with 1 x show ?thesis by auto
    qed
  qed
qed

lemma sendTo_inv:
  assumes inv: "inv cx w" and u: "udps w u \<noteq> None" and os: "os_ok (cx_reserved cx) os"
  shows "wpF limits (sendTo os u data addr w) (\<lambda>(n, err, w'). inv cx w')"
proof -
  have "inv cx (log_call (SysSendTo (ud_sockfd r) data addr n) w1)" if w1: "inv cx w1" "udps w1 u = Some r" "0 \<le> ud_sockfd r" for w1 r n
    by (rule inv_call [OF w1(1) udp_fd_open [OF w1]]) simp_all
  then show ?thesis
    unfolding sendTo_def wpF_bind by (intro wpF_mono [OF ensureSocket_inv [OF assms]]) (auto simp: Let_def split: prod.splits)
qed

lemma udp_channelRead_inv:
  assumes inv: "inv cx w" and u: "\<And>r. udps w u = Some r \<Longrightarrow> 0 \<le> ud_sockfd r" and env: "env_ok e" and os: "os_ok (cx_reserved cx) (e_os e)"
  shows "wpF limits (udp_channelRead e True u w) (inv cx)"
proof (cases "udps w u")
  case None
  with inv show ?thesis by (simp add: udp_channelRead_def)
next
  case (Some r)
  obtain n err bytes addr len where rd: "os_recvfrom (e_os e) (calls w) (ud_sockfd r) (ud_bufSize r) = (n, err, bytes, addr, len)"
    by (metis prod_cases5)
  have i1: "inv cx (log_call (SysRecvFrom (ud_sockfd r) n) w)"
    by (rule inv_call [OF inv udp_fd_open [OF inv Some u [OF Some]]]) simp_all
  with env_ok_cb [OF env os i1] Some rd show ?thesis
    by (simp add: udp_channelRead_def udp_handleRead_def assertInLoopThread_def Let_def)
qed

lemma UdpSocket_new_inv:
  assumes inv: "inv cx w"
  shows "wpF limits (UdpSocket_new os w) (\<lambda>(u, w'). inv cx w' \<and> (\<exists>r. udps w' u = Some r \<and> ud_channel r = None \<and> ud_sockfd r < 0 \<and> ud_state r = kClosed))"
  using inv_udp_closed [OF inv, of "os_new os (calls w) 0" UdpSocket_init]
  by (auto simp: UdpSocket_new_def Let_def limits_def UdpSocket_init_def)

lemma setReadCallback_inv:
  assumes inv: "inv cx w" and u: "udps w u \<noteq> None"
  shows "wpR (setReadCallback u w) (inv cx)"
proof -
  obtain r where r: "udps w u = Some r" using u by auto
  obtain M where M: "invM cx w M" using inv by (auto simp: inv_def)
  show ?thesis
    using inv_udp_state [OF inv r] inv_udp_closed [OF inv, of u "r\<lparr>ud_readCb := True\<rparr>"] invMD(10) [OF M r] r
    by (cases "ud_channel r") (auto simp: setReadCallback_def upd_udp_def udp_ok_def)
qed

end
