(* ===== verification/Actions.thy ===== *)
theory Actions
  imports Datagrams
begin

text \<open>
  Applications keep the invariant: every call of the library that a callback may make does, so callbacks nested
  to any depth do. What an application must respect is \<open>action_ok\<close>: it destroys a server only from a closure,
  when the loop serves no channels, it starts a UDP socket on the thread of the loop, it gives servers names that leave room for the number of a connection, and
  its messages fit into a vector.
\<close>

subsection \<open>Pointers kept by the application\<close>

lemma invM_held:
  assumes inv: "invM cx w M" and w': "w' = w\<lparr>held := H, refs := R\<rparr>"
    and cx': "cx_closing cx' = cx_closing cx" "cx_dropping cx' = cx_dropping cx" "cx_active cx' = cx_active cx"
      "cx_fds cx' = cx_fds cx" "cx_running cx' = cx_running cx" "cx_local cx' = cx_local cx" "cx_reserved cx' = cx_reserved cx"
    and cnt: "counts cx' w' M"
  shows "invM cx' w' M"
proof -
  have eqs: "conns w' = conns w" "acceptors w' = acceptors w" "servers w' = servers w" "udps w' = udps w" "expired w' = expired w"
    "chans w' = chans w" "bound w' = bound w" "calls w' = calls w"
    by (simp_all add: w')
  have maps: "in_map w' = in_map w" "server_alive w' = server_alive w" "server_known w' = server_known w"
    "shared_chan w' = shared_chan w"
    by (auto simp: fun_eq_iff in_map_def server_alive_def server_known_def shared_chan_def eqs split: option.splits)
  have ofd: "own_fd w' = own_fd w" by (rule own_fd_cong) (simp_all add: eqs)
  show ?thesis
  proof (rule invM_other [OF inv])
    show "pend cx' w' M" by (rule pend_cx [OF pend_cong [OF invMD(1) [OF inv]]]) (simp_all add: w' cx')
    show "reactor_inv w'" by (rule reactor_inv_cong [OF _ _ _ invMD(2) [OF inv]]) (simp_all add: w')
    show "kinds w'" using invMD(4) [OF inv] by (simp add: kinds_def eqs)
    show "fds cx' w'" using inv_fds [OF inv] by (simp add: fds_iff ofd eqs cx')
    show "task_ok w' t" if "t \<in># M" for t using invMD(6) [OF inv that] by (cases t) (auto simp: eqs maps)
    show "srv_ok w' s r" if "servers w' s = Some r" for s r using invMD(8) [OF inv, of s r] that by (simp add: srv_ok_def eqs)
    show "acc_ok w' a r" if "acceptors w' a = Some r" for a r
      by (rule acc_ok_transfer [OF invMD(9) [OF inv]]) (use that in \<open>auto simp: eqs maps\<close>)
    show "udp_ok w' u r" if "udps w' u = Some r" for u r
      by (rule udp_ok_transfer [OF invMD(10) [OF inv]]) (use that in \<open>auto simp: eqs\<close>)
    show "chan_has_owner cx' w' c ch" if "chans w' c = Some ch" for c ch
      using invMD(11) [OF inv, of c ch] that by (simp add: chan_has_owner_def eqs cx' cong: option.case_cong owner.case_cong)
    show "act_ok w' M c" if "c \<in> cx_active cx" for c
      by (rule act_ok_transfer [OF invMD(12) [OF inv that]]) (simp_all add: eqs)
  qed (use cnt in \<open>auto simp: eqs maps cx'\<close>)
qed

lemma owners_held [simp]: "owners (w\<lparr>held := H\<rparr>) = owners w" "owners (w\<lparr>held := H, refs := R\<rparr>) = owners w"
  by (simp_all add: fun_eq_iff owners_def in_map_def acc_owned_def chan_owned_def)

lemma keep_inv:
  assumes "inv cx w" and p: "conns w p \<noteq> None"
  shows "inv cx (acquire p (w\<lparr>held := (held w)(p := held w p + 1)\<rparr>))"
proof -
  obtain M where M: "invM cx w M" using assms(1) by (auto simp: inv_def)
  let ?w = "w\<lparr>held := (held w)(p := held w p + 1), refs := (refs w)(p := refs w p + 1)\<rparr>"
  have "shared ?w = shared w" by (simp add: fun_eq_iff shared_def shared_chan_def)
  moreover have "tally cx ?w M q = tally cx w M q + of_bool (q = p)" for q by (simp add: tally_def)
  ultimately have "counts cx ?w M" using invMD(3) [OF M] p unfolding counts_def by (auto simp: shared_def)
  then have "invM cx ?w M" by (intro invM_held [OF M refl]) simp_all
  then show ?thesis by (auto simp: inv_def acquire_def)
qed

lemma forget_inv:
  assumes "inv cx w" and p: "0 < held w p"
  shows "wpR (release_conn p (w\<lparr>held := (held w)(p := held w p - 1)\<rparr>)) (inv cx)"
proof -
  obtain M where M: "invM cx w M" using assms(1) by (auto simp: inv_def)
  let ?w = "w\<lparr>held := (held w)(p := held w p - 1), refs := refs w\<rparr>"
  have "shared ?w = shared w" by (simp add: fun_eq_iff shared_def shared_chan_def)
  moreover have "tally (cx_ref p cx) ?w M q = tally cx w M q" for q using p by (simp add: tally_def)
  ultimately have "counts (cx_ref p cx) ?w M"
    using invMD(3) [OF M] unfolding counts_def by (auto simp: cx_wf_ref)
  then have "invM (cx_ref p cx) ?w M" by (intro invM_held [OF M refl]) simp_all
  moreover obtain k where "conns w p = Some k" using invMD(3) [OF M] p unfolding counts_def by blast
  moreover have "cx_drops p (cx_ref p cx) cx" using invMD(3) [OF M] by (simp add: counts_def)
  ultimately show ?thesis
    using release_conn_drops [of "cx_ref p cx" ?w p cx k] by (auto simp: inv_def)
qed

subsection \<open>Actions\<close>

fun action_ok :: "obs \<Rightarrow> action \<Rightarrow> bool" where
  "action_ok ev (Send p data) = (length data \<le> vec_max_size)"
| "action_ok ev (OtherSend p data) = (length data \<le> vec_max_size)"
| "action_ok ev (NewServer addr name c m wc) = (length (c_str name) \<le> name_limit)"
| "action_ok ev (DestroyServer s) = late ev"
| "action_ok ev (OtherUdpStart u) = False"
| "action_ok ev a = True"

lemma inv_frame:
  assumes "inv cx w" and "same_objects w w'" "same_loop w w'" "calls w' = calls w" "refs w' = refs w"
  shows "inv cx w'"
  using assms invM_frame unfolding inv_def by blast

lemma quit_inv: "inv cx w \<Longrightarrow> inv cx (quit il w)"
  by (erule inv_frame) (simp_all add: quit_def Let_def wakeup_def same_objects_def same_loop_def)

lemma log_obs_inv: "inv cx w \<Longrightarrow> inv cx (log_obs ev w)"
  by (erule inv_frame) (simp_all add: log_obs_def same_objects_def same_loop_def)

lemma wpF_snd_world: "wpF A (snd_world m) P \<longleftrightarrow> wpF A m (\<lambda>(x, y, w). P w)"
  by (simp add: snd_world_def case_prod_beta')

lemma udp_open_inv:
  assumes "inv cx w" and "udps w u \<noteq> None" and "os_ok (cx_reserved cx) os"
  shows "wpF limits (udp_open os u fam w) (\<lambda>(ok, err, w'). inv cx w')"
  unfolding udp_open_def by (rule wpF_mono [OF ensureSocket_inv [OF assms]]) auto

lemma do_action_inv:
  assumes inv: "inv cx w" and ok: "action_ok ev a" and act: "late ev \<longrightarrow> cx_active cx = {}"
    and env: "env_ok e" and os: "os_ok (cx_reserved cx) (e_os e)"
  shows "wpF limits (do_action e ev a w) (inv cx)"
proof (cases a)
  case (NewServer addr name c m wc)
  then have "length (c_str name) \<le> name_limit" using ok by simp
  from TcpServer_new_inv [OF inv os this, of addr]
  have "wpF limits (TcpServer_new (e_os e) addr name w) (\<lambda>(s, w1). wpF limits (setCallbacks c m wc s w1) (inv cx))"
    by (rule wpF_mono) (auto intro!: wpX [OF setCallbacks_inv])
  then show ?thesis unfolding NewServer by (simp add: case_prod_beta')
next
  case NewUdp
  have "wpF limits (UdpSocket_new (e_os e) w) (\<lambda>(u, w1). wpF limits (setReadCallback u w1) (inv cx))"
    by (rule wpF_mono [OF UdpSocket_new_inv [OF inv]]) (auto intro!: wpX [OF setReadCallback_inv])
  then show ?thesis unfolding NewUdp by (simp add: case_prod_beta')
qed (use inv ok act conn_send_inv [OF inv _ _ env os] wpX [OF conn_shutdown_inv [OF inv]] wpX [OF conn_setTcpNoDelay_inv [OF inv]]
    wpX [OF setHighWaterMarkCallback_inv [OF inv]] wpX [OF consume_input_inv [OF inv]] keep_inv [OF inv] wpX [OF forget_inv [OF inv]]
    inv_queue [OF inv, of "UserTask _"] quit_inv [OF inv] TcpServer_start_inv [OF inv _ os] TcpServer_destroy_inv [OF inv _ _ env os]
    udp_open_inv [OF inv _ os] udp_bind_inv [OF inv _ os] wpX [OF startReceive_inv [OF inv _ os]] wpX [OF stopReceive_inv [OF inv _ os]]
    sendTo_inv [OF inv _ os] wpX [OF UdpSocket_destroy_inv [OF inv _ os]] in
  \<open>auto simp: with_conn_def with_server_def with_udp_def wpF_snd_world case_prod_beta' elim!: wpF_mono\<close>)

subsection \<open>Applications\<close>

definition app_ok :: "application \<Rightarrow> bool" where
  "app_ok app \<longleftrightarrow> (\<forall>ev w. list_all (action_ok ev) (app ev w))"

lemma app_cb_inv:
  assumes app: "app_ok app" and "inv cx w" and os: "os_ok (cx_reserved cx) os" and "late ev \<longrightarrow> cx_active cx = {}"
  shows "wpF limits (app_cb os app d ev w) (inv cx)"
  using assms(2-)
proof (induction d arbitrary: cx ev w)
  case 0
  then show ?case by (simp add: log_obs_inv)
next
  case (Suc d)
  have env: "env_ok (mk_env os (app_cb os app d))" using Suc.IH by (auto simp: env_ok_def mk_env_def)
  have "wpF limits (foldR (do_action (mk_env os (app_cb os app d)) ev) (app ev w) (log_obs ev w)) (inv cx)"
  proof (rule wpF_foldR_inv)
    show "inv cx (log_obs ev w)" by (rule log_obs_inv [OF Suc.prems(1)])
    show "wpF limits (do_action (mk_env os (app_cb os app d)) ev a w1) (inv cx)" if "a \<in> set (app ev w)" "inv cx w1" for a w1
      by (rule do_action_inv [OF that(2) _ Suc.prems(3) env])
        (use that(1) app Suc.prems(2) in \<open>auto simp: app_ok_def list_all_iff mk_env_def\<close>)
  qed
  then show ?case by simp
qed

lemma app_env_ok: "app_ok app \<Longrightarrow> env_ok (app_env os app d)"
  using app_cb_inv by (auto simp: env_ok_def mk_env_def)

end
