(* ===== verification/Tasks.thy ===== *)
theory Tasks
  imports Actions
begin

text \<open>
  Running the queued closures. A closure leaves the multiset of waiting closures when it starts; the pointers it
  captured are then held by the context, until the closure is destroyed.
\<close>

subsection \<open>Taking a closure\<close>

definition takes :: "task \<Rightarrow> ctx \<Rightarrow> ctx \<Rightarrow> bool" where
  "takes t cx cx' \<longleftrightarrow> cx_closing cx' = cx_closing cx \<and> cx_dropping cx' = cx_dropping cx \<and> cx_guarded cx' = cx_guarded cx
     \<and> cx_pinned cx' = cx_pinned cx \<and> cx_active cx' = cx_active cx \<and> cx_fds cx' = cx_fds cx \<and> cx_reserved cx' = cx_reserved cx
     \<and> cx_guards cx' = (\<lambda>p. cx_guards cx p + count_list (captures t) p)"

lemma takes_counts:
  assumes cnt: "counts cx w (add_mset t M)" and t: "takes t cx cx'"
  shows "counts cx' w M"
proof -
  have "tally cx' w M p = tally cx w (add_mset t M) p" for p using t by (simp add: takes_def tally_def)
  moreover have "cx_wf cx \<Longrightarrow> cx_wf cx'" using t unfolding takes_def cx_wf_def by (metis trans_less_add1)
  ultimately show ?thesis using cnt t unfolding counts_def by (auto simp: takes_def)
qed

lemma takes_inv:
  assumes inv: "invM cx w (add_mset t M)" and t: "takes t cx cx'" "\<And>q. t \<noteq> ConnectDestroyed q" and pend: "pend cx' w M"
    and act: "cx_active cx = {}"
  shows "invM cx' w M"
proof (rule invM_other [OF inv])
  show "counts cx' w M" by (rule takes_counts [OF invMD(3) [OF inv] t(1)])
  show "fds cx' w" using invMD(5) [OF inv] t(1) by (simp add: fds_def takes_def)
  show "chan_has_owner cx' w c ch" if "chans w c = Some ch" for c ch
    using invMD(11) [OF inv that] t(1) by (simp add: chan_has_owner_def takes_def cong: option.case_cong owner.case_cong)
qed (use invMD [OF inv] t pend act in \<open>auto simp: takes_def\<close>)

lemma run_ConnectDestroyed:
  assumes inv: "invM cx w (add_mset (ConnectDestroyed p) M)" and t: "takes (ConnectDestroyed p) cx cx'" and pend: "pend cx' w M"
    and act: "cx_active cx = {}"
  shows "wpR (connectDestroyed e True p w) (inv cx')"
proof -
  obtain k where k: "conns w p = Some k" using invMD(6) [OF inv, of "ConnectDestroyed p"] by auto
  have life: "conn_life (p \<in> cx_closing cx) (p \<in> cx_dropping cx) (in_map w p) (count (add_mset (ConnectDestroyed p) M) (ConnectDestroyed p))
      (server_alive w (cn_closeCb k)) k" by (rule conn_okD [OF inv k])
  then have st: "cn_state k = kDisconnected" "0 \<le> cn_socketFd k" "\<not> in_map w p" "count M (ConnectDestroyed p) = 0"
    "p \<notin> cx_closing cx" "p \<notin> cx_dropping cx" by (auto simp: conn_life_def)
  have "wpR (bindR (Channel_remove (os_ctl (e_os e)) True (cn_channel k) w) (closeSocket p)) (\<lambda>w'. invM cx' w' M)"
    by (rule conn_gone [OF inv k st(1-3)])
      (use t act pend st takes_counts [OF invMD(3) [OF inv] t] in \<open>auto simp: takes_def\<close>)
  then have "wpR (bindR (Channel_remove (os_ctl (e_os e)) True (cn_channel k) w) (closeSocket p)) (inv cx')"
    by (rule wpF_mono) (auto simp: inv_def)
  with k st(1) show ?thesis by (simp add: connectDestroyed_def assertInLoopThread_def)
qed

lemma run_task_inv:
  assumes inv: "invM cx w (add_mset t M)" and t: "takes t cx cx'" and pend: "pend cx' w M" and act: "cx_active cx = {}"
    and env: "env_ok e" and os: "os_ok (cx_reserved cx) (e_os e)"
  shows "wpF limits (run_task e True t w) (inv cx')"
proof (cases "\<exists>p. t = ConnectDestroyed p")
  case True
  then show ?thesis using inv t pend act by (auto intro: wpX [OF run_ConnectDestroyed])
next
  case False
  then have inv': "inv cx' w" using takes_inv [OF inv t _ pend act] by (auto simp: inv_def)
  have os': "os_ok (cx_reserved cx') (e_os e)" and act': "cx_active cx' = {}" using os act t by (simp_all add: takes_def)
  have ok: "task_ok w t" using invMD(6) [OF inv] by simp
  show ?thesis
    using False ok inv' act' env_ok_cb [OF env os' inv'] run_SendTask_inv [OF inv' _ _ env os'] wpX [OF run_ShutdownTask_inv [OF inv']]
      run_StartServer_inv [OF inv' _ os']
    by (cases t) auto
qed

subsection \<open>Destroying a closure\<close>

lemma dispose_task_inv:
  assumes inv: "inv cx' w" and t: "takes t cx cx''" and wf: "cx_wf cx" and os: "os_ok Z os"
    and cx': "cx' = cx''\<lparr>cx_running := r, cx_local := l\<rparr>"
  shows "wpR (dispose_task os True t w) (inv (cx\<lparr>cx_running := r, cx_local := l\<rparr>))"
proof -
  let ?cx = "cx\<lparr>cx_running := r, cx_local := l\<rparr>"
  have "captures t = [] \<or> (\<exists>p. captures t = [p])" by (cases t) (auto split: option.splits)
  then show ?thesis
  proof (elim disjE exE)
    assume none: "captures t = []"
    then have "cx' = ?cx" using t cx' by (intro ctx.equality) (simp_all add: takes_def)
    with none inv show ?thesis by (simp add: dispose_task_def)
  next
    fix p assume p: "captures t = [p]"
    have "cx_drops p cx' ?cx"
      using t wf cx' p by (auto simp: cx_drops_def takes_def cx_wf_def fun_eq_iff)
    from release_drops [OF inv this os] p show ?thesis by (simp add: dispose_task_def)
  qed
qed

subsection \<open>The queue\<close>

definition cx_idle :: "ctx \<Rightarrow> bool" where
  "cx_idle cx \<longleftrightarrow> cx_running cx = None \<and> cx_local cx = {#} \<and> cx_active cx = {}"

text \<open>A step that changes the queues only.\<close>

lemma invM_queues:
  assumes inv: "invM cx w M" and w': "same_objects w w'" "chans w' = chans w" "pl_channels w' = pl_channels w" "ctl_trace w' = ctl_trace w"
      "calls w' = calls w" "refs w' = refs w"
    and cx': "cx' = cx\<lparr>cx_running := r, cx_local := l\<rparr>" and pend: "pend cx' w' M"
  shows "invM cx' w' M"
proof (rule invM_refs [OF inv w'(1-5) pend])
  have "tally cx' w' = tally cx w" using same_objectsD(7,11) [OF w'(1)] by (auto simp: fun_eq_iff tally_def cx')
  moreover have "shared w' = shared w" by (rule shared_cong [OF w'(1,2)])
  ultimately show "counts cx' w' M"
    using invMD(3) [OF inv] same_objectsD(1,2,7) [OF w'(1)] w'(6) by (auto simp: counts_def cx' cx_wf_def)
qed (simp_all add: cx')

lemma run_node_inv:
  assumes inv: "inv cx w" and idle: "cx_idle cx" and q: "mpsc_peek (lp_queue w) = Some q"
    and env: "env_ok e" and os: "os_ok (cx_reserved cx) (e_os e)"
  shows "wpF limits (run_node (run_task e True) (dispose_task (e_os e) True) q w) (inv cx)"
proof -
  obtain M where M: "invM cx w M" using inv by (auto simp: inv_def)
  obtain xs ys where x: "M = mset xs + mset ys" "loop_rep w xs ys" using invMD(1) [OF M] idle by (auto simp: pend_def cx_idle_def)
  then obtain t xs' where t: "xs = t # xs'" using peek_rep [OF x(2)] q by (cases xs) auto
  have nd: "node_data (mq_mem (lp_queue w) q) = Some t" using mq.front_val [of pending_order "lp_queue w" xs q] x(2) t q by (simp add: loop_rep_def)
  let ?cx = "cx\<lparr>cx_running := Some (q, t), cx_guards := \<lambda>p. cx_guards cx p + count_list (captures t) p\<rparr>"
  have tk: "takes t cx ?cx" by (simp add: takes_def)
  have "pend ?cx w (mset xs' + mset ys)" using x t q idle unfolding pend_def cx_idle_def by auto
  moreover have "invM cx w (add_mset t (mset xs' + mset ys))" using M x(1) t by simp
  ultimately have run: "wpF limits (run_task e True t w) (inv ?cx)"
    using run_task_inv [OF _ tk _ _ env os] idle by (simp add: cx_idle_def)
  let ?cx2 = "cx\<lparr>cx_running := Some (q, t), cx_local := {#}\<rparr>"
  have cx1: "?cx = ?cx\<lparr>cx_running := Some (q, t), cx_local := {#}\<rparr>" using idle by (intro ctx.equality) (simp_all add: cx_idle_def)
  have disp: "wpR (dispose_task (e_os e) True t w1) (inv ?cx2)" if "inv ?cx w1" for w1
    by (rule dispose_task_inv [OF that tk inv_wf [OF inv] os cx1])
  have fin: "inv cx (w2\<lparr>lp_queue := consume q (lp_queue w2)\<rparr>)" if w2: "inv ?cx2 w2" for w2
  proof -
    obtain M2 where M2: "invM ?cx2 w2 M2" using w2 by (auto simp: inv_def)
    obtain xs2 ys2 where x2: "M2 = mset xs2 + mset ys2" "loop_rep w2 (t # xs2) ys2" "mpsc_peek (lp_queue w2) = Some q"
      using invMD(1) [OF M2] by (auto simp: pend_def)
    have "loop_rep (w2\<lparr>lp_queue := consume q (lp_queue w2)\<rparr>) xs2 ys2"
      using mq.pop_front [of pending_order "lp_queue w2" "t # xs2" q] x2 by (simp add: loop_rep_def)
    then have "pend cx (w2\<lparr>lp_queue := consume q (lp_queue w2)\<rparr>) M2" using x2(1) idle by (auto simp: pend_def cx_idle_def)
    then have "invM cx (w2\<lparr>lp_queue := consume q (lp_queue w2)\<rparr>) M2"
      by (intro invM_queues [OF M2, where r = None and l = "{#}"]) (use idle in \<open>simp_all add: same_objects_def cx_idle_def\<close>)
    then show ?thesis by (auto simp: inv_def)
  qed
  have "wpF limits (run_task e True t w) (\<lambda>w1. wpF limits (dispose_task (e_os e) True t w1) (\<lambda>w2. inv cx (w2\<lparr>lp_queue := consume q (lp_queue w2)\<rparr>)))"
    by (rule wpF_mono [OF run]) (rule wpF_mono [OF wpX [OF disp]], auto intro: fin)
  then show ?thesis by (simp add: run_node_def nd)
qed

lemma drain_inv:
  assumes r: "drain (run_task e True) (dispose_task (e_os e) True) w = Some r" and "inv cx w" and idle: "cx_idle cx"
    and env: "env_ok e" and os: "os_ok (cx_reserved cx) (e_os e)"
  shows "wpF limits r (inv cx)"
proof -
  let ?x = "run_task e True" and ?d = "dispose_task (e_os e) True"
  have "?x = ?x \<and> ?d = ?d \<longrightarrow> inv cx w \<longrightarrow> wpF limits r (inv cx)"
  proof (rule drain.raw_induct [OF _ r, of "\<lambda>x d w r. x = ?x \<and> d = ?d \<longrightarrow> inv cx w \<longrightarrow> wpF limits r (inv cx)"], intro impI, goal_cases)
    case (1 dr x d w r)
    show ?case
    proof (cases "mpsc_peek (lp_queue w)")
      case None
      with 1 show ?thesis by auto
    next
      case (Some q)
      with run_node_inv [OF 1(4) idle Some env os] 1 show ?thesis
        by (cases "run_node x d q w") auto
    qed
  qed
  with assms(2) show ?thesis by blast
qed

subsection \<open>The fallback list\<close>

text \<open>The closures \<open>ended\<close> of the list have run and are not destroyed yet, \<open>rest\<close> is still to run.\<close>

definition cx_ran :: "task list \<Rightarrow> task list \<Rightarrow> ctx \<Rightarrow> ctx" where
  "cx_ran ended rest cx = cx\<lparr>cx_local := mset rest,
     cx_guards := \<lambda>p. cx_guards cx p + sum_list (map (\<lambda>t. count_list (captures t) p) ended)\<rparr>"

lemma takes_ran: "takes t (cx_ran ended (t # rest) cx) (cx_ran (ended @ [t]) rest cx)" "takes t (cx_ran ended rest cx) (cx_ran (t # ended) rest cx)"
  by (auto simp: takes_def cx_ran_def fun_eq_iff)

lemma run_list_inv:
  assumes "inv (cx_ran ended fs cx) w" and idle: "cx_idle cx" and env: "env_ok e" and os: "os_ok (cx_reserved cx) (e_os e)"
  shows "wpF limits (foldR (run_task e True) fs w) (inv (cx_ran (ended @ fs) [] cx))"
  using assms(1)
proof (induction fs arbitrary: ended w)
  case Nil
  then show ?case by simp
next
  case (Cons t rest)
  obtain M where M: "invM (cx_ran ended (t # rest) cx) w M" using Cons.prems by (auto simp: inv_def)
  have run: "cx_running (cx_ran a b cx) = None" "cx_active (cx_ran a b cx) = {}" "cx_reserved (cx_ran a b cx) = cx_reserved cx" for a b
    using idle by (simp_all add: cx_ran_def cx_idle_def)
  obtain xs ys where x: "M = mset xs + mset ys + mset (t # rest)" "loop_rep w xs ys"
    using invMD(1) [OF M] run by (auto simp: pend_def cx_ran_def)
  have "pend (cx_ran (ended @ [t]) rest cx) w (mset xs + mset ys + mset rest)"
    unfolding pend_def run option.case by (intro exI conjI) (auto simp: cx_ran_def x(2))
  moreover have "invM (cx_ran ended (t # rest) cx) w (add_mset t (mset xs + mset ys + mset rest))" using M x(1) by simp
  ultimately have "wpF limits (run_task e True t w) (inv (cx_ran (ended @ [t]) rest cx))"
    using run_task_inv [OF _ takes_ran(1) _ _ env] os by (simp add: run)
  then have "wpF limits (run_task e True t w) (\<lambda>w1. wpF limits (foldR (run_task e True) rest w1) (inv (cx_ran ((ended @ [t]) @ rest) [] cx)))"
    by (rule wpF_mono) (rule Cons.IH)
  then show ?case by simp
qed

lemma dispose_list_inv:
  assumes "inv (cx_ran fs [] cx) w" and idle: "cx_idle cx" and wf: "cx_wf cx" and os: "os_ok Z os"
  shows "wpR (foldR (dispose_task os True) fs w) (inv cx)"
  using assms(1)
proof (induction fs arbitrary: w)
  case Nil
  moreover have "cx_ran [] [] cx = cx" using idle by (intro ctx.equality) (simp_all add: cx_ran_def cx_idle_def)
  ultimately show ?case by simp
next
  case (Cons t fs)
  have eq: "cx_ran xs [] cx = (cx_ran xs [] cx)\<lparr>cx_running := None, cx_local := {#}\<rparr>" for xs
    using idle by (intro ctx.equality) (simp_all add: cx_ran_def cx_idle_def)
  have wf': "cx_wf (cx_ran fs [] cx)" using wf by (auto simp: cx_wf_def cx_ran_def)
  have "wpR (dispose_task os True t w) (inv (cx_ran fs [] cx))"
    using dispose_task_inv [OF Cons.prems takes_ran(2) wf' os eq] by (simp add: eq [symmetric])
  then have "wpR (dispose_task os True t w) (\<lambda>w1. wpR (foldR (dispose_task os True) fs w1) (inv cx))"
    by (rule wpF_mono) (rule Cons.IH)
  then show ?case by simp
qed

lemma doPendingFunctors_inv:
  assumes r: "doPendingFunctors (run_task e True) (dispose_task (e_os e) True) w = Some r" and inv: "inv cx w" and idle: "cx_idle cx"
    and env: "env_ok e" and os: "os_ok (cx_reserved cx) (e_os e)"
  shows "wpF limits r (inv cx)"
proof -
  let ?x = "run_task e True" and ?d = "dispose_task (e_os e) True"
  let ?w1 = "w\<lparr>lp_callingPending := True\<rparr>"
  have i1: "inv cx ?w1" by (rule inv_frame [OF inv]) (simp_all add: same_objects_def same_loop_def)
  have rest: "wpF limits (bindR (run_fallback ?x w2) (\<lambda>w3. foldR ?d (lp_functors w2) (w3\<lparr>lp_callingPending := False\<rparr>))) (inv cx)"
    if w2: "inv cx w2" for w2
  proof -
    let ?fs = "lp_functors w2"
    obtain M where M: "invM cx w2 M" using w2 by (auto simp: inv_def)
    obtain xs where x: "M = mset xs + mset ?fs" "loop_rep w2 xs ?fs"
      using invMD(1) [OF M] idle by (auto simp: pend_def cx_idle_def loop_rep_def)
    let ?cx = "cx\<lparr>cx_running := None, cx_local := mset ?fs\<rparr>" and ?w = "w2\<lparr>lp_functors := []\<rparr>"
    have "pend ?cx ?w M" using x by (auto simp: pend_def loop_rep_def)
    then have "invM ?cx ?w M" by (intro invM_queues [OF M _ _ _ _ _ _ refl]) (simp_all add: same_objects_def)
    moreover have "?cx = cx_ran [] ?fs cx" using idle by (intro ctx.equality) (simp_all add: cx_ran_def cx_idle_def)
    ultimately have "inv (cx_ran [] ?fs cx) ?w" by (auto simp: inv_def)
    from run_list_inv [OF this idle env os] have run: "wpF limits (run_fallback ?x w2) (inv (cx_ran ?fs [] cx))"
      by (simp add: run_fallback_def)
    have "wpR (foldR ?d ?fs (w3\<lparr>lp_callingPending := False\<rparr>)) (inv cx)" if "inv (cx_ran ?fs [] cx) w3" for w3
    proof (rule dispose_list_inv [OF _ idle inv_wf [OF inv] os])
      show "inv (cx_ran ?fs [] cx) (w3\<lparr>lp_callingPending := False\<rparr>)"
        by (rule inv_frame [OF that]) (simp_all add: same_objects_def same_loop_def)
    qed
    then show ?thesis using wpF_mono [OF run] wpX by (metis (no_types, lifting) wpF_bind)
  qed
  obtain M xs ys where "invM cx ?w1 M" "loop_rep ?w1 xs ys"
    using i1 invMD(1) idle unfolding inv_def pend_def cx_idle_def by (metis option.simps(4))
  then have "isValid (lp_queue ?w1)" using mq_rep_valid by (auto simp: loop_rep_def)
  with r obtain r1 where r1: "drain ?x ?d ?w1 = Some r1" "r = bindR r1 (\<lambda>w2. bindR (run_fallback ?x w2) (\<lambda>w3.
      foldR ?d (lp_functors w2) (w3\<lparr>lp_callingPending := False\<rparr>)))"
    unfolding doPendingFunctors_def Let_def by (auto split: option.splits)
  have "wpF limits r1 (inv cx)" by (rule drain_inv [OF r1(1) i1 idle env os])
  then show ?thesis unfolding r1(2) wpF_bind by (rule wpF_mono) (use rest in simp)
qed

end
