(* ===== verification/Turns.thy ===== *)
theory Turns
  imports Tasks
begin

text \<open>
  Turns of the loop: the events that the kernel reports are stored in the channels, the channels are served one
  after the other, and then the queued closures run.
\<close>

subsection \<open>Channels\<close>

lemma invM_chan_set:
  assumes inv: "invM cx w M" and c: "chans w c = Some ch"
    and ch': "ch_fd ch' = ch_fd ch" "ch_events ch' = ch_events ch" "ch_index ch' = ch_index ch" "ch_addedToLoop ch' = ch_addedToLoop ch"
      "ch_tie ch' = ch_tie ch" "ch_revents ch' = ch_revents ch \<or> ch_index ch \<noteq> -1"
    and hup: "\<And>p. (c, OwnConn p) \<in> cx_active cx \<Longrightarrow> \<not> event_due CloseCb (ch_revents ch')"
    and w': "w' = w\<lparr>chans := (chans w)(c \<mapsto> ch')\<rparr>"
  shows "invM cx w' M"
proof -
  have eqs: "conns w' = conns w" "acceptors w' = acceptors w" "servers w' = servers w" "udps w' = udps w" "expired w' = expired w"
    "held w' = held w" "refs w' = refs w" "bound w' = bound w" "calls w' = calls w" "chans w' = (chans w)(c \<mapsto> ch')"
    by (simp_all add: w')
  have same: "same_objects w w'" by (simp add: same_objects_def eqs)
  note maps = same_objectsD(8-14) [OF same]
  have sc: "shared_chan w' = shared_chan w" using c by (auto simp: fun_eq_iff shared_chan_def eqs)
  have old: "chans w' x = Some y \<Longrightarrow> \<exists>y'. chans w x = Some y' \<and> ch_fd y = ch_fd y' \<and> ch_events y = ch_events y' \<and> ch_index y = ch_index y' \<and> ch_tie y = ch_tie y'
      \<and> (ch_revents y = ch_revents y' \<or> ch_index y' \<noteq> -1)" for x y
    using c ch' by (auto simp: eqs split: if_splits)
  have new: "chans w x = Some y \<Longrightarrow> \<exists>y'. chans w' x = Some y' \<and> ch_fd y' = ch_fd y \<and> ch_events y' = ch_events y \<and> ch_index y' = ch_index y \<and> ch_tie y' = ch_tie y" for x y
    using c ch' by (auto simp: eqs)
  have "conn_ok cx w' M p k" if "conns w p = Some k" for p k
    using invMD(7) [OF inv that] new [of "cn_channel k"] by (fastforce simp: conn_ok_def eqs maps conn_chan_def)
  moreover have "pend cx w' M" by (rule pend_cong [OF invMD(1) [OF inv]]) (simp_all add: w')
  moreover have "reactor_inv w'"
    by (rule reactor_inv_frame [OF invMD(2) [OF inv]]) (use c ch' in \<open>auto simp: w'\<close>)
  moreover have "counts cx w' M"
  proof -
    have "tally cx w' = tally cx w" by (rule tally_cong) (simp_all add: maps eqs)
    moreover have "shared w' = shared w" by (simp add: fun_eq_iff shared_def sc eqs)
    ultimately show ?thesis using invMD(3) [OF inv] by (auto simp: counts_def eqs)
  qed
  moreover have "kinds w'" using invMD(4) [OF inv] c unfolding kinds_def by (auto simp: eqs)
  moreover have "fds cx w'" by (rule fds_cong [OF invMD(5) [OF inv]]) (simp_all add: maps eqs)
  moreover have "task_ok w' t" if "t \<in># M" for t using invMD(6) [OF inv that] by (cases t) (simp_all add: eqs maps sc)
  moreover have "srv_ok w' s r" if "servers w s = Some r" for s r using invMD(8) [OF inv that] by (simp add: srv_ok_def eqs)
  moreover have "acc_ok w' a r" if "acceptors w a = Some r" for a r
    using invMD(9) [OF inv that] new by (cases "ac_acceptChannel r") (fastforce simp: acc_ok_def eqs maps)+
  moreover have "udp_ok w' u r" if "udps w u = Some r" for u r
    using invMD(10) [OF inv that] new by (cases "ud_channel r") (fastforce simp: udp_ok_def eqs)+
  moreover have "chan_has_owner cx w' x y" if x: "chans w' x = Some y" for x y
  proof -
    obtain y' where y: "chans w x = Some y'" "ch_fd y = ch_fd y'" "ch_index y = ch_index y'" "ch_tie y = ch_tie y'" "ch_revents y = ch_revents y' \<or> ch_index y' \<noteq> -1"
      using old [OF x] by blast
    from invMD(11) [OF inv y(1)] y(2-) show ?thesis
      by (auto simp: chan_has_owner_def eqs split: option.splits owner.splits)
  qed
  moreover have "act_ok w' M x" if "x \<in> cx_active cx" for x
    using invMD(12) [OF inv that] c ch'(3) hup that by (cases x) (auto simp: act_ok_def eqs)
  ultimately show ?thesis unfolding invM_def eqs(1-4) by blast
qed

lemma invM_active:
  assumes inv: "invM cx w M" and A: "\<And>c. c \<in> A \<Longrightarrow> act_ok w M c"
  shows "invM (cx\<lparr>cx_active := A\<rparr>) w M"
proof -
  let ?cx = "cx\<lparr>cx_active := A\<rparr>"
  have "tally ?cx = tally cx" "cx_wf ?cx = cx_wf cx" by (simp_all add: fun_eq_iff tally_def cx_wf_def)
  then have "counts ?cx w M = counts cx w M" by (simp add: counts_def)
  moreover have "pend ?cx w M = pend cx w M" "fds ?cx w = fds cx w" by (simp_all add: pend_def fds_def)
  moreover have "conn_ok ?cx w M p k = conn_ok cx w M p k" for p k by (simp add: conn_ok_def)
  moreover have "chan_has_owner ?cx w c ch = chan_has_owner cx w c ch" for c ch
    by (simp add: chan_has_owner_def cong: option.case_cong owner.case_cong)
  ultimately show ?thesis using inv A by (simp add: invM_def)
qed

lemma inv_active_mono:
  assumes "inv cx w" and "A \<subseteq> cx_active cx"
  shows "inv (cx\<lparr>cx_active := A\<rparr>) w"
  using assms invM_active invMD(12) unfolding inv_def by (metis subsetD)

subsection \<open>Polling\<close>

text \<open>
  What the kernel may report: pointers that are registered. For the socket of a TCP connection a hangup comes
  together with \<open>EPOLLIN\<close>.
\<close>

definition reported_ok :: "world \<Rightarrow> ptr \<times> events \<Rightarrow> bool" where
  "reported_ok w = (\<lambda>(c, ev). case chans w c of None \<Rightarrow> False
     | Some ch \<Rightarrow> (case interest_of (ctl_trace w) (ch_fd ch) of None \<Rightarrow> False | Some (e, p) \<Rightarrow> p = c)
         \<and> (case bound w c of Some (OwnConn p) \<Rightarrow> \<not> event_due CloseCb ev | _ \<Rightarrow> True))"

definition event_ok :: "world \<Rightarrow> ptr \<times> events \<Rightarrow> bool" where
  "event_ok w = (\<lambda>(c, ev). \<exists>ch. chans w c = Some ch \<and> ch_index ch \<noteq> -1 \<and> (\<forall>p. bound w c = Some (OwnConn p) \<longrightarrow> \<not> event_due CloseCb ev))"

lemma reported_event:
  assumes "reactor_inv w" and "reported_ok w x"
  shows "event_ok w x"
proof -
  obtain c ev where x: "x = (c, ev)" by (cases x)
  obtain ch e where ch: "chans w c = Some ch" "interest_of (ctl_trace w) (ch_fd ch) = Some (e, c)"
    "\<And>p. bound w c = Some (OwnConn p) \<Longrightarrow> \<not> event_due CloseCb ev"
    using assms(2) x by (auto simp: reported_ok_def split: option.splits prod.splits owner.splits)
  from reactor_invD(4) [OF assms(1) ch(2)] ch(1) have "ch_index ch = 1" by auto
  with ch x show ?thesis by (auto simp: event_ok_def)
qed

definition act_of :: "world \<Rightarrow> ptr set \<Rightarrow> (ptr \<times> owner) set" where
  "act_of w A = (\<lambda>c. (c, the (bound w c))) ` A"

lemma fillActive_list_inv:
  assumes "inv cx w" and "\<And>x. x \<in> set es \<Longrightarrow> event_ok w x"
  shows "wpR (foldR fillActive es w) (\<lambda>w'. inv (cx\<lparr>cx_active := cx_active cx \<union> act_of w (fst ` set es)\<rparr>) w' \<and> bound w' = bound w)"
  using assms
proof (induction es arbitrary: cx w)
  case Nil
  then show ?case by (simp add: act_of_def)
next
  case (Cons x es)
  obtain c ev where x: "x = (c, ev)" by (cases x)
  obtain ch where ch: "chans w c = Some ch" "ch_index ch \<noteq> -1" "\<And>p. bound w c = Some (OwnConn p) \<Longrightarrow> \<not> event_due CloseCb ev"
    using Cons.prems(2) [of x] x by (auto simp: event_ok_def)
  let ?w = "w\<lparr>chans := (chans w)(c \<mapsto> ch\<lparr>ch_revents := ev\<rparr>)\<rparr>"
  let ?cx = "cx\<lparr>cx_active := insert (c, the (bound w c)) (cx_active cx)\<rparr>"
  obtain M where M: "invM cx w M" using Cons.prems(1) by (auto simp: inv_def)
  obtain own where own: "bound w c = Some own" using invMD(11) [OF M ch(1)] by (auto simp: chan_has_owner_def split: option.splits)
  have "bound w c = Some o'" if "(c, o') \<in> cx_active cx" for o' using invMD(12) [OF M that] by (auto simp: act_ok_def)
  then have M1: "invM cx ?w M" by (intro invM_chan_set [OF M ch(1)]) (use ch in auto)
  have "act_ok ?w M (c, own)" using ch own by (auto simp: act_ok_def)
  then have "inv ?cx ?w" using invM_active [OF M1, of "insert (c, own) (cx_active cx)"] invMD(12) [OF M1] own by (auto simp: inv_def)
  moreover have "event_ok ?w y" if "y \<in> set es" for y
    using Cons.prems(2) [of y] that ch(1,2) by (auto simp: event_ok_def split: if_splits)
  ultimately have "wpR (foldR fillActive es ?w) (\<lambda>w'. inv (?cx\<lparr>cx_active := cx_active ?cx \<union> act_of ?w (fst ` set es)\<rparr>) w' \<and> bound w' = bound ?w)"
    by (rule Cons.IH)
  then show ?case using x ch(1) by (simp add: fillActive_def upd_chan_def act_of_def)
qed

lemma Poller_poll_inv:
  assumes inv: "inv cx w" and act: "cx_active cx = {}" and evs: "list_all (reported_ok w) evs"
  shows "wpR (Poller_poll n evs w) (\<lambda>(act, w'). inv (cx\<lparr>cx_active := act_of w (set act)\<rparr>) w')"
proof -
  let ?es = "take (nat n) evs"
  obtain M where "invM cx w M" using inv by (auto simp: inv_def)
  then have "event_ok w x" if "x \<in> set ?es" for x
    using reported_event invMD(2) evs in_set_takeD [OF that] by (metis list_all_iff)
  from fillActive_list_inv [OF inv this] act
  have fill: "wpR (foldR fillActive ?es w) (\<lambda>w'. inv (cx\<lparr>cx_active := act_of w (set (map fst ?es))\<rparr>) w' \<and> bound w' = bound w)" by simp
  have size: "inv cx' (w'\<lparr>pl_size := k\<rparr>)" if "inv cx' w'" for cx' w' k
    by (rule inv_frame [OF that]) (simp_all add: same_objects_def same_loop_def)
  have "cx\<lparr>cx_active := {}\<rparr> = cx" using act by (intro ctx.equality) simp_all
  moreover have "wpR (foldR fillActive ?es w) (\<lambda>w'. inv (cx\<lparr>cx_active := act_of w (set (map fst ?es))\<rparr>)
      (if nat n = pl_size w' then w'\<lparr>pl_size := pl_size w' * 2\<rparr> else w'))"
    by (rule wpF_mono [OF fill], split if_split) (blast intro: size)
  ultimately show ?thesis using inv by (simp add: Poller_poll_def fillActiveChannels_def act_of_def)
qed

subsection \<open>Serving a channel\<close>

lemma active_chan:
  assumes "inv cx w" and "(c, own) \<in> cx_active cx"
  obtains M ch where "invM cx w M" "chans w c = Some ch" "act_ok w M (c, own)" "chan_has_owner cx w c ch" "bound w c = Some own"
proof -
  obtain M where M: "invM cx w M" using assms(1) by (auto simp: inv_def)
  have act: "act_ok w M (c, own)" by (rule invMD(12) [OF M assms(2)])
  then obtain ch where ch: "chans w c = Some ch" "bound w c = Some own" by (auto simp: act_ok_def)
  show thesis by (rule that [OF M ch(1) act invMD(11) [OF M ch(1)] ch(2)])
qed

lemma active_conn:
  assumes M: "invM cx w M" and c: "chans w c = Some ch" and act: "act_ok w M (c, OwnConn p)"
  obtains k where "conns w p = Some k" "cn_channel k = c" "0 \<le> cn_socketFd k" "\<not> event_due CloseCb (ch_revents ch)"
proof -
  have b: "bound w c = Some (OwnConn p)" and ev: "\<not> event_due CloseCb (ch_revents ch)" using act c by (auto simp: act_ok_def)
  then obtain k where k: "conns w p = Some k" "cn_channel k = c" using invMD(11) [OF M c] by (auto simp: chan_has_owner_def)
  have "\<not> shared_chan w c" using b by (simp add: shared_chan_def)
  then have "KeepChannel c \<notin># M" using invMD(6) [OF M, of "KeepChannel c"] by auto
  then have idx: "ch_index ch \<noteq> -1" using act c by (auto simp: act_ok_def)
  obtain c' where "chans w (cn_channel k) = Some c'" "conn_chan p k c'" by (rule conn_okD [OF M k(1)])
  then have "0 \<le> cn_socketFd k" using idx k(2) c by (auto simp: conn_chan_def)
  with k ev show thesis by (intro that)
qed

lemma run_callback_inv:
  assumes inv: "inv cx w" and c: "(c, own) \<in> cx_active cx" "chans w c = Some ch" and k: "event_due k (ch_revents ch)"
    and pin: "\<And>a. own = OwnAcceptor a \<Longrightarrow> a \<in> cx_pinned cx"
    and env: "env_ok e" and os: "os_ok (cx_reserved cx) (e_os e)"
  shows "wpF limits (run_callback e True own k w) (inv cx)"
proof -
  obtain M ch0 where M: "invM cx w M" and "chans w c = Some ch0" and act: "act_ok w M (c, own)" and "chan_has_owner cx w c ch0"
    and own: "bound w c = Some own" by (rule active_chan [OF inv c(1)])
  then have ho: "chan_has_owner cx w c ch" using c(2) by simp
  show ?thesis
  proof (cases own)
    case (OwnConn p)
    obtain k' where p: "conns w p = Some k'" "cn_channel k' = c" "0 \<le> cn_socketFd k'" "\<not> event_due CloseCb (ch_revents ch)"
      by (rule active_conn [OF M c(2) act [unfolded OwnConn]])
    have "k \<noteq> CloseCb" using k p(4) by blast
    with OwnConn show ?thesis
      using conn_handleRead_inv [OF inv p(1) env os] conn_handleWrite_inv [OF inv p(1) env os] conn_handleError_inv [OF inv p(1,3) env os]
      by (cases k) simp_all
  next
    case (OwnAcceptor a)
    with Acceptor_handleRead_inv [OF inv pin env os] show ?thesis by simp
  next
    case (OwnUdp u)
    have "0 \<le> ud_sockfd r" if r: "udps w u = Some r" for r
    proof -
      have "\<not> expired w u" using invMD(4) [OF M] r by (auto simp: kinds_def)
      moreover have "ch_revents ch \<noteq> 0" using k by (cases k) auto
      ultimately have "ud_channel r = Some c" using ho own OwnUdp r by (auto simp: chan_has_owner_def)
      then show ?thesis using invMD(10) [OF M r] by (simp add: udp_ok_def)
    qed
    with OwnUdp udp_channelRead_inv [OF inv _ env os] show ?thesis by simp
  next
    case OwnWakeup
    have "inv cx (loop_handleRead w)"
      by (rule inv_frame [OF inv]) (simp_all add: loop_handleRead_def same_objects_def same_loop_def)
    with OwnWakeup show ?thesis by simp
  next
    case OwnTimers
    with env_ok_cb [OF env os inv] show ?thesis by simp
  qed
qed

lemma handle_kind_inv:
  assumes inv: "inv cx w" and c: "(c, own) \<in> cx_active cx" and pin: "\<And>a. own = OwnAcceptor a \<Longrightarrow> a \<in> cx_pinned cx"
    and env: "env_ok e" and os: "os_ok (cx_reserved cx) (e_os e)"
  shows "wpF limits (handle_kind (run_channel e True) c k w) (inv cx)"
proof -
  obtain M ch where ch: "chans w c = Some ch" "bound w c = Some own" by (rule active_chan [OF inv c])
  from run_callback_inv [OF inv c ch(1) _ pin env os, of k] inv ch show ?thesis by (simp add: handle_kind_def run_channel_def)
qed

lemma set_eventHandling:
  assumes inv: "inv cx w" and c: "(c, own) \<in> cx_active cx"
  shows "wpR (upd_chan c (\<lambda>c. c\<lparr>ch_eventHandling := b\<rparr>) w) (inv cx)"
proof -
  obtain M ch where M: "invM cx w M" "chans w c = Some ch" by (rule active_chan [OF inv c])
  have "\<not> event_due CloseCb (ch_revents ch)" if "(c, OwnConn p) \<in> cx_active cx" for p
    using invMD(12) [OF M(1) that] M(2) by (auto simp: act_ok_def)
  then have "invM cx (w\<lparr>chans := (chans w)(c \<mapsto> ch\<lparr>ch_eventHandling := b\<rparr>)\<rparr>) M"
    by (intro invM_chan_set [OF M]) simp_all
  with M(2) show ?thesis by (auto simp: upd_chan_def inv_def)
qed

lemma handleEventWithGuard_inv:
  assumes inv: "inv cx w" and c: "(c, own) \<in> cx_active cx" and pin: "\<And>a. own = OwnAcceptor a \<Longrightarrow> a \<in> cx_pinned cx"
    and env: "env_ok e" and os: "os_ok (cx_reserved cx) (e_os e)"
  shows "wpF limits (handleEventWithGuard (run_channel e True) c w) (inv cx)"
proof -
  have step: "wpF limits (handle_kind (run_channel e True) c k w1) (inv cx)" if "inv cx w1" for k w1
    by (rule handle_kind_inv [OF that c pin env os])
  have "wpF limits (foldR (handle_kind (run_channel e True) c) ks w1) (inv cx)" if "inv cx w1" for ks w1
    by (rule wpF_foldR_inv) (use that step in blast)+
  then have "wpF limits (foldR (handle_kind (run_channel e True) c) ks w1) (\<lambda>w2. wpF limits (upd_chan c (\<lambda>c. c\<lparr>ch_eventHandling := False\<rparr>) w2) (inv cx))"
    if "inv cx w1" for ks w1
    by (rule wpF_mono) (use that wpX [OF set_eventHandling [OF _ c]] in simp_all)
  then show ?thesis
    unfolding handleEventWithGuard_def wpF_bind by (intro wpF_mono [OF wpX [OF set_eventHandling [OF inv c]]])
qed

text \<open>Locking the object a channel is tied to.\<close>

lemma invM_pin:
  assumes inv: "invM cx w M" and a: "acceptors w a = Some r" "ac_listening r"
  shows "invM (cx_pin a cx) (acquire a w) M"
proof (rule invM_refs [OF inv])
  have "pend cx (acquire a w) M" by (rule pend_cong [OF invMD(1) [OF inv]]) simp_all
  then show "pend (cx_pin a cx) (acquire a w) M" by (rule pend_cx) simp_all
  have "tally (cx_pin a cx) (acquire a w) M q = tally cx w M q + of_bool (q = a)" for q
    using same_objectsD(11) [OF same_objects_acquire, of a w] by (simp add: tally_def)
  moreover have "shared (acquire a w) = shared w" by (rule shared_cong) simp_all
  ultimately show "counts (cx_pin a cx) (acquire a w) M"
    using invMD(3) [OF inv] a unfolding counts_def by (auto simp: shared_def cx_wf_pin)
qed simp_all

lemma chan_tie:
  assumes M: "invM cx w M" and c: "chans w c = Some ch" "act_ok w M (c, own)"
  shows "ch_tie ch = (case own of OwnConn p \<Rightarrow> Some p | OwnAcceptor a \<Rightarrow> Some a | _ \<Rightarrow> None)"
proof -
  have ho: "chan_has_owner cx w c ch" and own: "bound w c = Some own" using invMD(11) [OF M c(1)] c by (auto simp: act_ok_def)
  show ?thesis
  proof (cases own)
    case (OwnConn p)
    then obtain k where k: "conns w p = Some k" "cn_channel k = c" using ho own by (auto simp: chan_has_owner_def)
    obtain c' where "chans w (cn_channel k) = Some c'" "conn_chan p k c'" by (rule conn_okD [OF M k(1)])
    with k c OwnConn show ?thesis by (simp add: conn_chan_def)
  next
    case (OwnAcceptor a)
    then show ?thesis using ho own acc_channel [OF M, of a _ c] c(1) by (fastforce simp: chan_has_owner_def)
  next
    case (OwnUdp u)
    then show ?thesis using ho own udp_channel [OF M, of u _ c] c(1) by (fastforce simp: chan_has_owner_def)
  qed (use ho own in \<open>auto simp: chan_has_owner_def\<close>)
qed

lemma handle_active_inv:
  assumes "inv cx w" and c: "(c, own) \<in> cx_active cx" and env: "env_ok e" and os: "os_ok (cx_reserved cx) (e_os e)"
  shows "wpF limits (handle_active lock_tie (release (e_os e) True) (run_channel e True) c w) (inv cx)"
proof -
  let ?w = "w\<lparr>lp_current := Some c\<rparr>"
  have inv: "inv cx ?w" by (rule inv_frame [OF assms(1)]) (simp_all add: same_objects_def same_loop_def)
  obtain M ch where M: "invM cx ?w M" and ch: "chans ?w c = Some ch" and act: "act_ok ?w M (c, own)" and ho: "chan_has_owner cx ?w c ch"
    and bnd: "bound ?w c = Some own" by (rule active_chan [OF inv c])
  note tie = chan_tie [OF M ch act]
  have tied: "wpF limits (handleEvent lock_tie (release (e_os e) True) (run_channel e True) c ?w) (inv cx)"
    if p: "ch_tie ch = Some p" and i': "0 < refs w p \<Longrightarrow> inv cx' (acquire p ?w)" and drops: "cx_drops p cx' cx"
      and pin: "\<And>a. own = OwnAcceptor a \<Longrightarrow> a \<in> cx_pinned cx'" for p cx'
  proof (cases "0 < refs w p")
    case True
    have c': "(c, own) \<in> cx_active cx'" and os': "os_ok (cx_reserved cx') (e_os e)" using c os cx_dropsD(3,7) [OF drops] by simp_all
    have "wpF limits (handleEventWithGuard (run_channel e True) c (acquire p ?w)) (inv cx')"
      by (rule handleEventWithGuard_inv [OF i' [OF True] c' pin env os'])
    then have "wpF limits (handleEventWithGuard (run_channel e True) c (acquire p ?w)) (\<lambda>w1. wpF limits (release (e_os e) True p w1) (inv cx))"
      by (rule wpF_mono) (rule wpX [OF release_drops [OF _ drops os]])
    with True ch p show ?thesis by (simp add: handleEvent_def lock_tie_def)
  qed (use ch p inv in \<open>simp add: handleEvent_def lock_tie_def\<close>)
  have wf: "cx_wf cx" by (rule inv_wf [OF inv])
  show ?thesis
    unfolding handle_active_def
  proof (cases own)
    case (OwnConn p)
    obtain k where "conns ?w p = Some k" by (rule active_conn [OF M ch act [unfolded OwnConn]])
    then have "inv (cx_guard p cx) (acquire p ?w)" using invM_acquire [OF M, of p] by (auto simp: inv_def)
    with tied [of p "cx_guard p cx"] OwnConn tie wf
    show "wpF limits (handleEvent lock_tie (release (e_os e) True) (run_channel e True) c ?w) (inv cx)" by simp
  next
    case (OwnAcceptor a)
    have "inv (cx_pin a cx) (acquire a ?w)" if "0 < refs w a"
    proof -
      have "shared ?w a" using invMD(3) [OF M] that unfolding counts_def by auto
      then have "\<not> expired ?w a" using invMD(4) [OF M] by (auto simp: kinds_def shared_def shared_chan_def)
      then obtain r where r: "acceptors ?w a = Some r" "ac_acceptChannel r = Some c"
        using ho bnd OwnAcceptor by (auto simp: chan_has_owner_def)
      obtain ch' where "ac_listening r" by (rule acc_channel [OF M r])
      from invM_pin [OF M r(1) this] show ?thesis by (auto simp: inv_def)
    qed
    with tied [of a "cx_pin a cx"] OwnAcceptor tie wf
    show "wpF limits (handleEvent lock_tie (release (e_os e) True) (run_channel e True) c ?w) (inv cx)" by simp
  qed (use tie ch handleEventWithGuard_inv [OF inv c _ env os] in \<open>simp_all add: handleEvent_def\<close>)
qed

lemma handle_all_inv:
  assumes "inv (cx\<lparr>cx_active := act_of w0 (set act)\<rparr>) w" and env: "env_ok e" and os: "os_ok (cx_reserved cx) (e_os e)"
  shows "wpF limits (foldR (handle_active lock_tie (release (e_os e) True) (run_channel e True)) act w) (inv (cx\<lparr>cx_active := {}\<rparr>))"
  using assms(1)
proof (induction act arbitrary: w)
  case Nil
  then show ?case by (simp add: act_of_def)
next
  case (Cons c act)
  let ?h = "handle_active lock_tie (release (e_os e) True) (run_channel e True)" and ?cx = "cx\<lparr>cx_active := act_of w0 (set (c # act))\<rparr>"
  have "(c, the (bound w0 c)) \<in> cx_active ?cx" by (simp add: act_of_def)
  from handle_active_inv [OF Cons.prems this env] os have "wpF limits (?h c w) (inv ?cx)" by simp
  then have "wpF limits (?h c w) (\<lambda>w1. wpF limits (foldR ?h act w1) (inv (cx\<lparr>cx_active := {}\<rparr>)))"
  proof (rule wpF_mono)
    fix w1 assume "inv ?cx w1"
    from inv_active_mono [OF this, of "act_of w0 (set act)"] have "inv (cx\<lparr>cx_active := act_of w0 (set act)\<rparr>) w1" by (auto simp: act_of_def)
    then show "wpF limits (foldR ?h act w1) (inv (cx\<lparr>cx_active := {}\<rparr>))" by (rule Cons.IH)
  qed
  then show ?case by simp
qed

subsection \<open>The loop\<close>

lemma loop_turn_inv:
  assumes r: "loop_turn lock_tie (release (e_os e) True) (run_channel e True) (run_task e True) (dispose_task (e_os e) True) (n, evs) w = Some r"
    and inv: "inv cx w" and idle: "cx_idle cx" and evs: "list_all (reported_ok w) evs"
    and env: "env_ok e" and os: "os_ok (cx_reserved cx) (e_os e)"
  shows "wpF limits r (inv cx)"
proof -
  let ?h = "handle_active lock_tie (release (e_os e) True) (run_channel e True)"
  let ?w = "w\<lparr>lp_active := []\<rparr>"
  have cx: "cx\<lparr>cx_active := {}\<rparr> = cx" using idle by (intro ctx.equality) (simp_all add: cx_idle_def)
  have "inv cx ?w" by (rule inv_frame [OF inv]) (simp_all add: same_objects_def same_loop_def)
  moreover have "reported_ok ?w = reported_ok w" by (simp add: fun_eq_iff reported_ok_def cong: option.case_cong)
  ultimately have poll: "wpR (Poller_poll n evs ?w) (\<lambda>(act, w'). inv (cx\<lparr>cx_active := act_of ?w (set act)\<rparr>) w')"
    using idle evs by (intro Poller_poll_inv) (simp_all add: cx_idle_def)
  have serve: "wpF limits (foldR ?h act (w1\<lparr>lp_active := act, lp_eventHandling := True\<rparr>))
      (\<lambda>w2. inv cx (w2\<lparr>lp_current := None, lp_eventHandling := False\<rparr>))"
    if "inv (cx\<lparr>cx_active := act_of ?w (set act)\<rparr>) w1" for act w1
  proof -
    have "inv (cx\<lparr>cx_active := act_of ?w (set act)\<rparr>) (w1\<lparr>lp_active := act, lp_eventHandling := True\<rparr>)"
      by (rule inv_frame [OF that]) (simp_all add: same_objects_def same_loop_def)
    from handle_all_inv [OF this env os] show ?thesis
      unfolding cx by (rule wpF_mono) (erule inv_frame, simp_all add: same_objects_def same_loop_def)
  qed
  let ?m = "bindR (Poller_poll n evs ?w) (\<lambda>(act, w1).
            bindR (foldR ?h act (w1\<lparr>lp_active := act, lp_eventHandling := True\<rparr>)) (\<lambda>w2.
              Inr (w2\<lparr>lp_current := None, lp_eventHandling := False\<rparr>)))"
  have m: "wpF limits ?m (inv cx)" unfolding wpF_bind by (rule wpF_mono [OF wpX [OF poll]]) (use serve in auto)
  show ?thesis
  proof (cases ?m)
    case (Inl f)
    with m r show ?thesis by (auto simp: loop_turn_def)
  next
    case (Inr w3)
    with m have "inv cx w3" by simp
    moreover have "doPendingFunctors (run_task e True) (dispose_task (e_os e) True) w3 = Some r"
      using r Inr by (simp add: loop_turn_def)
    ultimately show ?thesis by (intro doPendingFunctors_inv [OF _ _ idle env os])
  qed
qed

text \<open>The kernel reports registered pointers in every turn.\<close>

fun all_reported :: "os \<Rightarrow> application \<Rightarrow> nat \<Rightarrow> (int \<times> (ptr \<times> events) list) list \<Rightarrow> world \<Rightarrow> bool" where
  "all_reported os app d [] w = True"
| "all_reported os app d (x # xs) w \<longleftrightarrow> lp_quit w \<or> list_all (reported_ok w) (snd x)
     \<and> (case app_turn os app d x w of Some (Inr w') \<Rightarrow> all_reported os app d xs w' | _ \<Rightarrow> True)"

lemma app_turns_inv:
  assumes "app_turns os app d xs w = Some r" and "inv cx w" and "all_reported os app d xs w"
    and idle: "cx_idle cx" and app: "app_ok app" and os: "os_ok (cx_reserved cx) os"
  shows "wpF limits r (inv cx)"
  using assms(1-3)
proof (induction xs arbitrary: w)
  case Nil
  then show ?case by (auto simp: app_turns_def)
next
  case (Cons x xs)
  obtain n evs where x: "x = (n, evs)" by (cases x)
  have eos: "e_os (app_env os app d) = os" by (simp add: mk_env_def)
  show ?case
  proof (cases "lp_quit w")
    case True
    with Cons.prems show ?thesis by (auto simp: app_turns_def)
  next
    case False
    then obtain r1 where r1: "app_turn os app d x w = Some r1"
      using Cons.prems(1) by (auto simp: app_turns_def app_turn_def split: option.splits)
    have "wpF limits r1 (inv cx)"
    proof (rule loop_turn_inv [OF _ Cons.prems(2) idle _ app_env_ok [OF app]])
      show "loop_turn lock_tie (release (e_os (app_env os app d)) True) (run_channel (app_env os app d) True) (run_task (app_env os app d) True)
          (dispose_task (e_os (app_env os app d)) True) (n, evs) w = Some r1"
        using r1 by (simp only: app_turn_def x eos)
    qed (use False Cons.prems(3) x os in \<open>simp_all add: mk_env_def\<close>)
    then show ?thesis
      using Cons.IH Cons.prems(1,3) r1 False by (cases r1) (auto simp: app_turns_def app_turn_def)
  qed
qed

end
