(* ===== verification/Program.thy ===== *)
theory Program
  imports Turns
begin

text \<open>
  Whole programs: the loop is constructed, \<open>main\<close> makes its calls of the library as a first callback, and the loop
  turns. The invariant holds at the start, so it holds after every turn.
\<close>

subsection \<open>The start\<close>

text \<open>What the constructor of the loop gets from the system.\<close>

record startup =
  st_epollfd :: int
  st_timerfd :: int
  st_evtfd :: int
  st_timerChannel :: ptr
  st_wakeupChannel :: ptr
  st_mirror :: mirror_os

definition startup_ok :: "startup \<Rightarrow> bool" where
  "startup_ok s \<longleftrightarrow> 0 \<le> st_epollfd s \<and> 0 \<le> st_timerfd s \<and> 0 \<le> st_evtfd s \<and> st_timerfd s \<noteq> st_evtfd s
     \<and> st_timerChannel s \<noteq> st_wakeupChannel s \<and> isValid (MpscQueue_new (st_mirror s) pending_order :: task mpsc)"

definition reserved :: "startup \<Rightarrow> fd set" where
  "reserved s = {st_epollfd s, st_timerfd s, st_evtfd s}"

definition start_world :: "os \<Rightarrow> startup \<Rightarrow> world res" where
  "start_world os s = bindR (EventLoop_new (os_ctl os) (st_mirror s) (st_epollfd s) (st_timerfd s) (st_evtfd s)
     (st_timerChannel s) (st_wakeupChannel s) False) (\<lambda>l. Inr (world_of_loop (st_timerChannel s) (st_wakeupChannel s) l))"

definition program ::
  "os \<Rightarrow> startup \<Rightarrow> (world \<Rightarrow> world res) \<Rightarrow> application \<Rightarrow> nat \<Rightarrow> (int \<times> (ptr \<times> events) list) list \<Rightarrow> world res option" where
  "program os s main app d xs = (case bindR (start_world os s) main of Inl f \<Rightarrow> Some (Inl f) | Inr w \<Rightarrow> app_turns os app d xs w)"

definition program_reported ::
  "os \<Rightarrow> startup \<Rightarrow> (world \<Rightarrow> world res) \<Rightarrow> application \<Rightarrow> nat \<Rightarrow> (int \<times> (ptr \<times> events) list) list \<Rightarrow> bool" where
  "program_reported os s main app d xs = (case bindR (start_world os s) main of Inl f \<Rightarrow> True | Inr w \<Rightarrow> all_reported os app d xs w)"

text \<open>A program whose calls are all made by its callbacks; \<open>main\<close> is the first of them.\<close>

abbreviation app_main :: "os \<Rightarrow> application \<Rightarrow> nat \<Rightarrow> world \<Rightarrow> world res" where
  "app_main os app d \<equiv> app_cb os app d (CbUser 0)"

definition cx_start :: "fd set \<Rightarrow> ctx" where
  "cx_start Z = \<lparr>cx_closing = {}, cx_dropping = {}, cx_guarded = {}, cx_pinned = {}, cx_guards = (\<lambda>_. 0), cx_active = {},
     cx_fds = {}, cx_running = None, cx_local = {#}, cx_reserved = Z\<rparr>"

lemma cx_start_simps [simp]:
  "cx_closing (cx_start Z) = {}" "cx_dropping (cx_start Z) = {}" "cx_guarded (cx_start Z) = {}" "cx_pinned (cx_start Z) = {}"
  "cx_guards (cx_start Z) p = 0" "cx_active (cx_start Z) = {}" "cx_fds (cx_start Z) = {}" "cx_running (cx_start Z) = None"
  "cx_local (cx_start Z) = {#}" "cx_reserved (cx_start Z) = Z" "cx_idle (cx_start Z)" "cx_wf (cx_start Z)"
  by (simp_all add: cx_start_def cx_idle_def cx_wf_def)

lemma loop_channel_spec:
  assumes r: "reactor_inv w" and p: "chans w p = None" "pl_channels w f = None" and os: "os_ok Z os"
  shows "wpR (loop_channel (os_ctl os) p f w) (\<lambda>w'. reactor_inv w' \<and> reactor.more w' = reactor.more w
    \<and> (\<exists>ch. chans w' = (chans w)(p \<mapsto> ch) \<and> ch_fd ch = f \<and> ch_tie ch = None)
    \<and> (\<forall>g. g \<noteq> f \<longrightarrow> pl_channels w' g = pl_channels w g))"
proof -
  let ?ch = "(Channel_new f)\<lparr>ch_callbacks := (\<lambda>_. False)(ReadCb := True)\<rparr>" and ?w = "w\<lparr>chans := (chans w)(p \<mapsto> (Channel_new f)\<lparr>ch_callbacks := (\<lambda>_. False)(ReadCb := True)\<rparr>)\<rparr>"
  have r1: "reactor_inv ?w"
    by (rule reactor_inv_frame [OF reactor_inv_NewChannel [OF r p(1), of f]]) (simp_all add: Channel_new_def)
  have c: "chans ?w p = Some ?ch" by simp
  have free: "fd_free p ?w" using p(2) by (simp add: fd_free_def Channel_new_def)
  have "wpR (enableReading (os_ctl os) True p ?w) (\<lambda>w'. reactor_inv w' \<and> reactor.more w' = reactor.more w
      \<and> (\<exists>ch. chans w' = (chans w)(p \<mapsto> ch) \<and> ch_fd ch = f \<and> ch_tie ch = None)
      \<and> (\<forall>g. g \<noteq> f \<longrightarrow> pl_channels w' g = pl_channels w g))"
    by (rule wpF_mono [OF enableReading_spec [OF r1 c free, of "os_ctl os", unfolded ctl_faults_ok [OF os]]])
      (auto simp: chan_effect_def same_chan_def Channel_new_def)
  then show ?thesis by (simp add: loop_channel_def setCallback_def upd_chan_def Channel_new_def)
qed

lemma loop_more_eq:
  assumes "reactor.more (l' :: 'f loop) = reactor.more l"
  shows "lp_queue l' = lp_queue l" "lp_functors l' = lp_functors l"
  using assms by (cases l, cases l', simp)+

lemma EventLoop_new_spec:
  assumes s: "startup_ok s" and os: "os_ok Z os"
  shows "wpR (EventLoop_new (os_ctl os) (st_mirror s) (st_epollfd s) (st_timerfd s) (st_evtfd s) (st_timerChannel s) (st_wakeupChannel s) False)
    (\<lambda>l. reactor_inv l \<and> lp_queue l = MpscQueue_new (st_mirror s) pending_order \<and> lp_functors l = []
      \<and> (\<exists>c1 c2. chans l = [st_timerChannel s \<mapsto> c1, st_wakeupChannel s \<mapsto> c2] \<and> ch_fd c1 = st_timerfd s \<and> ch_tie c1 = None
           \<and> ch_fd c2 = st_evtfd s \<and> ch_tie c2 = None))"
proof -
  let ?w = "\<lparr>chans = Map.empty, pl_channels = Map.empty, pl_size = kInitEventListSize, ctl_trace = [], lp_looping = False, lp_quit = False,
    lp_eventHandling = False, lp_callingPending = False, lp_active = [], lp_current = None,
    lp_queue = MpscQueue_new (st_mirror s) pending_order, lp_functors = [], lp_wakeups = 0\<rparr> :: 'a loop"
  have r0: "reactor_inv ?w" by (simp add: reactor_inv_def interest_of.simps)
  have "wpR (loop_channel (os_ctl os) (st_timerChannel s) (st_timerfd s) ?w) (\<lambda>w1.
      wpR (loop_channel (os_ctl os) (st_wakeupChannel s) (st_evtfd s) w1) (\<lambda>l. reactor_inv l \<and> lp_queue l = lp_queue ?w \<and> lp_functors l = []
      \<and> (\<exists>c1 c2. chans l = [st_timerChannel s \<mapsto> c1, st_wakeupChannel s \<mapsto> c2] \<and> ch_fd c1 = st_timerfd s \<and> ch_tie c1 = None
           \<and> ch_fd c2 = st_evtfd s \<and> ch_tie c2 = None)))"
  proof (rule wpF_mono [OF loop_channel_spec [OF r0 _ _ os]], goal_cases)
    case (3 w1)
    then obtain c1 where w1: "reactor_inv w1" "reactor.more w1 = reactor.more ?w" "chans w1 = [st_timerChannel s \<mapsto> c1]"
      "ch_fd c1 = st_timerfd s" "ch_tie c1 = None" "\<forall>g. g \<noteq> st_timerfd s \<longrightarrow> pl_channels w1 g = None" by auto
    have "chans w1 (st_wakeupChannel s) = None" "pl_channels w1 (st_evtfd s) = None"
      using s w1(3,6) by (auto simp: startup_ok_def)
    from loop_channel_spec [OF w1(1) this os] show ?case
      by (rule wpF_mono) (use w1 in \<open>auto simp: loop_more_eq [where l = ?w]\<close>)
  qed simp_all
  with s show ?thesis
    by (simp add: EventLoop_new_def Poller_new_def startup_ok_def createEventfd_def reactor.extend_def)
qed

lemma ring_order_pending: "ring_order_ok pending_order"
  by (simp add: ring_order_ok_def pending_order_def)

lemma start_world_inv:
  assumes s: "startup_ok s" and os: "os_ok Z os"
  shows "wpR (start_world os s) (inv (cx_start (reserved s)))"
  unfolding start_world_def wpF_bind
proof (rule wpF_mono [OF EventLoop_new_spec [OF assms]], goal_cases)
  case (1 l)
  then obtain c1 c2 where l: "reactor_inv l" "lp_queue l = MpscQueue_new (st_mirror s) pending_order" "lp_functors l = []"
    "chans l = [st_timerChannel s \<mapsto> c1, st_wakeupChannel s \<mapsto> c2]" "ch_fd c1 = st_timerfd s" "ch_tie c1 = None"
    "ch_fd c2 = st_evtfd s" "ch_tie c2 = None" by blast
  let ?w = "world_of_loop (st_timerChannel s) (st_wakeupChannel s) l" and ?cx = "cx_start (reserved s)"
  have eqs: "chans ?w = chans l" "pl_channels ?w = pl_channels l" "ctl_trace ?w = ctl_trace l" "lp_queue ?w = lp_queue l" "lp_functors ?w = []"
    "conns ?w = Map.empty" "acceptors ?w = Map.empty" "servers ?w = Map.empty" "udps ?w = Map.empty" "calls ?w = []" "refs ?w = (\<lambda>_. 0)"
    "held ?w = (\<lambda>_. 0)" "expired ?w = (\<lambda>_. False)" "bound ?w = [st_timerChannel s \<mapsto> OwnTimers, st_wakeupChannel s \<mapsto> OwnWakeup]"
    using l(3) by (simp_all add: world_of_loop_def loop.extend_def)
  have "mq_rep pending_order (lp_queue ?w) []"
    using mq_rep_new [OF ring_order_pending, where 'a = task] s by (simp add: eqs l(2) startup_ok_def)
  then have "loop_rep ?w [] []" by (simp add: loop_rep_def eqs)
  then have "pend ?cx ?w {#}" by (simp add: pend_def)
  moreover have "reactor_inv ?w" by (rule reactor_inv_frame [OF l(1)]) (simp_all add: eqs)
  moreover have "counts ?cx ?w {#}"
    by (auto simp: counts_def tally_def owners_def in_map_def acc_owned_def chan_owned_def capt_def shared_def shared_chan_def eqs)
  moreover have "own_fd ?w x = -1" for x by (cases x) (simp_all add: eqs)
  then have "fds ?cx ?w" by (auto simp: fds_def eqs open_fds_def)
  ultimately have "invM ?cx ?w {#}"
    using l(4-8) by (auto simp: invM_def kinds_def eqs chan_has_owner_def reserved_def split: if_splits)
  then show ?case by (auto simp: inv_def)
qed

subsection \<open>The invariant of whole programs\<close>

definition main_ok :: "os \<Rightarrow> startup \<Rightarrow> (world \<Rightarrow> world res) \<Rightarrow> bool" where
  "main_ok os s main \<longleftrightarrow> (\<forall>w. inv (cx_start (reserved s)) w \<longrightarrow> wpF limits (main w) (inv (cx_start (reserved s))))"

lemma app_main_ok: "app_ok app \<Longrightarrow> os_ok (reserved s) os \<Longrightarrow> main_ok os s (app_main os app d)"
  using app_cb_inv [of app "cx_start (reserved s)" _ os "CbUser 0" d] by (simp add: main_ok_def)

lemma program_inv:
  assumes "startup_ok s" and "os_ok (reserved s) os" and "app_ok app" and "main_ok os s main" and "program_reported os s main app d xs"
    and "program os s main app d xs = Some r"
  shows "wpF limits r (inv (cx_start (reserved s)))"
proof -
  have "wpF limits (bindR (start_world os s) main) (inv (cx_start (reserved s)))"
    unfolding wpF_bind by (rule wpF_mono [OF wpX [OF start_world_inv [OF assms(1,2)]]]) (use assms(4) in \<open>simp add: main_ok_def\<close>)
  then show ?thesis
    using assms app_turns_inv [of os app d xs _ r "cx_start (reserved s)"]
    by (cases "bindR (start_world os s) main") (auto simp: program_def program_reported_def)
qed

end
