(* ===== verification/Demos.thy ===== *)
theory Demos
  imports Program
begin

text \<open>
  The program of \<open>test_build.cpp\<close>, the echo server of \<open>README.md\<close>, and a kernel to run them on.
\<close>

subsection \<open>\<open>test_build.cpp\<close>\<close>

definition test_main :: "os \<Rightarrow> world \<Rightarrow> world res" where
  "test_main os w =
     bindR (TcpServer_new os (InetAddress_port 9999 False False) ''TestServer'' w) (\<lambda>(server, w1).
     bindR (setCallbacks True False False server w1) (\<lambda>w2.
     bindR (TcpServer_start os True server w2) (\<lambda>(_, w3). Inr w3)))"

text \<open>The connection callback writes to the log only.\<close>

definition test_app :: application where
  "test_app ev w = []"

definition test_program :: "os \<Rightarrow> startup \<Rightarrow> nat \<Rightarrow> (int \<times> (ptr \<times> events) list) list \<Rightarrow> world res option" where
  "test_program os s d xs = program os s (test_main os) test_app d xs"

subsection \<open>An example\<close>

fun next_fd :: "history \<Rightarrow> int" where
  "next_fd [] = 10"
| "next_fd (SysSocket fam d f # h) = max (f + 1) (next_fd h)"
| "next_fd (SysAccept s f # h) = max (f + 1) (next_fd h)"
| "next_fd (SysOpen f # h) = max (f + 1) (next_fd h)"
| "next_fd (_ # h) = next_fd h"

definition accepted :: "history \<Rightarrow> nat" where
  "accepted h = length (filter (\<lambda>c. case c of SysAccept s f \<Rightarrow> 0 \<le> f | _ \<Rightarrow> False) h)"

definition reads :: "fd \<Rightarrow> history \<Rightarrow> nat" where
  "reads f h = length (filter (\<lambda>c. case c of SysRead g n \<Rightarrow> g = f | _ \<Rightarrow> False) h)"

text \<open>\<open>n\<close> clients connect; each sends two bytes and closes its connection.\<close>

definition clients :: "nat \<Rightarrow> os" where
  "clients n = \<lparr>os_ctl = (\<lambda>_. True), os_new = (\<lambda>h i. 100 + 8 * length h + i), os_socket = (\<lambda>h fam b. next_fd h),
     os_bind = (\<lambda>h f a. True), os_listen = (\<lambda>h f. True),
     os_accept = (\<lambda>h f. if accepted h < n then (next_fd h, 0, in_bytes in_zero, 16) else (-1, EAGAIN, [], 0)),
     os_backlog = (\<lambda>h f. n + 1), os_connect = (\<lambda>h f. 0),
     os_readv = (\<lambda>h f lens. if reads f h = 0 \<and> 2 \<le> sum_list lens then (2, 0, [104, 105]) else (0, 0, [])),
     os_write = (\<lambda>h f d. (int (length d), 0)), os_soerror = (\<lambda>h f. Inl 0), os_open = next_fd,
     os_sockname = (\<lambda>f. None), os_peername = (\<lambda>f. None),
     os_sendto = (\<lambda>h f d a. (int (length d), 0)), os_recvfrom = (\<lambda>h f n. (-1, EAGAIN, [], [], 0))\<rparr>"

abbreviation example_kernel :: os where
  "example_kernel \<equiv> clients 1"

definition example_startup :: startup where
  "example_startup = \<lparr>st_epollfd = 3, st_timerfd = 4, st_evtfd = 5, st_timerChannel = 1, st_wakeupChannel = 2, st_mirror = example_os\<rparr>"


lemma next_fd_10: "10 \<le> next_fd h"
  by (induction h rule: next_fd.induct) auto

lemma next_fd_append: "next_fd (g @ h) = max (next_fd g) (next_fd h)"
  using next_fd_10 [of h] by (induction g rule: next_fd.induct) auto

lemma next_fd_open: "f \<in> open_fds h \<Longrightarrow> f < next_fd h"
proof (induction h rule: rev_induct)
  case (snoc c h)
  then show ?case by (cases c) (auto simp: next_fd_append split: if_splits)
qed (simp add: open_fds_def)

lemma clients_ok: "os_ok (reserved example_startup) (clients n)"
proof -
  have fresh: "next_fd h \<notin> open_fds h" for h using next_fd_open [of "next_fd h" h] by blast
  have big: "next_fd h \<notin> reserved example_startup" for h
    using next_fd_10 [of h] by (auto simp: reserved_def example_startup_def)
  have pos: "\<not> next_fd h < 0" for h using next_fd_10 [of h] by simp
  have low: "-1 \<notin> open_fds h" for h
  proof
    have ge: "f \<in> open_fds h \<Longrightarrow> 0 \<le> f" for f
      by (induction h arbitrary: f rule: rev_induct) (auto simp: open_fds_def, (rename_tac c h f, case_tac c, auto split: if_splits)+)
    assume "-1 \<in> open_fds h"
    with ge show False by fastforce
  qed
  have "readv_ok (\<lambda>lens. if b \<and> 2 \<le> sum_list lens then (2, 0, [104, 105]) else (0, 0, []))" for b by (simp add: readv_ok_def)
  then show ?thesis
    using fresh big low pos by (auto simp: os_ok_def clients_def accept_transient_def reserved_def example_startup_def)
qed

lemma example_startup_ok: "startup_ok example_startup"
  using example_queue(2) [where 'a = task] by (simp add: startup_ok_def example_startup_def pending_order_def)

lemma test_app_ok: "app_ok test_app"
  by (simp add: app_ok_def test_app_def)

lemma test_main_ok:
  assumes os: "os_ok (reserved s) os"
  shows "main_ok os s (test_main os)"
  unfolding main_ok_def
proof (intro allI impI)
  fix w assume inv: "inv (cx_start (reserved s)) w"
  let ?cx = "cx_start (reserved s)"
  have name: "length (c_str ''TestServer'') \<le> name_limit" by (simp add: name_limit_def c_str_def)
  have start: "wpF limits (TcpServer_start os True server w2) (\<lambda>(st, w3). inv ?cx w3)" if "inv ?cx w2" "servers w2 server \<noteq> None" for server w2
    using TcpServer_start_inv [OF that] os by simp
  have call: "wpF limits (setCallbacks True False False server w1) (\<lambda>w2. inv ?cx w2 \<and> servers w2 server \<noteq> None)"
    if "inv ?cx w1" "servers w1 server \<noteq> None" for server w1
    unfolding wpF_conj using wpX [OF setCallbacks_inv [OF that]] that(2) by (auto simp: setCallbacks_def upd_server_def)
  show "wpF limits (test_main os w) (inv ?cx)"
    unfolding test_main_def wpF_bind
    by (rule wpF_mono [OF TcpServer_new_inv [OF inv _ name]])
      (use os in \<open>auto simp: case_prod_beta' elim!: wpF_mono intro!: wpF_mono [OF call] wpF_mono [OF start]\<close>)
qed

text \<open>The echo server of \<open>README.md\<close>. \<open>main\<close> makes the server and the first closure starts it.\<close>

definition echo_app :: application where
  "echo_app ev w = (case ev of
     CbUser n \<Rightarrow> if n = 0 then [NewServer (InetAddress_port 9999 False False) ''TestServer'' True True False, Queue 1] else [Start 109]
   | CbMessage p \<Rightarrow> (case conns w p of None \<Rightarrow> [] | Some k \<Rightarrow>
       [Consume (readableBytes (cn_input k)), Send p (take vec_max_size (peek (cn_input k)))])
   | _ \<Rightarrow> [])"

lemma echo_app_ok: "app_ok echo_app"
  by (auto simp: app_ok_def echo_app_def name_limit_def c_str_def split: obs.splits option.splits)

end
