(* ===== verification/Guarantees.thy ===== *)
theory Guarantees
  imports Demos
begin

text \<open>
  What the invariant says about a program between two turns of its loop, in terms of the objects, the calls it
  made and the registrations in the kernel.
\<close>

subsection \<open>Statements\<close>

definition no_fault :: "world res option \<Rightarrow> bool" where
  "no_fault r = (case r of Some (Inl f) \<Rightarrow> f \<in> limits | _ \<Rightarrow> True)"

definition afterwards :: "(world \<Rightarrow> bool) \<Rightarrow> world res option \<Rightarrow> bool" where
  "afterwards P r = (case r of Some (Inr w) \<Rightarrow> P w | _ \<Rightarrow> True)"

text \<open>Every open descriptor has one owner, and every call was made on an open descriptor.\<close>

definition descriptors_owned :: "world \<Rightarrow> bool" where
  "descriptors_owned w \<longleftrightarrow> fd_wf (calls w) {} \<and> (\<forall>f. f \<in> open_fds (calls w) \<longleftrightarrow> 0 \<le> f \<and> (\<exists>x. own_fd w x = f))
     \<and> (\<forall>x y. own_fd w x = own_fd w y \<and> 0 \<le> own_fd w x \<longrightarrow> x = y)"

text \<open>What was written to a socket is a prefix of what was sent, and the output buffer has the rest.\<close>

definition streams_in_order :: "world \<Rightarrow> bool" where
  "streams_in_order w \<longleftrightarrow> (\<forall>p k. conns w p = Some k \<and> 0 \<le> cn_socketFd k \<longrightarrow>
     prefix (written (cn_socketFd k) (calls w)) (cn_sent k)
     \<and> (cn_state k \<noteq> kDisconnected \<longrightarrow> cn_sent k = written (cn_socketFd k) (calls w) @ peek (cn_output k)))"

text \<open>The count of an object is the number of the pointers to it, and objects without pointers are gone.\<close>

definition references_exact :: "world \<Rightarrow> bool" where
  "references_exact w \<longleftrightarrow> (\<exists>xs ys. loop_rep w xs ys \<and> (\<forall>p. refs w p = owners w p + capt (mset xs + mset ys) p + held w p))
     \<and> (\<forall>p. shared w p \<longleftrightarrow> 0 < refs w p)"

text \<open>
  What \<open>epoll\<close> watches: an open connection for input, and for output while its buffer is not empty; a listening acceptor and a UDP
  socket that receives for input; nothing else.
\<close>

definition interest_exact :: "world \<Rightarrow> bool" where
  "interest_exact w \<longleftrightarrow>
     (\<forall>p k. conns w p = Some k \<and> 0 \<le> cn_socketFd k \<longrightarrow> interest_of (ctl_trace w) (cn_socketFd k) =
       (if cn_state k = kDisconnected then None
        else Some (if readableBytes (cn_output k) = 0 then kReadEvent else kReadEvent OR kWriteEvent, cn_channel k)))
   \<and> (\<forall>a r c. acceptors w a = Some r \<and> ac_acceptChannel r = Some c \<longrightarrow>
       interest_of (ctl_trace w) (ac_acceptSocket r) = Some (kReadEvent, c))
   \<and> (\<forall>u r c. udps w u = Some r \<and> ud_channel r = Some c \<longrightarrow>
       interest_of (ctl_trace w) (ud_sockfd r) = (if ud_state r = kReceiving then Some (kReadEvent, c) else None))"

text \<open>Every stored pointer leads to an object of the right kind, and no address holds objects of two kinds.\<close>

definition heap_typed :: "world \<Rightarrow> bool" where
  "heap_typed w \<longleftrightarrow> kinds w
   \<and> (\<forall>p k. conns w p = Some k \<longrightarrow> chans w (cn_channel k) \<noteq> None \<and> bound w (cn_channel k) = Some (OwnConn p))
   \<and> (\<forall>s r. servers w s = Some r \<longrightarrow>
        (\<exists>a ra. sv_acceptor r = Some a \<and> acceptors w a = Some ra \<and> ac_newConnectionCb ra = Some s)
        \<and> (\<forall>(nm, p) \<in> set (sv_connections r). \<exists>k. conns w p = Some k \<and> cn_name k = nm \<and> cn_closeCb k = Some s))
   \<and> (\<forall>a r c. acceptors w a = Some r \<and> ac_acceptChannel r = Some c \<longrightarrow> chans w c \<noteq> None \<and> bound w c = Some (OwnAcceptor a))
   \<and> (\<forall>u r c. udps w u = Some r \<and> ud_channel r = Some c \<longrightarrow> chans w c \<noteq> None \<and> bound w c = Some (OwnUdp u))
   \<and> (\<exists>xs ys. loop_rep w xs ys \<and> (\<forall>t \<in> set xs \<union> set ys. task_ok w t))"

text \<open>
  The life of a connection: it is in the map of its server while it is open, then one \<open>connectDestroyed\<close> waits for
  it, and then its descriptor is closed.
\<close>

definition life_cycle :: "world \<Rightarrow> bool" where
  "life_cycle w \<longleftrightarrow> (\<exists>xs ys. loop_rep w xs ys \<and> (\<forall>p k. conns w p = Some k \<longrightarrow>
     (if cn_state k \<noteq> kDisconnected then 0 \<le> cn_socketFd k \<and> in_map w p \<and> count (mset xs + mset ys) (ConnectDestroyed p) = 0
      else \<not> in_map w p \<and> count (mset xs + mset ys) (ConnectDestroyed p) = (if 0 \<le> cn_socketFd k then 1 else 0))))"

subsection \<open>Proofs\<close>

lemma idle_pend:
  assumes "invM (cx_start Z) w M"
  obtains xs ys where "loop_rep w xs ys" "M = mset xs + mset ys"
  using invMD(1) [OF assms] by (auto simp: pend_def)

lemma inv_descriptors:
  assumes "inv (cx_start Z) w"
  shows "descriptors_owned w"
proof -
  obtain M where M: "invM (cx_start Z) w M" using assms by (auto simp: inv_def)
  from invMD(5) [OF M] show ?thesis unfolding descriptors_owned_def fds_def by simp
qed

lemma inv_streams:
  assumes "inv (cx_start Z) w"
  shows "streams_in_order w"
proof -
  obtain M where M: "invM (cx_start Z) w M" using assms by (auto simp: inv_def)
  have "conn_stream (calls w) k" if "conns w p = Some k" for p k by (rule conn_okD [OF M that])
  then show ?thesis unfolding streams_in_order_def conn_stream_def by (metis prefixI)
qed

lemma inv_references:
  assumes "inv (cx_start Z) w"
  shows "references_exact w"
proof -
  obtain M where M: "invM (cx_start Z) w M" using assms by (auto simp: inv_def)
  obtain xs ys where x: "loop_rep w xs ys" "M = mset xs + mset ys" by (rule idle_pend [OF M])
  have "\<forall>p. refs w p = owners w p + capt (mset xs + mset ys) p + held w p"
    using invMD(3) [OF M] x(2) unfolding counts_def by (simp add: tally_def)
  moreover have "\<forall>p. shared w p \<longleftrightarrow> 0 < refs w p" using invMD(3) [OF M] unfolding counts_def by blast
  ultimately show ?thesis using x(1) unfolding references_exact_def by blast
qed

lemma watched:
  assumes r: "reactor_inv w" and c: "chans w c = Some ch" "fd_free c w"
  shows "interest_of (ctl_trace w) (ch_fd ch) = (if ch_events ch = kNoneEvent then None else Some (ch_events ch, c))"
proof (cases "ch_events ch = kNoneEvent")
  case True
  have ok: "chan_ok w c ch" by (rule reactor_invD(2) [OF r c(1)])
  have "ch_index ch = 1" if int: "interest_of (ctl_trace w) (ch_fd ch) = Some (e, q)" for e q
  proof -
    obtain c' where c': "chans w q = Some c'" "ch_fd c' = ch_fd ch" "ch_index c' = 1" using reactor_invD(4) [OF r int] by blast
    then have "pl_channels w (ch_fd ch) = Some q" using reactor_invD(2) [OF r c'(1)] by (auto simp: chan_ok_def)
    then have "q = c" using c by (auto simp: fd_free_def)
    with c' c show ?thesis by simp
  qed
  moreover have "ch_index ch \<noteq> 1" using ok True by (auto simp: chan_ok_def isNoneEvent_def)
  ultimately show ?thesis using True by (cases "interest_of (ctl_trace w) (ch_fd ch)") auto
next
  case False
  then show ?thesis using reactor_invD(2) [OF r c(1)] by (auto simp: chan_ok_def isNoneEvent_def)
qed

lemma inv_interest:
  assumes "inv (cx_start Z) w"
  shows "interest_exact w"
proof -
  obtain M where M: "invM (cx_start Z) w M" using assms by (auto simp: inv_def)
  note r = invMD(2) [OF M]
  have events: "kReadEvent \<noteq> kNoneEvent" "kReadEvent OR kWriteEvent \<noteq> kNoneEvent"
    by (simp_all add: kReadEvent_def kWriteEvent_def kNoneEvent_def EPOLLIN_def EPOLLPRI_def EPOLLOUT_def)
  have "interest_of (ctl_trace w) (cn_socketFd k) = (if cn_state k = kDisconnected then None
        else Some (if readableBytes (cn_output k) = 0 then kReadEvent else kReadEvent OR kWriteEvent, cn_channel k))"
    if k: "conns w p = Some k" "0 \<le> cn_socketFd k" for p k
  proof -
    obtain c where c: "chans w (cn_channel k) = Some c" "conn_chan p k c" using conn_okD [OF M k(1)] by metis
    from watched [OF r c(1) conn_fd_free [OF M k]] c(2) k(2) events show ?thesis by (auto simp: conn_chan_def conn_events_def)
  qed
  moreover have "interest_of (ctl_trace w) (ac_acceptSocket r) = Some (kReadEvent, c)"
    if a: "acceptors w a = Some r" "ac_acceptChannel r = Some c" for a r c
    using invMD(9) [OF M a(1)] a(2) watched [OF invMD(2) [OF M] _ acc_fd_free [OF M a]] events by (auto simp: acc_ok_def)
  moreover have "interest_of (ctl_trace w) (ud_sockfd r) = (if ud_state r = kReceiving then Some (kReadEvent, c) else None)"
    if u: "udps w u = Some r" "ud_channel r = Some c" for u r c
    using invMD(10) [OF M u(1)] u(2) watched [OF invMD(2) [OF M] _ udp_fd_free [OF M u]] events by (auto simp: udp_ok_def)
  ultimately show ?thesis unfolding interest_exact_def by blast
qed

lemma inv_typed:
  assumes "inv (cx_start Z) w"
  shows "heap_typed w"
proof -
  obtain M where M: "invM (cx_start Z) w M" using assms by (auto simp: inv_def)
  obtain xs ys where x: "loop_rep w xs ys" "M = mset xs + mset ys" by (rule idle_pend [OF M])
  have "chans w (cn_channel k) \<noteq> None \<and> bound w (cn_channel k) = Some (OwnConn p)" if k: "conns w p = Some k" for p k
    using invMD(7) [OF M k] by (auto simp: conn_ok_def)
  moreover have "chans w c \<noteq> None \<and> bound w c = Some (OwnAcceptor a)" if "acceptors w a = Some r" "ac_acceptChannel r = Some c" for a r c
    using invMD(9) [OF M that(1)] that(2) by (auto simp: acc_ok_def)
  moreover have "chans w c \<noteq> None \<and> bound w c = Some (OwnUdp u)" if "udps w u = Some r" "ud_channel r = Some c" for u r c
    using invMD(10) [OF M that(1)] that(2) by (auto simp: udp_ok_def)
  moreover have "\<forall>t \<in> set xs \<union> set ys. task_ok w t" using invMD(6) [OF M] x(2) by auto
  ultimately show ?thesis
    using invMD(4) [OF M] invMD(8) [OF M] x(1) unfolding heap_typed_def srv_ok_def by blast
qed

lemma inv_life_cycle:
  assumes "inv (cx_start Z) w"
  shows "life_cycle w"
proof -
  obtain M where M: "invM (cx_start Z) w M" using assms by (auto simp: inv_def)
  obtain xs ys where x: "loop_rep w xs ys" "M = mset xs + mset ys" by (rule idle_pend [OF M])
  have "if cn_state k \<noteq> kDisconnected then 0 \<le> cn_socketFd k \<and> in_map w p \<and> count M (ConnectDestroyed p) = 0
      else \<not> in_map w p \<and> count M (ConnectDestroyed p) = (if 0 \<le> cn_socketFd k then 1 else 0)" if k: "conns w p = Some k" for p k
  proof -
    obtain c where c: "conn_chan p k c" and life: "conn_life False False (in_map w p) (count M (ConnectDestroyed p)) (server_alive w (cn_closeCb k)) k"
      using conn_okD [OF M k] by auto
    have "cn_state k \<noteq> kDisconnected \<longrightarrow> 0 \<le> cn_socketFd k" using c by (auto simp: conn_chan_def)
    moreover have "cn_state k \<noteq> kDisconnected \<longrightarrow> count M (ConnectDestroyed p) = 0" "in_map w p \<longrightarrow> cn_state k \<noteq> kDisconnected"
      "0 < count M (ConnectDestroyed p) \<longrightarrow> count M (ConnectDestroyed p) = 1 \<and> 0 \<le> cn_socketFd k"
      "0 \<le> cn_socketFd k \<longrightarrow> in_map w p \<or> count M (ConnectDestroyed p) = 1"
      using life unfolding conn_life_def by blast+
    ultimately show ?thesis by (cases "cn_state k = kDisconnected") (auto simp: not_in_iff)
  qed
  with x show ?thesis unfolding life_cycle_def by blast
qed

lemma program_afterwards:
  assumes "startup_ok s" "os_ok (reserved s) os" "app_ok app" "main_ok os s main" "program_reported os s main app d xs"
    and P: "\<And>w. inv (cx_start (reserved s)) w \<Longrightarrow> P w"
  shows "afterwards P (program os s main app d xs)" "no_fault (program os s main app d xs)"
  using program_inv [OF assms(1-5)] P by (auto simp: afterwards_def no_fault_def split: option.splits sum.splits)

end
