(* ===== verification/Runs.thy ===== *)
theory Runs
  imports Guarantees
begin

text \<open>
  Evaluation of whole programs by rewriting: the definitions of every operation on the way from \<open>main\<close> to the system calls,
  congruence rules that keep the rest of a sequence unevaluated until its turn, and the runs that serve as examples.
\<close>

subsection \<open>Rules\<close>

lemma run_cong:
  "m = m' \<Longrightarrow> bindR m f = bindR m' f" "b = b' \<Longrightarrow> checkR e b r = checkR e b' r" "x = x' \<Longrightarrow> derefR x g = derefR x' g"
  "v = v' \<Longrightarrow> Let v h = Let v' h" "xs = xs' \<Longrightarrow> s = s' \<Longrightarrow> foldR st xs s = foldR st xs' s'"
  "w = w' \<Longrightarrow> doPendingFunctors ex di w = doPendingFunctors ex di w'"
  "c = c' \<Longrightarrow> w = w' \<Longrightarrow> handle_active lo un ru c w = handle_active lo un ru c' w'"
  by simp_all

lemmas run_queue = ring_isValid_def getPointer_def headPtr_def example_os_def zero_node_def nodeSize_def isValid_def reserve_full_def
  cas_tail_def reserve_def write_data_def commit_def mpsc_peek_def zero_cell_def advance_head_def consume_def
  MpscQueue_new_def CircularBuffer_new_def createBufferMirror_def

lemmas run_buffer = kCheapPrepend_def kInitialSize_def vec_max_size_def Buffer_new_def readableBytes_def writableBytes_def peek_def
  retrieveAll_def retrieve_def extrabuf_size_def readFd_iov_def readFd_def

lemmas run_reactor = EPOLLIN_def EPOLLPRI_def EPOLLOUT_def EPOLLERR_def EPOLLHUP_def EPOLLRDHUP_def kNoneEvent_def kReadEvent_def
  kWriteEvent_def Channel_new_def kInitEventListSize_def Poller_new_def isNoneEvent_def isWriting_def upd_chan_def Poller_update_def
  Poller_updateChannel_def Poller_removeChannel_def fillActive_def fillActiveChannels_def Poller_poll_def loop_updateChannel_def
  loop_removeChannel_def Channel_update_def set_events_def enableReading_def disableAll_def Channel_remove_def Channel_tie_def
  setCallback_def handle_kind_def handleEventWithGuard_def handleEvent_def

lemmas run_loop = pending_order_def createEventfd_def loop_channel_def EventLoop_new_def assertInLoopThread_def queueInLoop_def run_node_def
  run_fallback_def doPendingFunctors_def handle_active_def loop_turn_def drain.simps reactor.extend_def loop.extend_def

lemmas run_sockets = word16_def sizeof_storage_def in_zero_def storage_zero_def sa_family_def InetAddress_sockaddr_def family_def
  addr_of_name_def getLocalAddr_def log_call_def log_obs_def createNonblocking_def sock_bind_def sock_listen_def accept_transient_def
  sock_accept_def sock_write_def sock_close_def setReuseAddr_def setReusePort_def EAGAIN_def ECONNABORTED_def EINTR_def EPROTO_def
  EPERM_def EMFILE_def EWOULDBLOCK_def

lemmas run_connection = acquire_def queueTask_def upd_conn_def setState_def unused_def kHighWaterMark_def TcpConnection_init_def
  TcpConnection_new_def closeSocket_def TcpConnection_destroy_def release_conn_def connectEstablished_def connectDestroyed_def
  handleClose_def conn_handleRead_def sendInLoop_def conn_send_def

lemmas run_server = map_erase_def openIdleFd_def Acceptor_new_def release_acceptor_def upd_acceptor_def listen_channel_def
  Acceptor_listen_def Acceptor_handleRead_def upd_server_def TcpServer_new_def setCallbacks_def start_now_def TcpServer_start_def
  insert_conn_def newConnection_def newConnectionCb_def removeConnectionInLoop_def run_RemoveConnection_def removeConnection_def
  server_close_def drop_conn_def TcpServer_destroy_def Acceptor_destroy_def cleanupAcceptor_def run_CleanupAcceptor_def
  close_if_open_def release_chan_def release_chan_opt_def

lemmas run_udp = UdpSocket_new_def UdpSocket_init_def upd_udp_def setReadCallback_def ensureSocket_def createNonblockingUdp_def udp_bind_def isBound_def
  startReceive_def cleanupUdpSocket_def run_CleanupUdp_def UdpSocket_destroy_def with_udp_def snd_world_def wakeup_def

lemmas run_app = release_def dispose_task_def lock_tie_def run_channel_def with_conn_def with_server_def consume_input_def app_turn_def
  app_turns_def world_of_loop_def start_world_def program_def program_reported_def example_startup_def

lemma run_kernel:
  "os_ctl (clients n) = (\<lambda>_. True)" "os_new (clients n) h i = 100 + 8 * length h + i" "os_socket (clients n) h fam b = next_fd h"
  "os_bind (clients n) h f a" "os_listen (clients n) h f" "os_backlog (clients n) h f = n + 1"
  "os_accept (clients n) h f = (if accepted h < n then (next_fd h, 0, in_bytes in_zero, 16) else (-1, EAGAIN, [], 0))"
  "os_readv (clients n) h f lens = (if reads f h = 0 \<and> 2 \<le> sum_list lens then (2, 0, [104, 105]) else (0, 0, []))"
  "os_write (clients n) h f d = (int (length d), 0)" "os_open (clients n) h = next_fd h" "os_sockname (clients n) f = None"
  by (simp_all add: clients_def)

lemma run_counts:
  "accepted [] = 0" "accepted (c # h) = (case c of SysAccept s f \<Rightarrow> if 0 \<le> f then Suc (accepted h) else accepted h | _ \<Rightarrow> accepted h)"
  "reads f [] = 0" "reads f (c # h) = (case c of SysRead g m \<Rightarrow> if g = f then Suc (reads f h) else reads f h | _ \<Rightarrow> reads f h)"
  by (auto simp: accepted_def reads_def split: sys_call.splits)

lemma run_env: "e_os (mk_env os cb) = os" "e_cb (mk_env os cb) = cb" "e_close (mk_env os cb) = server_close True"
  by (simp_all add: mk_env_def)

lemmas run_depth = accept_loop.simps(2) [where n = "pred_numeral m" for m, folded numeral_eq_Suc]
  app_cb.simps(2) [where d = "pred_numeral m" for m, folded numeral_eq_Suc]

text \<open>The two bytes of a client, in a buffer that was empty.\<close>

lemma run_bytes: "seg 8 10 (blit 8 [104, 105] (replicate 1032 0)) = [104, 105 :: byte]"
  by (simp add: seg_def blit_def)

lemmas run_defs = Let_def run_queue run_buffer run_reactor run_loop run_sockets run_connection run_server run_udp run_app run_kernel run_counts
  run_env run_depth run_bytes

subsection \<open>The echo server\<close>

lemma echo_name: "conn_name ''TestServer'' 1 = ''TestServer-TestServer#1''"
  by code_simp

abbreviation echo_turns :: "(int \<times> (ptr \<times> events) list) list" where
  "echo_turns \<equiv> [(0, []), (1, [(148, 1)]), (1, [(157, 1)]), (1, [(157, 1)])]"

lemma echo_reported: "program_reported example_kernel example_startup (app_main example_kernel echo_app 3) echo_app 3 echo_turns"
  by (simp add: run_defs echo_app_def echo_name reported_ok_def interest_of.simps ctl_apply.simps cong: run_cong)

lemma echo_run:
  "\<exists>w. program example_kernel example_startup (app_main example_kernel echo_app 3) echo_app 3 echo_turns = Some (Inr w)
     \<and> obs w = [CbUser 0, CbUser 1, CbConnection 156 kConnected, CbMessage 156, CbConnection 156 kDisconnected]
     \<and> written 12 (calls w) = [104, 105] \<and> open_fds (calls w) = {10, 11}"
  by (simp add: run_defs echo_app_def echo_name open_fds_def written_def insert_commute cong: run_cong)

text \<open>The same client at the server of \<open>test_build.cpp\<close>, which does not answer.\<close>

abbreviation test_turns :: "(int \<times> (ptr \<times> events) list) list" where
  "test_turns \<equiv> [(1, [(148, 1)]), (1, [(157, 1)]), (1, [(157, 1)])]"

lemma test_reported: "program_reported example_kernel example_startup (test_main example_kernel) test_app 2 test_turns"
  by (simp add: run_defs test_main_def test_app_def echo_name reported_ok_def interest_of.simps ctl_apply.simps cong: run_cong)

lemma test_run:
  "\<exists>w. test_program example_kernel example_startup 2 test_turns = Some (Inr w)
     \<and> obs w = [CbConnection 156 kConnected, CbConnection 156 kDisconnected]"
  by (simp add: run_defs test_program_def test_main_def test_app_def echo_name cong: run_cong)

subsection \<open>Programs outside the assumptions\<close>

text \<open>The connections of a server with a long name.\<close>

definition long_app :: application where
  "long_app ev w = (case ev of
     CbUser n \<Rightarrow> if n = 0 then [NewServer (InetAddress_port 9999 False False) (replicate 62 CHR ''a'') True True False, Queue 1] else [Start 109]
   | _ \<Rightarrow> [])"

lemma long_name: "conn_name (replicate 62 CHR ''a'') n = replicate 62 CHR ''a'' @ CHR ''-'' # replicate 62 CHR ''a''"
  by (simp add: conn_name_def snprintf_def c_str_def)


text \<open>An application that destroys its server when the first message arrives.\<close>

definition destroy_app :: application where
  "destroy_app ev w = (case ev of
     CbUser n \<Rightarrow> if n = 0 then [NewServer (InetAddress_port 9999 False False) ''TestServer'' True True False, Queue 1] else [Start 109]
   | CbMessage p \<Rightarrow> [DestroyServer 109]
   | _ \<Rightarrow> [])"

lemma second_name:
  "conn_name ''TestServer'' 2 = ''TestServer-TestServer#2''" "(''TestServer-TestServer#2'' < ''TestServer-TestServer#1'') = False"
  by code_simp+


text \<open>A UDP socket that another thread starts and the loop's thread destroys.\<close>

definition race_app :: application where
  "race_app ev w = (case ev of
     CbUser n \<Rightarrow> [NewUdp, UdpBind 100 (InetAddress_port 9999 False False), OtherUdpStart 100, DestroyUdp 100]
   | _ \<Rightarrow> [])"

text \<open>A kernel that rejects the registration of descriptor 10, which the program makes only after it has closed it.\<close>

definition strict_kernel :: os where
  "strict_kernel = (clients 0)\<lparr>os_ctl := (\<lambda>c. ctl_fd c \<noteq> 10)\<rparr>"


end
