(* ===== verification/Services.thy ===== *)
theory Services
  imports Runs
begin

text \<open>
  Properties of single services: names of connections, errors of \<open>accept\<close>, the states of a UDP socket, the high-water mark
  and the orderly end of a connection.
\<close>

subsection \<open>Names\<close>

text \<open>
  Claim C33. The name of a connection adds at most 63 characters to the name of its server. While the server's name has at most
  51 characters, different connection numbers give different names; from 62 characters on, all names are equal.
\<close>

theorem conn_name_bounds:
  "length (conn_name nm i) \<le> length nm + 63
   \<and> (length (c_str nm) \<le> 51 \<and> i \<in> {1..<2 ^ 31} \<and> j \<in> {1..<2 ^ 31} \<longrightarrow> (conn_name nm i = conn_name nm j \<longleftrightarrow> i = j))
   \<and> (62 \<le> length (c_str nm) \<longrightarrow> conn_name nm i = conn_name nm j)"
  using conn_name_inj [of nm i j] by (auto simp: conn_name_def snprintf_def name_limit_def)

theorem conn_name_bounds_witness:
  "conn_name ''TestServer'' 1 \<noteq> conn_name ''TestServer'' 2
   \<and> conn_name (replicate 70 CHR ''a'') 1 = conn_name (replicate 70 CHR ''a'') 2"
  using conn_name_bounds [of "''TestServer''" 1 2] conn_name_bounds [of "replicate 70 CHR ''a''" 1 2]
  by (simp add: c_str_def)

subsection \<open>Errors of \<open>accept\<close>\<close>

text \<open>
  Claim C31. What a failed \<open>accept4\<close> does. On \<open>EMFILE\<close> the spare descriptor is closed, the waiting connection is accepted
  and closed, and a new spare descriptor is opened; errors that may pass leave everything as it was; any other error ends the process.
\<close>

theorem accept_failures:
  assumes "acceptors w a = Some r" and "s = ac_acceptSocket r" and "0 < os_backlog os (calls w) s"
    and "os_accept os (calls w) s = (-1, err, addr, len)"
  shows "Acceptor_handleRead os newc True a w =
    (if err = EMFILE then
       let h1 = calls w @ [SysAccept s (-1)] @ (if 0 \<le> ac_idleFd r then [SysClose (ac_idleFd r)] else []);
           f = fst (os_accept os h1 s);
           h2 = h1 @ [SysAccept s f] @ (if 0 \<le> f then [SysClose f] else []);
           g = os_open os h2
       in Inr (w\<lparr>calls := h2 @ [SysOpen g], acceptors := (acceptors w)(a \<mapsto> r\<lparr>ac_idleFd := g\<rparr>)\<rparr>)
     else if err \<in> {EAGAIN, ECONNABORTED, EINTR, EPROTO, EPERM} then Inr (w\<lparr>calls := calls w @ [SysAccept s (-1)]\<rparr>)
     else Inl Aborted)"
proof -
  obtain n where n: "os_backlog os (calls w) s = Suc n" using assms(3) gr0_implies_Suc by blast
  have loop: "Acceptor_handleRead os newc True a w = bindR (sock_accept os s w) (\<lambda>(connfd, err, addr, addrlen, w1).
      if 0 \<le> connfd then bindR (case ac_newConnectionCb r of None \<Rightarrow> Inr (sock_close connfd w1)
        | Some sv \<Rightarrow> newc sv connfd (InetAddress_sockaddr addr addrlen) w1) (accept_loop os newc n a)
      else if err = EAGAIN \<or> err = EWOULDBLOCK then Inr w1 else if err = EMFILE then drop_one os a w1 else Inr w1)"
    using assms(1,2) n by (simp add: Acceptor_handleRead_def assertInLoopThread_def)
  note errnos = EMFILE_def EAGAIN_def EWOULDBLOCK_def ECONNABORTED_def EINTR_def EPROTO_def EPERM_def
  show ?thesis
  proof (cases "err = EMFILE")
    case True
    then show ?thesis using assms(1,2,4)
      by (simp add: loop sock_accept_def accept_transient_def log_call_def drop_one_def close_if_open_def sock_close_def openIdleFd_def
          upd_acceptor_def Let_def errnos)
  next
    case False
    then show ?thesis using assms(4) by (simp add: loop sock_accept_def accept_transient_def log_call_def errnos)
  qed
qed

text \<open>The process has no descriptor left until the spare one is closed.\<close>

definition full_kernel :: os where
  "full_kernel = example_kernel\<lparr>os_accept := (\<lambda>h f. if SysClose 10 \<in> set h then (10, 0, [], 0) else (-1, EMFILE, [], 0))\<rparr>"

lemma listening_run:
  "\<exists>w r. program example_kernel example_startup (app_main example_kernel echo_app 3) echo_app 3 [(0, [])] = Some (Inr w)
     \<and> acceptors w 100 = Some r \<and> ac_acceptSocket r = 11 \<and> ac_idleFd r = 10 \<and> SysClose 10 \<notin> set (calls w) \<and> next_fd (calls w) = 12"
  by (simp add: run_defs echo_app_def cong: run_cong)

theorem accept_failures_witness:
  "\<exists>w w'. Acceptor_handleRead full_kernel (\<lambda>s f addr. Inr) True 100 w = Inr w'
     \<and> calls w' = calls w @ [SysAccept 11 (-1), SysClose 10, SysAccept 11 10, SysClose 10, SysOpen 12]"
proof -
  obtain w :: world and r where w: "acceptors w 100 = Some r" "ac_acceptSocket r = 11" "ac_idleFd r = 10" "SysClose 10 \<notin> set (calls w)" "next_fd (calls w) = 12"
    using listening_run by blast
  have "os_accept full_kernel (calls w) 11 = (-1, EMFILE, [], 0)" "0 < os_backlog full_kernel (calls w) 11"
    using w(4) by (simp_all add: full_kernel_def run_kernel)
  from accept_failures [OF w(1) w(2) [symmetric] this(2,1), of "\<lambda>s f addr. Inr"] w
  have "Acceptor_handleRead full_kernel (\<lambda>s f addr. Inr) True 100 w = Inr (w\<lparr>calls := calls w @
      [SysAccept 11 (-1), SysClose 10, SysAccept 11 10, SysClose 10, SysOpen 12], acceptors := (acceptors w)(100 \<mapsto> r\<lparr>ac_idleFd := 12\<rparr>)\<rparr>)"
    by (simp add: full_kernel_def run_kernel Let_def next_fd_append)
  then show ?thesis by (intro exI conjI) (assumption, simp)
qed

subsection \<open>UDP sockets\<close>

lemma open_fds_append: "open_fds (h @ g) = fold fd_apply g (open_fds h)"
  by (simp add: open_fds_def)


definition udp_app :: application where
  "udp_app ev w = (case ev of CbUser n \<Rightarrow> [NewUdp] | _ \<Rightarrow> [])"

lemma udp_run:
  "\<exists>w. program (clients 0) example_startup (app_main (clients 0) udp_app 3) udp_app 3 [] = Some (Inr w)
     \<and> udps w 100 = Some (UdpSocket_init\<lparr>ud_readCb := True\<rparr>)"
  by (simp add: run_defs udp_app_def cong: run_cong)

definition busy_kernel :: os where
  "busy_kernel = (clients 0)\<lparr>os_bind := (\<lambda>h f addr. False)\<rparr>"


subsection \<open>The end of a connection\<close>

text \<open>
  Claim C27. \<open>shutdown\<close> does not overtake what was sent. When the output buffer is empty it shuts the socket down for writing, and
  then every byte that was sent has been written; otherwise it only records that the connection is to be shut down.
\<close>

theorem shutdown_waits:
  assumes inv: "inv cx w" and k: "conns w p = Some k" "cn_state k = kConnected"
  shows "wpR (conn_shutdown True p w) (\<lambda>w'. inv cx w' \<and> conns w' p = Some (k\<lparr>cn_state := kDisconnecting\<rparr>)
    \<and> (if readableBytes (cn_output k) = 0
       then calls w' = calls w @ [SysShutdown (cn_socketFd k)] \<and> written (cn_socketFd k) (calls w') = cn_sent k
       else calls w' = calls w))"
proof -
  obtain M c where c: "chans w (cn_channel k) = Some c" "conn_chan p k c" "conn_stream (calls w) k" by (rule inv_connE [OF inv k(1)])
  have op: "0 \<le> cn_socketFd k" "isWriting c \<longleftrightarrow> readableBytes (cn_output k) \<noteq> 0"
    using conn_open [OF c(2)] conn_writing(1) [OF c(2)] k(2) by auto
  have "buffer_inv (cn_output k)" using c(2) by (simp add: conn_chan_def)
  then have "readableBytes (cn_output k) = 0 \<Longrightarrow> peek (cn_output k) = []" by (metis length_peek length_0_conv)
  then have "readableBytes (cn_output k) = 0 \<Longrightarrow> written (cn_socketFd k) (calls w) = cn_sent k"
    using c(3) k(2) op by (auto simp: conn_stream_def)
  with c(1) k op have "wpR (conn_shutdown True p w) (\<lambda>w'. conns w' p = Some (k\<lparr>cn_state := kDisconnecting\<rparr>)
    \<and> (if readableBytes (cn_output k) = 0
       then calls w' = calls w @ [SysShutdown (cn_socketFd k)] \<and> written (cn_socketFd k) (calls w') = cn_sent k
       else calls w' = calls w))"
    by (simp add: conn_shutdown_def setState_Some [OF k(1)] shutdownInLoop_def assertInLoopThread_def shutdownWrite_def log_call_def)
  with conn_shutdown_inv [OF inv k(1), of True] show ?thesis by (simp add: wpF_conj)
qed

text \<open>
  Claim C28. A connection that is to be shut down is shut down as soon as its output buffer is written: the handler writes the rest,
  stops waiting for writability and shuts the socket down, and then every byte that was sent has been written.
\<close>

theorem shutdown_completes:
  assumes inv: "inv cx w" and k: "conns w p = Some k" "cn_state k = kDisconnecting" "readableBytes (cn_output k) \<noteq> 0"
    and os: "os_ok (cx_reserved cx) (e_os e)"
    and wr: "os_write (e_os e) (calls w) (cn_socketFd k) (peek (cn_output k)) = (int (readableBytes (cn_output k)), err)"
  shows "wpR (conn_handleWrite e True p w) (\<lambda>w'.
    calls w' = calls w @ [SysWrite (cn_socketFd k) (peek (cn_output k)), SysShutdown (cn_socketFd k)]
    \<and> written (cn_socketFd k) (calls w') = cn_sent k)"
proof -
  obtain M c where c: "invM cx w M" "chans w (cn_channel k) = Some c" "conn_chan p k c" "conn_stream (calls w) k" by (rule inv_connE [OF inv k(1)])
  have d: "cn_state k \<noteq> kDisconnected" using k(2) by simp
  note op = conn_open [OF c(3) d] and wrt = conn_writing [OF c(3) d]
  let ?h = "calls w @ [SysWrite (cn_socketFd k) (peek (cn_output k))]"
  have sent: "written (cn_socketFd k) (?h @ [SysShutdown (cn_socketFd k)]) = cn_sent k"
    using c(4) d op unfolding written_snoc by (simp add: conn_stream_def)
  have ev: "wpR (disableWriting (os_ctl (e_os e)) True (cn_channel k) w1) (\<lambda>w2. conns w2 = conns w1 \<and> calls w2 = calls w1
      \<and> (\<exists>c2. chans w2 (cn_channel k) = Some c2 \<and> \<not> isWriting c2))"
    if w1: "w1 = w\<lparr>conns := cs, calls := h\<rparr>" for w1 cs h
  proof -
    have r: "reactor_inv w1" by (rule reactor_inv_cong [OF _ _ _ invMD(2) [OF c(1)]]) (simp_all add: w1)
    have free: "fd_free (cn_channel k) w1" using conn_fd_free [OF c(1) k(1)] op fd_free_cong [where w' = w1 and w = w] by (simp add: w1)
    have cw: "chans w1 (cn_channel k) = Some c" using c(2) by (simp add: w1)
    show ?thesis
      by (rule wpF_mono [OF disableWriting_spec [OF r cw free, of "os_ctl (e_os e)", unfolded ctl_faults_ok [OF os] wrt(3)]])
        (auto simp: chan_effect_more same_objectsD(1) [OF chan_effect_more(1)] isWriting_def event_defs)
  qed
  have out: "buffer_inv (cn_output k)" using c(3) by (simp add: conn_chan_def)
  let ?w = "\<lambda>b. w\<lparr>conns := (conns w)(p \<mapsto> k\<lparr>cn_output := b\<rparr>), calls := ?h\<rparr>"
  let ?go = "\<lambda>b. if readableBytes b = 0 then bindR (disableWriting (os_ctl (e_os e)) True (cn_channel k) (?w b)) (\<lambda>w3.
      let w4 = (if cn_writeCompleteCb k then queueTask True (WriteComplete p) w3 else w3) in
      if cn_state k = kDisconnecting then shutdownInLoop True p w4 else Inr w4) else Inr (?w b)"
  let ?P = "\<lambda>w'. calls w' = ?h @ [SysShutdown (cn_socketFd k)] \<and> written (cn_socketFd k) (calls w') = cn_sent k"
  have after: "wpR (?go b) ?P"
    if b: "buffer_inv b \<and> peek b = drop (readableBytes (cn_output k)) (peek (cn_output k)) \<and> buf_data b = buf_data (cn_output k)" for b
  proof -
    have "readableBytes b = 0" using b out by (metis drop_all length_peek list.size(3) order_refl)
    then show ?thesis
      using op sent k(2) by (auto intro!: wpF_mono [OF ev [OF refl]] simp: shutdownInLoop_def assertInLoopThread_def shutdownWrite_def log_call_def)
  qed
  have "wpR (retrieve (readableBytes (cn_output k)) (cn_output k)) (\<lambda>b. wpR (?go b) ?P)"
    by (rule wpF_mono [OF retrieve_spec [OF out order_refl]]) (rule after)
  then show ?thesis
    using k c(2) wr op wrt(1) d out
    by (simp add: conn_handleWrite_def assertInLoopThread_def sock_write_def log_call_def upd_conn_def split del: if_split)
qed

text \<open>A client that is slow to read, and an application that answers and hangs up.\<close>

definition slow_kernel :: os where
  "slow_kernel = example_kernel\<lparr>os_write := (\<lambda>h f d. if list_ex (\<lambda>c. case c of SysWrite g e \<Rightarrow> g = f | _ \<Rightarrow> False) h then (int (length d), 0) else (-1, EAGAIN))\<rparr>"

definition bye_app :: application where
  "bye_app ev w = (case ev of
     CbUser n \<Rightarrow> if n = 0 then [NewServer (InetAddress_port 9999 False False) ''TestServer'' True True False, Queue 1] else [Start 109]
   | CbMessage p \<Rightarrow> [Send p [1, 2, 3], Shutdown p]
   | _ \<Rightarrow> [])"

lemma slow_kernel_ok: "os_ok (reserved example_startup) slow_kernel"
  using clients_ok [of 1] by (auto simp: os_ok_def slow_kernel_def EAGAIN_def split: if_splits)

lemma bye_app_ok: "app_ok bye_app"
  by (auto simp: app_ok_def bye_app_def name_limit_def c_str_def vec_max_size_def split: obs.splits)

lemma bye_bytes: "seg 8 11 (blit 8 [1, 2, 3] (replicate 1032 0)) = [1, 2, 3 :: byte]"
  by (simp add: seg_def blit_def)

lemmas bye_defs = slow_kernel_def bye_app_def bye_bytes sendRest_def append_def ensureWritableBytes_def makeSpace_def size_add_def hasWritten_def
  prependableBytes_def enableWriting_def conn_shutdown_def shutdownInLoop_def

lemma bye_reported:
  "program_reported slow_kernel example_startup (app_main slow_kernel bye_app 3) bye_app 3 [(0, []), (1, [(148, 1)]), (1, [(157, 1)])]"
  by (simp add: run_defs bye_defs echo_name reported_ok_def interest_of.simps ctl_apply.simps cong: run_cong)

lemma bye_run:
  "\<exists>w k. program slow_kernel example_startup (app_main slow_kernel bye_app 3) bye_app 3 [(0, []), (1, [(148, 1)]), (1, [(157, 1)])] = Some (Inr w)
     \<and> conns w 156 = Some k \<and> cn_state k = kDisconnecting \<and> cn_socketFd k = 12 \<and> peek (cn_output k) = [1, 2, 3]
     \<and> readableBytes (cn_output k) = 3 \<and> SysWrite 12 [] \<in> set (calls w) \<and> cn_sent k = [1, 2, 3]"
  by (simp add: run_defs bye_defs echo_name cong: run_cong)

theorem shutdown_completes_witness:
  "\<exists>e w. wpR (conn_handleWrite e True 156 w) (\<lambda>w'. calls w' = calls w @ [SysWrite 12 [1, 2, 3], SysShutdown 12]
     \<and> written 12 (calls w') = [1, 2, 3])"
proof -
  obtain w k where w: "program slow_kernel example_startup (app_main slow_kernel bye_app 3) bye_app 3
      [(0, []), (1, [(148, 1)]), (1, [(157, 1)])] = Some (Inr w)" "conns w 156 = Some k" "cn_state k = kDisconnecting"
    "cn_socketFd k = 12" "peek (cn_output k) = [1, 2, 3]" "readableBytes (cn_output k) = 3" "SysWrite 12 [] \<in> set (calls w)" "cn_sent k = [1, 2, 3]"
    using bye_run by (elim exE conjE)
  let ?e = "app_env slow_kernel bye_app 3"
  have inv: "inv (cx_start (reserved example_startup)) w"
    using program_inv [OF example_startup_ok slow_kernel_ok bye_app_ok app_main_ok [OF bye_app_ok slow_kernel_ok] bye_reported w(1)] by simp
  have "os_write (e_os ?e) (calls w) 12 [1, 2, 3] = (3, 0)"
    using w(7) by (force simp: run_env slow_kernel_def list_ex_iff)
  with shutdown_completes [OF inv w(2,3), of ?e 0] w slow_kernel_ok show ?thesis
    by (intro exI [of _ ?e] exI [of _ w]) (simp add: run_env)
qed

lemma connected_reported: "program_reported example_kernel example_startup (app_main example_kernel echo_app 3) echo_app 3 [(0, []), (1, [(148, 1)])]"
  by (simp add: run_defs echo_app_def echo_name reported_ok_def interest_of.simps ctl_apply.simps cong: run_cong)

lemma connected_run:
  "\<exists>w k. program example_kernel example_startup (app_main example_kernel echo_app 3) echo_app 3 [(0, []), (1, [(148, 1)])] = Some (Inr w)
     \<and> conns w 156 = Some k \<and> cn_state k = kConnected \<and> cn_socketFd k = 12 \<and> readableBytes (cn_output k) = 0"
  by (simp add: run_defs echo_app_def echo_name cong: run_cong)

theorem shutdown_waits_witness:
  "\<exists>w. wpR (conn_shutdown True 156 w) (\<lambda>w'. calls w' = calls w @ [SysShutdown 12])"
proof -
  obtain w k where w: "program example_kernel example_startup (app_main example_kernel echo_app 3) echo_app 3 [(0, []), (1, [(148, 1)])] = Some (Inr w)"
    "conns w 156 = Some k" "cn_state k = kConnected" "cn_socketFd k = 12" "readableBytes (cn_output k) = 0"
    using connected_run by (elim exE conjE)
  have "inv (cx_start (reserved example_startup)) w"
    using program_inv [OF example_startup_ok clients_ok echo_app_ok app_main_ok [OF echo_app_ok clients_ok] connected_reported w(1)] by simp
  from shutdown_waits [OF this w(2,3)] w(4,5) show ?thesis by (intro exI [of _ w]) (simp add: wpF_conj)
qed

subsection \<open>The high-water mark\<close>

definition high_water :: "conn \<Rightarrow> ptr \<Rightarrow> nat \<Rightarrow> task multiset" where
  "high_water k p n = (let old = readableBytes (cn_output k) in
     if cn_highWaterMarkCb k \<and> old < cn_highWaterMark k \<and> cn_highWaterMark k \<le> old + n then {#HighWaterMark p (old + n)#} else {#})"

lemma sendRest_pend:
  assumes w: "reactor_inv w" "pend cx w M" and k: "conns w p = Some k" "buffer_inv (cn_output k)"
    and c: "chans w (cn_channel k) = Some c" "fd_free (cn_channel k) w" and n: "length rest \<le> vec_max_size" and os: "os_ok Z (e_os e)"
  shows "wpF limits (sendRest e True p rest w) (\<lambda>w'. pend cx w' (M + high_water k p (length rest)))"
proof -
  have len: "readableBytes (cn_output k) \<le> vec_max_size" using k(2) by (auto simp: buffer_inv_def readableBytes_def)
  then have "readableBytes (cn_output k) + length rest < 2 ^ 64" using n by (simp add: vec_max_size_def)
  then have add: "size_add (readableBytes (cn_output k)) (length rest) = readableBytes (cn_output k) + length rest" by (simp add: size_add_def)
  define w1 where "w1 = (if cn_highWaterMark k \<le> readableBytes (cn_output k) + length rest \<and> readableBytes (cn_output k) < cn_highWaterMark k
      \<and> cn_highWaterMarkCb k then queueTask True (HighWaterMark p (readableBytes (cn_output k) + length rest)) w else w)"
  have q: "pend cx w1 (M + high_water k p (length rest))"
    using w(2) pend_queue [OF w(2), of True "HighWaterMark p (readableBytes (cn_output k) + length rest)"] by (auto simp: high_water_def Let_def w1_def)
  have same: "conns w1 = conns w" "chans w1 = chans w" "pl_channels w1 = pl_channels w" "ctl_trace w1 = ctl_trace w" by (simp_all add: w1_def)
  have en: "wpF limits (if \<not> isWriting c then enableWriting (os_ctl (e_os e)) True (cn_channel k) w2 else Inr w2)
      (\<lambda>w'. pend cx w' (M + high_water k p (length rest)))" if w2: "w2 = w1\<lparr>conns := cs\<rparr>" for w2 cs
  proof -
    have p2: "pend cx w2 (M + high_water k p (length rest))" by (rule pend_cong [OF q]) (simp_all add: w2)
    have r: "reactor_inv w2" by (rule reactor_inv_cong [OF _ _ _ w(1)]) (simp_all add: w2 same)
    have free: "fd_free (cn_channel k) w2" using c(2) fd_free_cong [where w = w and w' = w2] by (simp add: w2 same)
    have ch: "chans w2 (cn_channel k) = Some c" using c(1) by (simp add: w2 same)
    have "wpR (enableWriting (os_ctl (e_os e)) True (cn_channel k) w2) (\<lambda>w'. pend cx w' (M + high_water k p (length rest)))"
      by (rule wpF_mono [OF enableWriting_spec [OF r ch free, of "os_ctl (e_os e)", unfolded ctl_faults_ok [OF os]]])
        (auto intro: pend_cong [OF p2] simp: chan_effect_more)
    from wpX [OF this] p2 show ?thesis by simp
  qed
  have "wpF limits (append rest (cn_output k)) (\<lambda>b. True)"
    using k(2) n by (intro wpF_weaken [OF wpF_faults [OF append_total]]) (auto simp: limits_def)
  then have "wpF limits (append rest (cn_output k)) (\<lambda>b. wpF limits (if \<not> isWriting c then enableWriting (os_ctl (e_os e)) True (cn_channel k)
      (w1\<lparr>conns := (conns w)(p \<mapsto> k\<lparr>cn_output := b\<rparr>)\<rparr>) else Inr (w1\<lparr>conns := (conns w)(p \<mapsto> k\<lparr>cn_output := b\<rparr>)\<rparr>))
      (\<lambda>w'. pend cx w' (M + high_water k p (length rest))))"
    by (rule wpF_mono) (rule en [OF refl])
  with k c same show ?thesis
    unfolding sendRest_def k(1) derefR_simps Let_def add w1_def [symmetric] wpF_bind by (simp add: upd_conn_def k(1) split del: if_split)
qed


text \<open>An application that sets the mark to two bytes.\<close>

definition mark_app :: application where
  "mark_app ev w = (case ev of
     CbUser n \<Rightarrow> if n = 0 then [NewServer (InetAddress_port 9999 False False) ''TestServer'' True True False, Queue 1] else [Start 109]
   | CbConnection p st \<Rightarrow> [HighWater p 2]
   | _ \<Rightarrow> [])"

lemma mark_app_ok: "app_ok mark_app"
  by (auto simp: app_ok_def mark_app_def name_limit_def c_str_def split: obs.splits)

lemma mark_reported:
  "program_reported slow_kernel example_startup (app_main slow_kernel mark_app 3) mark_app 3 [(0, []), (1, [(148, 1)])]"
  by (simp add: run_defs mark_app_def slow_kernel_def setHighWaterMarkCallback_def echo_name reported_ok_def interest_of.simps
      ctl_apply.simps cong: run_cong)

lemma mark_run:
  "\<exists>w k. program slow_kernel example_startup (app_main slow_kernel mark_app 3) mark_app 3 [(0, []), (1, [(148, 1)])] = Some (Inr w)
     \<and> conns w 156 = Some k \<and> cn_state k = kConnected \<and> cn_socketFd k = 12 \<and> readableBytes (cn_output k) = 0
     \<and> cn_highWaterMarkCb k \<and> cn_highWaterMark k = 2 \<and> list_ex (\<lambda>c. case c of SysWrite g e \<Rightarrow> g = 12 | _ \<Rightarrow> False) (calls w) = False"
  by (simp add: run_defs mark_app_def slow_kernel_def setHighWaterMarkCallback_def echo_name cong: run_cong)


end
