(* ===== verification/TimerDemo.thy ===== *)
theory TimerDemo
  imports Runs
begin

text \<open>
  The program of \<open>demo_timer.cpp\<close>: a timer that runs once, a periodic one, one that cancels it, and one that stops the
  loop. The parameters are the clock reading of \<open>main\<close>, the addresses that \<open>new Timer\<close> returns and the times at which the loop
  gets to serve the timer descriptor.
\<close>

text \<open>The closures that \<open>main\<close> gives to the loop; the third one captures the identifier of the second timer.\<close>

datatype demo_cb = RunsOnce | RunsEverySecond | CancelPeriodic timer_id | StopLoop

definition demo_main :: "timestamp \<Rightarrow> ptr \<Rightarrow> ptr \<Rightarrow> ptr \<Rightarrow> ptr \<Rightarrow> demo_cb tq res" where
  "demo_main now p1 p2 p3 p4 =
     bindR (runAfter now p1 2500000 RunsOnce TimerQueue_new) (\<lambda>(_, q1).
     bindR (runEvery now p2 1000000 RunsEverySecond q1) (\<lambda>(everyId, q2).
     bindR (runAfter now p3 5500000 (CancelPeriodic everyId) q2) (\<lambda>(_, q3).
     bindR (runAfter now p4 10000000 StopLoop q3) (\<lambda>(_, q4). Inr q4))))"

definition demo_exec :: "timestamp \<Rightarrow> demo_cb \<Rightarrow> demo_cb tq \<Rightarrow> demo_cb tq res" where
  "demo_exec now cb q = (case cb of CancelPeriodic everyId \<Rightarrow> loop_cancel now everyId q | _ \<Rightarrow> Inr q)"

text \<open>The callbacks that a firing runs, and the turns of the loop until one of them calls \<open>quit\<close>.\<close>

definition demo_due :: "timestamp \<Rightarrow> demo_cb tq \<Rightarrow> demo_cb list" where
  "demo_due now q = map (\<lambda>(_, p). callback (the (tq_heap q p))) (takeWhile (\<lambda>e. e < (now, UINTPTR_MAX)) (timers q))"

fun demo_loop :: "timestamp list \<Rightarrow> demo_cb tq \<Rightarrow> (demo_cb list list \<times> demo_cb tq) res" where
  "demo_loop [] q = Inr ([], q)"
| "demo_loop (now # ts) q =
     bindR (handleRead (demo_exec now) True now now q) (\<lambda>q'.
       if StopLoop \<in> set (demo_due now q) then Inr ([demo_due now q], q')
       else bindR (demo_loop ts q') (\<lambda>(log, q''). Inr (demo_due now q # log, q'')))"

text \<open>The times at which something is due, in milliseconds after the start, and the same in nanoseconds with a delay each.\<close>

definition demo_schedule :: "int list" where
  "demo_schedule = [1000, 2000, 2500, 3000, 4000, 5000, 5500, 10000]"

definition demo_times :: "timestamp \<Rightarrow> int list \<Rightarrow> timestamp list" where
  "demo_times t0 ds = map2 (\<lambda>ms d. t0 + ms * 1000000 + d) demo_schedule ds"

lemmas demo_defs = demo_main_def runAfter_def runAt_def runEvery_def addTimer_inLoop_def new_timer_def addTimerInLoop_def timer_id_of_def
  tq_insert_def fresh_timer_def TimerQueue_new_def Timer_new_def us_to_ns_def sizes_agree_def set_insert_def resetTimerfd_def
  handleRead_def demo_exec_def demo_due_def loop_cancel_def cancelInLoop_def getExpired_def eraseActive_def runTimer_def reset_def
  resetEntry_def restart_def disarmTimerfd_def demo_schedule_def demo_times_def Let_def

lemma eight:
  assumes "length ds = 8"
  obtains a b c d e f g h where "ds = [a, b, c, d, e, f, g, h]"
  using assms by (auto simp: eval_nat_numeral length_Suc_conv)



end
