(* ===== verification/Spec2Isabelle.thy ===== *)
theory Spec2Isabelle
  imports Services TimerDemo
begin

text \<open>
  Verification development of hvnetpp, a C++ network library built around one event loop per thread: TCP servers
  and connections, UDP sockets, timers, and closures queued from any thread.

  \<^bold>\<open>The program and its theories.\<close> Paths are below \<open>src/\<close>; headers are in \<open>include/hvnetpp/\<close>, implementations in \<open>src/\<close>.
  \<^item> \<open>Prelude\<close>: bytes, descriptors, error numbers, results that may be faults, and their weakest preconditions.
  \<^item> \<open>Buffer\<close>: \<open>Buffer.h\<close>, \<open>Buffer.cpp\<close>. The byte buffer with its two indices; \<open>readFd\<close>.
  \<^item> \<open>Timers\<close>: \<open>Timer.h\<close>, \<open>TimerId.h\<close>, \<open>TimerQueue.h\<close>, \<open>TimerQueue.cpp\<close>. The two ordered sets of timers, firing,
    cancelling and rescheduling.
  \<^item> \<open>Ring\<close>, \<open>Mpsc\<close>: \<open>CircularBuffer.h\<close>, \<open>CircularBuffer.cpp\<close>, \<open>MpscQueue.h\<close>. The doubly mapped ring and the lock-free queue on it,
    with a step relation for interleaved producers and the consumer.
  \<^item> \<open>Channel\<close>: \<open>Channel.h\<close>, \<open>Channel.cpp\<close>, \<open>Poller.h\<close>, \<open>Poller.cpp\<close>. Channels in a store, the poller's map and the trace of the calls
    of \<open>epoll_ctl\<close>.
  \<^item> \<open>EventLoop\<close>: \<open>EventLoop.h\<close>, \<open>EventLoop.cpp\<close>. A turn of the loop: poll, serve the active channels, run the queued closures.
  \<^item> \<open>Address\<close>: \<open>InetAddress\<close>, \<open>Resolver\<close> and the address functions of \<open>SocketsOps.cpp\<close>.
  \<^item> \<open>Net\<close>: the objects of the network part and the system calls of \<open>SocketsOps.cpp\<close>.
  \<^item> \<open>TcpConnection\<close>, \<open>TcpServer\<close> (with the acceptor), \<open>UdpSocket\<close>: the classes of these names, member by member.
  \<^item> \<open>Application\<close>: running and destroying queued closures, dispatch of channel events to their owners, and applications
    as functions from callbacks to lists of calls of the library.
  \<^item> \<open>Program\<close>, \<open>Demos\<close>: whole programs from the constructor of the loop on; the program of \<open>test_build.cpp\<close>, the echo server of
    \<open>README.md\<close> and a kernel to run them on. \<open>TimerDemo\<close>: the program of \<open>demo_timer.cpp\<close>.

  \<^bold>\<open>State.\<close> Objects that refer to each other by pointers live in stores from addresses to records; the records extend
  each other in the order reactor, loop, world. A method is a function on the state that is given the address of its
  object. \<open>std::shared_ptr\<close> is a count in \<open>refs\<close>; dropping the last reference runs the destructor. A failed assertion, \<open>abort\<close>, an exception
  of the standard library and an access to an object that is gone are values of \<open>fault\<close>. The kernel is a record \<open>os\<close> of
  functions of the calls made so far; every call is recorded in \<open>calls\<close>, every callback of the application in \<open>obs\<close>.
  Callbacks are run where the code runs them, so an operation of the library can be entered again from inside another one.

  \<^bold>\<open>What is shown for the parts.\<close> Each part's theory ends with its properties. The buffer implements a queue of bytes
  (\<open>Buffer\<close>). The timer queue keeps its sets consistent and fires, reschedules and cancels as specified (\<open>Timers\<close>). The ring
  is mapped twice without leaks (\<open>Ring\<close>); values leave the queue in the order of reservation, once each, and nodes are exclusive
  (\<open>Mpsc\<close>). The interest list in the kernel mirrors the channels and events go to the right callbacks (\<open>Channel\<close>). Queued
  closures run in order and once each when they queue finitely much (\<open>EventLoop\<close>). Addresses survive printing and parsing, and
  the resolver returns the first usable entry (\<open>Address\<close>).

  \<^bold>\<open>What is shown for the whole.\<close> \<open>Ownership\<close> states one invariant of the running program: who owns every object, descriptor and
  reference, in which phase of its life every connection is, and that each connection's output is what was written
  followed by what waits in its buffer. The invariant has a context for the operations that are still on the stack when a callback runs.
  \<open>Lifecycle\<close>, \<open>Streams\<close>, \<open>Holders\<close>, \<open>Teardown\<close>, \<open>Accepting\<close>, \<open>Births\<close> and \<open>Datagrams\<close> show that the operations keep it, \<open>Actions\<close> that
  applications do, \<open>Tasks\<close> that the queued closures do, \<open>Turns\<close> that a turn of the loop does, and \<open>Program\<close> that it holds from the
  start. \<open>Guarantees\<close> says what follows between two turns; the theorems below state it for whole programs. \<open>Services\<close> has properties of single
  operations: shutting down, the high-water mark, errors of \<open>accept\<close> and \<open>bind\<close>, names of connections.

  \<^bold>\<open>Examples.\<close> \<open>Runs\<close> evaluates whole programs by rewriting, from \<open>main\<close> to the system calls. The runs show that the hypotheses of
  the theorems hold in programs where clients connect, are answered and leave, and what happens in programs outside the assumptions.

  \<^bold>\<open>Assumptions on the kernel and on applications.\<close> \<open>os_ok\<close>: \<open>epoll_ctl\<close> succeeds on valid arguments, calls return sizes within bounds, new
  descriptors are unused, \<open>accept4\<close> fails only with the errors that \<open>sockets::accept\<close> passes on. \<open>reported_ok\<close>: \<open>epoll_wait\<close> reports registered channels, and a
  hangup of a TCP socket comes with \<open>EPOLLIN\<close>. \<open>app_ok\<close>: a server is destroyed from a queued closure and not while the
  loop serves channels, UDP sockets are started on the thread of the loop, names of servers leave room for the connection number, and messages fit into a
  vector. An application acts on objects that exist. The runs in \<open>Runs\<close> show that the first three are needed.

  \<^bold>\<open>Bounds and fuel.\<close> \<open>size_t\<close> sums wrap modulo \<open>2 ^ 64\<close>, the ring's counters are 32-bit words and \<open>nextConnId_\<close> is checked against the
  range of \<open>int\<close>. The depth \<open>d\<close> of \<open>app_cb\<close> bounds how deeply callbacks nest; the theorems hold for every depth. \<open>doPendingFunctors\<close>
  need not return and is a partial function; \<open>None\<close> is a turn that does not end.

  \<^bold>\<open>Not modelled.\<close> The logging library and the text of messages; it has no influence on the state. The weaker memory
  orders of the atomics: interleavings are sequentially consistent. Threads other than the loop's take part as calls with
  \<open>isInLoopThread()\<close> false, at the points where the loop runs callbacks, except in \<open>Mpsc\<close>, where every atomic access is a step.
  Timers and sockets are not combined: the timer channel's handler is a callback of the application in \<open>Application\<close>. The overloads of
  \<open>runAfter\<close> and \<open>runEvery\<close> that take seconds as \<open>double\<close>, since they only convert a floating-point number. \<open>SIGPIPE\<close>, which the library ignores, so that
  a write to a closed socket returns an error. Destructors that only close a descriptor of the loop itself. Declarations in headers and accessors
  that return a member.
\<close>

subsection \<open>Properties of whole programs\<close>

text \<open>The example for the hypotheses: an echo server, a client that connects, sends two bytes, gets them back and closes the connection.\<close>

lemmas echo_hyps = example_startup_ok clients_ok [of 1] echo_app_ok echo_reported





text \<open>
  Claim C3. Between two turns of the loop every open descriptor has exactly one owner: the socket of a connection, the
  listening socket or the spare descriptor of an acceptor, or a UDP socket. No descriptor was leaked, none was
  closed twice, and no system call was made on a closed one.
\<close>

theorem program_descriptors:
  assumes "startup_ok s" and "os_ok (reserved s) os" and "app_ok app" and "program_reported os s (app_main os app d) app d xs"
  shows "afterwards descriptors_owned (program os s (app_main os app d) app d xs)"
  by (rule program_afterwards(1) [OF assms(1-3) app_main_ok [OF assms(3,2)] assms(4) inv_descriptors])

theorem program_descriptors_witness:
  "\<exists>w. program example_kernel example_startup (app_main example_kernel echo_app 3) echo_app 3 echo_turns = Some (Inr w) \<and> descriptors_owned w
     \<and> written 12 (calls w) = [104, 105]"
  using program_descriptors [OF echo_hyps] echo_run by (auto simp: afterwards_def)

text \<open>
  Claim C4. The reference count of every connection, acceptor and shared channel is the number of the pointers to it: the
  entries of server maps, the members of its owners, the closures that wait in the queue, and what the application holds.
  An object exists exactly when its count is positive, so none is leaked and none is freed while in use.
\<close>

theorem program_references:
  assumes "startup_ok s" and "os_ok (reserved s) os" and "app_ok app" and "program_reported os s (app_main os app d) app d xs"
  shows "afterwards references_exact (program os s (app_main os app d) app d xs)"
  by (rule program_afterwards(1) [OF assms(1-3) app_main_ok [OF assms(3,2)] assms(4) inv_references])

theorem program_references_witness:
  "\<exists>w. program example_kernel example_startup (app_main example_kernel echo_app 3) echo_app 3 echo_turns = Some (Inr w) \<and> references_exact w
     \<and> written 12 (calls w) = [104, 105]"
  using program_references [OF echo_hyps] echo_run by (auto simp: afterwards_def)

text \<open>
  Claim C5. \<open>epoll\<close> watches the socket of an open connection for input, and for output exactly while the output buffer
  is not empty; it watches a listening socket, and a UDP socket exactly while it receives; it no longer watches the socket of a closed
  connection. So the loop neither spins on writable sockets nor forgets to flush a buffer.
\<close>

theorem program_interest:
  assumes "startup_ok s" and "os_ok (reserved s) os" and "app_ok app" and "program_reported os s (app_main os app d) app d xs"
  shows "afterwards interest_exact (program os s (app_main os app d) app d xs)"
  by (rule program_afterwards(1) [OF assms(1-3) app_main_ok [OF assms(3,2)] assms(4) inv_interest])

theorem program_interest_witness:
  "\<exists>w. program example_kernel example_startup (app_main example_kernel echo_app 3) echo_app 3 echo_turns = Some (Inr w) \<and> interest_exact w
     \<and> written 12 (calls w) = [104, 105]"
  using program_interest [OF echo_hyps] echo_run by (auto simp: afterwards_def)

text \<open>
  Claim C6. A connection is in the map of its server exactly while it is not disconnected; after that, one
  \<open>connectDestroyed\<close> waits for it until its descriptor is closed, and never a second one.
\<close>

theorem program_life_cycle:
  assumes "startup_ok s" and "os_ok (reserved s) os" and "app_ok app" and "program_reported os s (app_main os app d) app d xs"
  shows "afterwards life_cycle (program os s (app_main os app d) app d xs)"
  by (rule program_afterwards(1) [OF assms(1-3) app_main_ok [OF assms(3,2)] assms(4) inv_life_cycle])

theorem program_life_cycle_witness:
  "\<exists>w. program example_kernel example_startup (app_main example_kernel echo_app 3) echo_app 3 echo_turns = Some (Inr w) \<and> life_cycle w
     \<and> written 12 (calls w) = [104, 105]"
  using program_life_cycle [OF echo_hyps] echo_run by (auto simp: afterwards_def)

text \<open>
  Claim C7. Every stored pointer leads to an object of the right kind and no address holds objects of two kinds: the channels
  of connections, acceptors and UDP sockets exist and belong to them, servers have an acceptor that calls them back, the
  entries of their maps are connections under their own names, and waiting closures refer to objects that exist.
\<close>

theorem program_typed:
  assumes "startup_ok s" and "os_ok (reserved s) os" and "app_ok app" and "program_reported os s (app_main os app d) app d xs"
  shows "afterwards heap_typed (program os s (app_main os app d) app d xs)"
  by (rule program_afterwards(1) [OF assms(1-3) app_main_ok [OF assms(3,2)] assms(4) inv_typed])

theorem program_typed_witness:
  "\<exists>w. program example_kernel example_startup (app_main example_kernel echo_app 3) echo_app 3 echo_turns = Some (Inr w) \<and> heap_typed w
     \<and> written 12 (calls w) = [104, 105]"
  using program_typed [OF echo_hyps] echo_run by (auto simp: afterwards_def)



end
